(* ===== verification/Prelude.thy ===== *)
theory Prelude
  imports Main "HOL-Library.Word" "HOL-Library.Char_ord" "HOL-Library.List_Lexorder"
begin

text \<open>
  What the components share: the outcome type (the faults of a C++ run and the values),
  the two C++ algorithms the code searches with (\<open>std::find\<close> and \<open>std::search\<close>),
  the C library functions it prints with (\<open>snprintf\<close>, \<open>%d\<close>, \<open>isspace\<close>), copying a
  run of bytes into an array, and the generic lemmas about them.
\<close>

named_theorems wf_intros "operations keep the well-formedness of their component"
named_theorems content_simps "what an operation does to the abstract content of its component"

section \<open>Outcomes\<close>

text \<open>
  A run of the code ends with a value or with one of these faults: a failed \<open>assert\<close>, an
  abort (a FATAL log line ends in \<open>abort()\<close>), an access outside the bounds of an array, a
  dereference of a null pointer, a call of an empty \<open>std::function\<close>, \<open>pop_back\<close> /
  \<open>back\<close> on an empty vector, or a call that never returns.
\<close>

datatype fault = AssertFailed | Aborted | OutOfBounds | NullDeref | BadFunctionCall | EmptyVector | NoReturn

type_synonym 'a outcome = "fault + 'a"

definition bindR :: "'a outcome \<Rightarrow> ('a \<Rightarrow> 'b outcome) \<Rightarrow> 'b outcome" where
  "bindR m f = (case m of Inl e \<Rightarrow> Inl e | Inr x \<Rightarrow> f x)"

lemma bindR_simps [simp]:
  "bindR (Inl e) f = Inl e"
  "bindR (Inr x) f = f x"
  by (simp_all add: bindR_def)

lemma bindR_eq_Inr: "bindR m f = Inr y \<longleftrightarrow> (\<exists>x. m = Inr x \<and> f x = Inr y)"
  by (cases m) auto

lemma bindR_eq_Inl: "bindR m f = Inl e \<longleftrightarrow> m = Inl e \<or> (\<exists>x. m = Inr x \<and> f x = Inl e)"
  by (cases m) auto

lemma bindR_assoc: "bindR (bindR m f) g = bindR m (\<lambda>x. bindR (f x) g)"
  by (cases m) auto

text \<open>A condition the code checks (with \<open>assert\<close>, or before an abort).\<close>

definition require :: "fault \<Rightarrow> bool \<Rightarrow> unit outcome" where
  "require e b = (if b then Inr () else Inl e)"

lemma require_simps [simp]:
  "require e True = Inr ()"
  "require e False = Inl e"
  "require e b = Inr u \<longleftrightarrow> b"
  "require e b = Inl e' \<longleftrightarrow> \<not> b \<and> e' = e"
  by (auto simp: require_def)

text \<open>A sequence of fallible steps over a list, left to right, stopping at the first fault.\<close>

fun foldR :: "('a \<Rightarrow> 's \<Rightarrow> 's outcome) \<Rightarrow> 'a list \<Rightarrow> 's \<Rightarrow> 's outcome" where
  "foldR f [] s = Inr s"
| "foldR f (x # xs) s = bindR (f x s) (foldR f xs)"

lemma foldR_append: "foldR f (xs @ ys) s = bindR (foldR f xs s) (foldR f ys)"
proof (induction xs arbitrary: s)
  case (Cons x xs)
  then show ?case by (cases "f x s") simp_all
qed simp

lemma foldR_invariant:
  assumes "foldR f xs s = Inr t" and "P s"
    and "\<And>x s t. x \<in> set xs \<Longrightarrow> P s \<Longrightarrow> f x s = Inr t \<Longrightarrow> P t"
  shows "P t"
  using assms
proof (induction xs arbitrary: s)
  case (Cons x xs)
  then obtain s1 where s1: "f x s = Inr s1" "foldR f xs s1 = Inr t" by (auto simp: bindR_eq_Inr)
  moreover from Cons.prems(2,3) s1(1) have "P s1" by (metis list.set_intros(1))
  ultimately show ?case using Cons.IH Cons.prems(3) by (metis list.set_intros(2))
qed simp

lemma foldR_total:
  assumes "P s" and "\<And>x s. x \<in> set xs \<Longrightarrow> P s \<Longrightarrow> \<exists>t. f x s = Inr t \<and> P t"
  shows "\<exists>t. foldR f xs s = Inr t \<and> P t"
  using assms
proof (induction xs arbitrary: s)
  case Nil
  then show ?case by simp
next
  case (Cons x xs)
  from Cons.prems(1) Cons.prems(2)[of x s] obtain s1 where s1: "f x s = Inr s1" "P s1" by auto
  have "\<exists>t. foldR f xs s1 = Inr t \<and> P t"
    using s1(2) Cons.prems(2) by (intro Cons.IH) auto
  with s1(1) show ?case by simp
qed

section \<open>Searching: std::find and std::search\<close>

text \<open>
  Both return an offset from the first element; the length of the range is the \<open>end\<close>
  iterator, which is what the algorithms return when nothing is found.
\<close>

fun std_find :: "'a list \<Rightarrow> 'a \<Rightarrow> nat" where
  "std_find [] c = 0"
| "std_find (x # xs) c = (if x = c then 0 else Suc (std_find xs c))"

fun std_search :: "'a list \<Rightarrow> 'a list \<Rightarrow> nat" where
  "std_search [] pat = 0"
| "std_search (x # xs) pat =
     (if take (length pat) (x # xs) = pat then 0 else Suc (std_search xs pat))"

lemma std_find_le: "std_find xs c \<le> length xs"
  by (induction xs) auto

lemma std_find_notin: "c \<notin> set xs \<Longrightarrow> std_find xs c = length xs"
  by (induction xs) auto

lemma std_find_eq_length_iff: "std_find xs c = length xs \<longleftrightarrow> c \<notin> set xs"
  by (induction xs) auto

lemma std_find_prefix: "c \<notin> set xs \<Longrightarrow> std_find (xs @ c # ys) c = length xs"
  by (induction xs) auto

lemma std_find_nth: "std_find xs c < length xs \<Longrightarrow> xs ! std_find xs c = c"
  by (induction xs) auto

lemma std_find_before: "c \<notin> set (take (std_find xs c) xs)"
  by (induction xs) auto

lemma std_find_decomp:
  assumes "std_find xs c \<noteq> length xs"
  obtains ys zs where "xs = ys @ c # zs" "std_find xs c = length ys" "c \<notin> set ys"
proof -
  let ?n = "std_find xs c"
  have "?n < length xs" using assms std_find_le[of xs c] by linarith
  have "xs = take ?n xs @ c # drop (Suc ?n) xs"
    by (rule id_take_nth_drop[OF \<open>?n < length xs\<close>,
          unfolded std_find_nth[OF \<open>?n < length xs\<close>]])
  moreover have "?n = length (take ?n xs)" using \<open>?n < length xs\<close> by simp
  ultimately show thesis by (rule that) (rule std_find_before)
qed

lemma std_search_le: "std_search xs pat \<le> length xs"
  by (induction xs) auto

text \<open>A hit is the start of an occurrence, and no occurrence starts before it.\<close>

lemma std_search_hit:
  "std_search xs pat < length xs \<Longrightarrow> take (length pat) (drop (std_search xs pat) xs) = pat"
  by (induction xs) (auto split: if_splits)

lemma std_search_first:
  "i < std_search xs pat \<Longrightarrow> take (length pat) (drop i xs) \<noteq> pat"
proof (induction xs arbitrary: i)
  case (Cons x xs)
  then show ?case by (cases i) (auto split: if_splits)
qed simp

lemma std_search_miss:
  "std_search xs pat = length xs \<Longrightarrow> i < length xs \<Longrightarrow> take (length pat) (drop i xs) \<noteq> pat"
  using std_search_first[of i xs pat] by simp

lemma std_search_hit_room:
  assumes "std_search xs pat < length xs"
  shows "std_search xs pat + length pat \<le> length xs"
proof -
  have "length (take (length pat) (drop (std_search xs pat) xs)) = length pat"
    using std_search_hit[OF assms] by simp
  with assms show ?thesis by simp
qed

text \<open>Text after a hit does not move it: what a parser relies on when more bytes arrive.\<close>

lemma std_search_append:
  "std_search xs pat < length xs \<Longrightarrow> std_search (xs @ ys) pat = std_search xs pat"
proof (induction xs)
  case (Cons x xs)
  show ?case
  proof (cases "take (length pat) (x # xs) = pat")
    case True
    then have "length pat \<le> length (x # xs)" by (metis length_take min.absorb_iff2 min.commute)
    with True have "take (length pat) (x # xs @ ys) = pat"
      by (metis append_Cons append_Nil2 diff_is_0_eq take0 take_append)
    with True show ?thesis by simp
  next
    case False
    with Cons.prems have len: "std_search xs pat < length xs" by simp
    from std_search_hit_room[OF this] have "length pat \<le> length xs" by linarith
    then have "take (length pat) (x # xs @ ys) = take (length pat) (x # xs)"
      by (cases "length pat") auto
    with False Cons.IH[OF len] show ?thesis by simp
  qed
qed simp

section \<open>C library: isspace, snprintf, printing integers\<close>

text \<open>\<open>isspace\<close> in the C locale: space and the five control characters 9 to 13.\<close>

definition isspace :: "char \<Rightarrow> bool" where
  "isspace c \<longleftrightarrow> of_char c = (32::nat) \<or> (9 \<le> (of_char c :: nat) \<and> (of_char c :: nat) \<le> 13)"

text \<open>
  \<open>snprintf (buf, n, ...)\<close> leaves the first \<open>n - 1\<close> characters of the formatted text
  (followed by a NUL) in the array.
\<close>

definition snprintf :: "nat \<Rightarrow> string \<Rightarrow> string" where
  "snprintf n s = take (n - 1) s"

lemma snprintf_fits: "length s < n \<Longrightarrow> snprintf n s = s"
  by (simp add: snprintf_def)

text \<open>What \<open>%u\<close> prints, most significant digit first, and how a reader gets the number back.\<close>

definition digit_char :: "nat \<Rightarrow> char" where
  "digit_char d = char_of (48 + d)"

function show_nat :: "nat \<Rightarrow> string" where
  "show_nat n = (if n < 10 then [digit_char n] else show_nat (n div 10) @ [digit_char (n mod 10)])"
  by pat_completeness auto
termination
  by (relation "measure id") auto

declare show_nat.simps [simp del]

definition show_int :: "int \<Rightarrow> string" where
  "show_int i = (if i < 0 then CHR ''-'' # show_nat (nat (- i)) else show_nat (nat i))"

definition char_digit :: "char \<Rightarrow> nat" where
  "char_digit c = of_char c - 48"

definition read_nat :: "string \<Rightarrow> nat" where
  "read_nat s = foldl (\<lambda>n c. 10 * n + char_digit c) 0 s"

lemma char_digit_digit_char [simp]: "d < 10 \<Longrightarrow> char_digit (digit_char d) = d"
  by (simp add: char_digit_def digit_char_def)

lemma read_nat_show_nat [simp]: "read_nat (show_nat n) = n"
proof (induction n rule: show_nat.induct)
  case (1 n)
  then show ?case
    by (subst show_nat.simps) (auto simp: read_nat_def)
qed

lemma show_nat_inject [simp]: "show_nat m = show_nat n \<longleftrightarrow> m = n"
  by (metis read_nat_show_nat)

lemma show_nat_nonempty [simp]: "show_nat n \<noteq> []"
  by (subst show_nat.simps) simp

lemma length_show_nat: "n < 10 ^ k \<Longrightarrow> 0 < k \<Longrightarrow> length (show_nat n) \<le> k"
proof (induction k arbitrary: n)
  case (Suc k)
  show ?case
  proof (cases "n < 10")
    case True
    then show ?thesis by (subst show_nat.simps) simp
  next
    case False
    with Suc.prems have "n div 10 < 10 ^ k" "0 < k"
      by (auto simp: div_less_iff_less_mult mult.commute intro: gr0I)
    from Suc.IH[OF this] False show ?thesis by (subst show_nat.simps) simp
  qed
qed simp

section \<open>Copying bytes into an array\<close>

text \<open>\<open>blit dst at src\<close>: \<open>std::copy\<close> of \<open>src\<close> over the array \<open>dst\<close> from index \<open>at\<close> on.\<close>

definition blit :: "'a list \<Rightarrow> nat \<Rightarrow> 'a list \<Rightarrow> 'a list" where
  "blit dst at src = take at dst @ src @ drop (at + length src) dst"

lemma length_blit [simp]: "at + length src \<le> length dst \<Longrightarrow> length (blit dst at src) = length dst"
  by (simp add: blit_def)

lemma take_blit_before: "i \<le> at \<Longrightarrow> at \<le> length dst \<Longrightarrow> take i (blit dst at src) = take i dst"
  by (simp add: blit_def)

lemma slice_blit:
  assumes "i \<le> at" and "at \<le> length dst"
  shows "take (at + length src - i) (drop i (blit dst at src)) = drop i (take at dst) @ src"
proof -
  have "drop i (blit dst at src) = drop i (take at dst) @ src @ drop (at + length src) dst"
    using assms by (simp add: blit_def)
  moreover have "at + length src - i = length (drop i (take at dst) @ src)"
    using assms by simp
  ultimately show ?thesis by (metis append.assoc append_eq_conv_conj)
qed

end
