(* ===== verification/Time_Stamp.thy ===== *)
theory Time_Stamp
  imports Prelude
begin

text \<open>
  \<open>Timestamp\<close> (mymuduo/include/mymuduo/Timestamp.h, mymuduo/src/Timestamp.cc): a signed 64-bit
  count that the names of the class call microseconds. \<open>operator<\<close> and \<open>operator==\<close> make it a
  linear order.
\<close>

datatype timestamp = Timestamp (microSecondsSinceEpoch: "64 word")

definition invalid_timestamp :: timestamp where
  "invalid_timestamp = Timestamp 0"

definition valid :: "timestamp \<Rightarrow> bool" where
  "valid t \<longleftrightarrow> 0 < sint (microSecondsSinceEpoch t)"

definition kMicroSecondsPerSecond :: int where
  "kMicroSecondsPerSecond = 1000 * 1000"

text \<open>\<open>Timestamp::now()\<close>: the clock's answer to \<open>time(NULL)\<close>, which counts seconds, is an argument.\<close>

definition timestamp_now :: "64 word \<Rightarrow> timestamp" where
  "timestamp_now time_NULL = Timestamp time_NULL"

text \<open>
  A \<open>double\<close> number of seconds, as far as the code looks at it: whether it is positive, and the
  value of \<open>static_cast<int64_t>(seconds * kMicroSecondsPerSecond)\<close>.
\<close>

datatype seconds = Seconds (positive: bool) (delta_micros: "64 word")

definition addTime :: "timestamp \<Rightarrow> seconds \<Rightarrow> timestamp" where
  "addTime t s = Timestamp (microSecondsSinceEpoch t + delta_micros s)"

lemma timestamp_eqI: "sint (microSecondsSinceEpoch a) = sint (microSecondsSinceEpoch b) \<Longrightarrow> a = b"
  by (rule timestamp.expand) (simp add: word_eq_iff_signed[where ?'a = int])

text \<open>
  The comparisons of \<open>Timestamp.h\<close> are signed. They are the order the library's sets and
  lists of time points are sorted by.
\<close>

definition operator_less :: "timestamp \<Rightarrow> timestamp \<Rightarrow> bool" where
  "operator_less lhs rhs \<longleftrightarrow> microSecondsSinceEpoch lhs <s microSecondsSinceEpoch rhs"

definition operator_eq :: "timestamp \<Rightarrow> timestamp \<Rightarrow> bool" where
  "operator_eq lhs rhs \<longleftrightarrow> microSecondsSinceEpoch lhs = microSecondsSinceEpoch rhs"

lemma operator_less_sint:
  "operator_less a b \<longleftrightarrow> sint (microSecondsSinceEpoch a) < sint (microSecondsSinceEpoch b)"
  by (simp add: operator_less_def word_sless_alt)

lemma operator_eq_iff: "operator_eq a b \<longleftrightarrow> a = b"
  by (cases a; cases b) (simp add: operator_eq_def)

instantiation timestamp :: linorder
begin

definition less_timestamp :: "timestamp \<Rightarrow> timestamp \<Rightarrow> bool" where
  "less_timestamp a b \<longleftrightarrow> operator_less a b"

definition less_eq_timestamp :: "timestamp \<Rightarrow> timestamp \<Rightarrow> bool" where
  "less_eq_timestamp a b \<longleftrightarrow> operator_less a b \<or> operator_eq a b"

instance
  by standard (auto simp: less_timestamp_def less_eq_timestamp_def operator_less_sint operator_eq_iff
      intro: timestamp_eqI)

end

lemma timestamp_less_sint: "a < b \<longleftrightarrow> sint (microSecondsSinceEpoch a) < sint (microSecondsSinceEpoch b)"
  by (simp add: less_timestamp_def operator_less_sint)

lemma timestamp_less_eq_sint: "a \<le> b \<longleftrightarrow> sint (microSecondsSinceEpoch a) \<le> sint (microSecondsSinceEpoch b)"
  unfolding le_less timestamp_less_sint by (auto intro: timestamp_eqI)

text \<open>The fields of \<open>struct tm\<close> that are printed; \<open>localtime\<close> is the C library's.\<close>

record tm =
  tm_year :: int
  tm_mon :: int
  tm_mday :: int
  tm_hour :: int
  tm_min :: int
  tm_sec :: int

text \<open>\<open>%4d\<close> (padded with spaces) and \<open>%02d\<close>, \<open>%06d\<close> (padded with zeros).\<close>

definition fmt_spaces :: "nat \<Rightarrow> int \<Rightarrow> string" where
  "fmt_spaces w i = (let s = show_int i in replicate (w - length s) (CHR '' '') @ s)"

definition fmt_zeros :: "nat \<Rightarrow> int \<Rightarrow> string" where
  "fmt_zeros w i =
     (if i < 0
      then CHR ''-'' # replicate (w - 1 - length (show_int (- i))) (CHR ''0'') @ show_int (- i)
      else replicate (w - length (show_int i)) (CHR ''0'') @ show_int i)"

definition timestamp_tostring :: "(64 word \<Rightarrow> tm) \<Rightarrow> timestamp \<Rightarrow> string" where
  "timestamp_tostring localtime t =
     (let tm_time = localtime (microSecondsSinceEpoch t) in
      snprintf 128
        (fmt_spaces 4 (tm_year tm_time + 1900) @ ''/'' @
         fmt_zeros 2 (tm_mon tm_time + 1) @ ''/'' @
         fmt_zeros 2 (tm_mday tm_time) @ ''   '' @
         fmt_zeros 2 (tm_hour tm_time) @ '':'' @
         fmt_zeros 2 (tm_min tm_time) @ '':'' @
         fmt_zeros 2 (tm_sec tm_time)))"

lemma length_fmt_spaces: "length (show_int i) \<le> w \<Longrightarrow> length (fmt_spaces w i) = w"
  by (simp add: fmt_spaces_def Let_def)

lemma length_fmt_zeros: "0 \<le> i \<Longrightarrow> length (show_int i) \<le> w \<Longrightarrow> length (fmt_zeros w i) = w"
  by (simp add: fmt_zeros_def)

lemma length_show_int: "0 \<le> i \<Longrightarrow> i < 10 ^ k \<Longrightarrow> 0 < k \<Longrightarrow> length (show_int i) \<le> k"
  using length_show_nat[of "nat i" k] by (simp add: show_int_def nat_less_iff)

end
