(* ===== verification/Channel_Poller.thy ===== *)
theory Channel_Poller
  imports Time_Stamp
begin

unbundle bit_operations_syntax

text \<open>
  \<open>Channel\<close> (mymuduo/include/mymuduo/Channel.h, mymuduo/src/Channel.cc) and \<open>EpollPoller\<close>
  (mymuduo/include/mymuduo/EpollPoller.h, mymuduo/src/EpollPoller.cc, Poller.cc). The Channel
  objects of a loop live in a store indexed by their address; \<open>channels_\<close> maps a descriptor to
  an address. The kernel is an argument: \<open>kctl log cmd\<close> is what \<open>epoll_ctl\<close> returns for \<open>cmd\<close>
  after the commands of \<open>log\<close>. The state keeps the commands issued so far.
\<close>

section \<open>Channel\<close>

definition EPOLLIN :: "32 word" where "EPOLLIN = 0x001"

definition EPOLLPRI :: "32 word" where "EPOLLPRI = 0x002"

definition EPOLLOUT :: "32 word" where "EPOLLOUT = 0x004"

definition EPOLLERR :: "32 word" where "EPOLLERR = 0x008"

definition EPOLLHUP :: "32 word" where "EPOLLHUP = 0x010"

definition POLLNVAL :: "32 word" where "POLLNVAL = 0x020"

definition EPOLLRDHUP :: "32 word" where "EPOLLRDHUP = 0x2000"

definition kNoneEvent :: "32 word" where "kNoneEvent = 0"

definition kReadEvent :: "32 word" where "kReadEvent = EPOLLIN OR EPOLLPRI"

definition kWriteEvent :: "32 word" where "kWriteEvent = EPOLLOUT"

lemmas event_bits =
  EPOLLIN_def EPOLLPRI_def EPOLLOUT_def EPOLLERR_def EPOLLHUP_def POLLNVAL_def EPOLLRDHUP_def
  kNoneEvent_def kReadEvent_def kWriteEvent_def

text \<open>\<open>if (w & m)\<close>.\<close>

definition has_bits :: "32 word \<Rightarrow> 32 word \<Rightarrow> bool" where
  "has_bits w m \<longleftrightarrow> w AND m \<noteq> 0"

text \<open>\<open>chan_tie\<close> is the weak pointer to the owner, \<open>None\<close> until \<open>tie\<close> is called (\<open>tied_\<close>).\<close>

record channel =
  chan_loop :: nat
  chan_fd :: int
  chan_events :: "32 word"
  chan_revents :: "32 word"
  chan_index :: int
  chan_tie :: "nat option"
  addedToLoop :: bool

definition kNew :: int where "kNew = - 1"

definition kAdded :: int where "kAdded = 1"

definition kDeleted :: int where "kDeleted = 2"

definition new_channel :: "nat \<Rightarrow> int \<Rightarrow> channel" where
  "new_channel loop fd =
     \<lparr>chan_loop = loop, chan_fd = fd, chan_events = 0, chan_revents = 0, chan_index = - 1, chan_tie = None,
      addedToLoop = False\<rparr>"

definition isNoneEvent :: "channel \<Rightarrow> bool" where
  "isNoneEvent c \<longleftrightarrow> chan_events c = kNoneEvent"

definition isWriting :: "channel \<Rightarrow> bool" where
  "isWriting c \<longleftrightarrow> has_bits (chan_events c) kWriteEvent"

definition isReading :: "channel \<Rightarrow> bool" where
  "isReading c \<longleftrightarrow> has_bits (chan_events c) kReadEvent"

definition eventsToString_of :: "int \<Rightarrow> 32 word \<Rightarrow> string" where
  "eventsToString_of fd ev =
     show_int fd @ '': '' @
     (if has_bits ev EPOLLIN then ''IN '' else []) @
     (if has_bits ev EPOLLPRI then ''PRI '' else []) @
     (if has_bits ev EPOLLOUT then ''OUT '' else []) @
     (if has_bits ev EPOLLHUP then ''HUP '' else []) @
     (if has_bits ev EPOLLRDHUP then ''RDHUP '' else []) @
     (if has_bits ev EPOLLERR then ''ERR '' else []) @
     (if has_bits ev POLLNVAL then ''NVAL '' else [])"

definition reventsToString :: "channel \<Rightarrow> string" where
  "reventsToString c = eventsToString_of (chan_fd c) (chan_revents c)"

definition eventsToString :: "channel \<Rightarrow> string" where
  "eventsToString c = eventsToString_of (chan_fd c) (chan_revents c)"

text \<open>The four callbacks of a channel, each possibly empty, as transformers of a state.\<close>

record 's handlers =
  readCallback :: "(timestamp \<Rightarrow> 's \<Rightarrow> 's outcome) option"
  writeCallback :: "('s \<Rightarrow> 's outcome) option"
  closeCallback :: "('s \<Rightarrow> 's outcome) option"
  errorCallback :: "('s \<Rightarrow> 's outcome) option"

definition no_handlers :: "'s handlers" where
  "no_handlers = \<lparr>readCallback = None, writeCallback = None, closeCallback = None, errorCallback = None\<rparr>"

definition channel_setReadCallback :: "(timestamp \<Rightarrow> 's \<Rightarrow> 's outcome) \<Rightarrow> 's handlers \<Rightarrow> 's handlers" where
  "channel_setReadCallback cb h = h\<lparr>readCallback := Some cb\<rparr>"

definition channel_setWriteCallback :: "('s \<Rightarrow> 's outcome) \<Rightarrow> 's handlers \<Rightarrow> 's handlers" where
  "channel_setWriteCallback cb h = h\<lparr>writeCallback := Some cb\<rparr>"

definition channel_setCloseCallback :: "('s \<Rightarrow> 's outcome) \<Rightarrow> 's handlers \<Rightarrow> 's handlers" where
  "channel_setCloseCallback cb h = h\<lparr>closeCallback := Some cb\<rparr>"

definition channel_setErrorCallback :: "('s \<Rightarrow> 's outcome) \<Rightarrow> 's handlers \<Rightarrow> 's handlers" where
  "channel_setErrorCallback cb h = h\<lparr>errorCallback := Some cb\<rparr>"

declare no_handlers_def [simp] channel_setReadCallback_def [simp] channel_setWriteCallback_def [simp]
  channel_setCloseCallback_def [simp] channel_setErrorCallback_def [simp]

definition call_if_set :: "bool \<Rightarrow> ('s \<Rightarrow> 's outcome) option \<Rightarrow> 's \<Rightarrow> 's outcome" where
  "call_if_set cond cb s = (case cb of Some f \<Rightarrow> if cond then f s else Inr s | None \<Rightarrow> Inr s)"

definition handleEventWithGuard :: "'s handlers \<Rightarrow> 32 word \<Rightarrow> timestamp \<Rightarrow> 's \<Rightarrow> 's outcome" where
  "handleEventWithGuard h revents receivetime s =
     bindR (call_if_set (has_bits revents EPOLLHUP \<and> \<not> has_bits revents EPOLLIN) (closeCallback h) s) (\<lambda>s.
     bindR (call_if_set (has_bits revents EPOLLERR) (errorCallback h) s) (\<lambda>s.
     bindR (call_if_set (has_bits revents (EPOLLIN OR EPOLLPRI))
              (map_option (\<lambda>f. f receivetime) (readCallback h)) s) (\<lambda>s.
     call_if_set (has_bits revents EPOLLOUT) (writeCallback h) s)))"

text \<open>\<open>alive\<close> tells whether \<open>tie_.lock()\<close> still finds its object.\<close>

definition handleEvent ::
  "(nat \<Rightarrow> bool) \<Rightarrow> 's handlers \<Rightarrow> channel \<Rightarrow> timestamp \<Rightarrow> 's \<Rightarrow> 's outcome" where
  "handleEvent alive h c receiveTime s =
     (case chan_tie c of
        Some obj \<Rightarrow>
          if alive obj then handleEventWithGuard h (chan_revents c) receiveTime s else Inr s
      | None \<Rightarrow> handleEventWithGuard h (chan_revents c) receiveTime s)"

lemma call_if_set_invariant:
  assumes "call_if_set b cb s = Inr s'" and "P s" and "\<And>f s s'. cb = Some f \<Longrightarrow> P s \<Longrightarrow> f s = Inr s' \<Longrightarrow> P s'"
  shows "P s'"
  using assms by (auto simp: call_if_set_def split: option.splits if_splits)

text \<open>What each callback keeps, the dispatch keeps.\<close>

lemma handleEvent_invariant:
  assumes run: "handleEvent alive h c t s = Inr s'" and "P s"
    and rd: "\<And>f s s'. readCallback h = Some f \<Longrightarrow> P s \<Longrightarrow> f t s = Inr s' \<Longrightarrow> P s'"
    and wr: "\<And>f s s'. writeCallback h = Some f \<Longrightarrow> P s \<Longrightarrow> f s = Inr s' \<Longrightarrow> P s'"
    and cl: "\<And>f s s'. closeCallback h = Some f \<Longrightarrow> P s \<Longrightarrow> f s = Inr s' \<Longrightarrow> P s'"
    and er: "\<And>f s s'. errorCallback h = Some f \<Longrightarrow> P s \<Longrightarrow> f s = Inr s' \<Longrightarrow> P s'"
  shows "P s'"
proof -
  have guard: "P s'" if "handleEventWithGuard h r t s = Inr s'" for r
  proof -
    from that obtain s1 s2 s3 b1 b2 b3 b4 where
      "call_if_set b1 (closeCallback h) s = Inr s1" "call_if_set b2 (errorCallback h) s1 = Inr s2"
      "call_if_set b3 (map_option (\<lambda>f. f t) (readCallback h)) s2 = Inr s3"
      "call_if_set b4 (writeCallback h) s3 = Inr s'"
      by (auto simp: handleEventWithGuard_def bindR_eq_Inr)
    note st = this
    have "P s1" by (rule call_if_set_invariant[where P = P, OF st(1) assms(2)]) (rule cl)
    then have "P s2" by (rule call_if_set_invariant[where P = P, OF st(2)]) (rule er)
    then have "P s3" by (rule call_if_set_invariant[where P = P, OF st(3)]) (use rd in auto)
    then show "P s'" by (rule call_if_set_invariant[where P = P, OF st(4)]) (rule wr)
  qed
  show ?thesis
    using run assms(2) guard by (auto simp: handleEvent_def split: option.splits if_splits)
qed

section \<open>EpollPoller\<close>

datatype epoll_op = CTL_ADD | CTL_MOD | CTL_DEL

datatype epoll_cmd = EpollCtl (ctl_op: epoll_op) (ctl_fd: int) (ctl_events: "32 word")

text \<open>The commands by their numbers, as \<open>epoll_ctl\<close> takes them, and their names for the log.\<close>

fun op_number :: "epoll_op \<Rightarrow> int" where
  "op_number CTL_ADD = 1"
| "op_number CTL_DEL = 2"
| "op_number CTL_MOD = 3"

definition operationToString :: "int \<Rightarrow> string outcome" where
  "operationToString op =
     (if op = 1 then Inr ''ADD'' else if op = 2 then Inr ''DEL'' else if op = 3 then Inr ''MOD'' else Inl AssertFailed)"

lemma operation_names:
  "\<exists>name. operationToString (op_number op) = Inr name"
  "operationToString (op_number op) = operationToString (op_number op') \<longleftrightarrow> op = op'"
  by (cases op; simp add: operationToString_def) (cases op; cases op'; simp add: operationToString_def)

type_synonym kctl = "epoll_cmd list \<Rightarrow> epoll_cmd \<Rightarrow> int"

record poller =
  chans :: "nat \<Rightarrow> channel"
  channels :: "int \<rightharpoonup> nat"
  ctl_log :: "epoll_cmd list"
  event_list_size :: nat

definition kInitEventListSize :: nat where
  "kInitEventListSize = 16"

text \<open>A fresh \<open>EpollPoller\<close>; \<open>epoll_create1\<close> may fail, which is fatal.\<close>

definition new_poller :: "int \<Rightarrow> poller outcome" where
  "new_poller epollfd =
     bindR (require Aborted (0 \<le> epollfd)) (\<lambda>_.
     Inr \<lparr>chans = (\<lambda>_. new_channel 0 (- 1)), channels = Map.empty, ctl_log = [],
          event_list_size = kInitEventListSize\<rparr>)"

definition set_chan :: "nat \<Rightarrow> channel \<Rightarrow> 'z poller_scheme \<Rightarrow> 'z poller_scheme" where
  "set_chan ptr c p = p\<lparr>chans := (chans p)(ptr := c)\<rparr>"

definition set_index :: "int \<Rightarrow> nat \<Rightarrow> 'z poller_scheme \<Rightarrow> 'z poller_scheme" where
  "set_index idx ptr p = set_chan ptr ((chans p ptr)\<lparr>chan_index := idx\<rparr>) p"

definition set_revents :: "32 word \<Rightarrow> nat \<Rightarrow> 'z poller_scheme \<Rightarrow> 'z poller_scheme" where
  "set_revents revt ptr p = set_chan ptr ((chans p ptr)\<lparr>chan_revents := revt\<rparr>) p"

text \<open>\<open>EpollPoller::update\<close>: a failed ADD or MOD is a FATAL log line, a failed DEL an ERROR one.\<close>

definition poller_update ::
  "kctl \<Rightarrow> epoll_op \<Rightarrow> nat \<Rightarrow> 'z poller_scheme \<Rightarrow> 'z poller_scheme outcome" where
  "poller_update k operation ptr p =
     (let c = chans p ptr;
          cmd = EpollCtl operation (chan_fd c) (chan_events c);
          rc = k (ctl_log p) cmd;
          p = p\<lparr>ctl_log := ctl_log p @ [cmd]\<rparr>
      in if rc < 0
         then if operation = CTL_DEL then Inr p else Inl Aborted
         else Inr p)"

definition poller_updateChannel ::
  "kctl \<Rightarrow> bool \<Rightarrow> nat \<Rightarrow> 'z poller_scheme \<Rightarrow> 'z poller_scheme outcome" where
  "poller_updateChannel k in_loop_thread ptr p =
     bindR (require Aborted in_loop_thread) (\<lambda>_.
     let c = chans p ptr; index = chan_index c; fd = chan_fd c in
     if index = kNew \<or> index = kDeleted
     then bindR
       (if index = kNew
        then bindR (require AssertFailed (channels p fd = None)) (\<lambda>_.
             Inr (p\<lparr>channels := (channels p)(fd \<mapsto> ptr)\<rparr>))
        else bindR (require AssertFailed (channels p fd \<noteq> None)) (\<lambda>_.
             bindR (require AssertFailed (channels p fd = Some ptr)) (\<lambda>_. Inr p)))
       (\<lambda>p. poller_update k CTL_ADD ptr (set_index kAdded ptr p))
     else
       bindR (require AssertFailed (channels p fd \<noteq> None)) (\<lambda>_.
       bindR (require AssertFailed (channels p fd = Some ptr)) (\<lambda>_.
       bindR (require AssertFailed (index = kAdded)) (\<lambda>_.
       if isNoneEvent c
       then bindR (poller_update k CTL_DEL ptr p) (\<lambda>p. Inr (set_index kDeleted ptr p))
       else poller_update k CTL_MOD ptr p))))"

definition poller_removeChannel ::
  "kctl \<Rightarrow> nat \<Rightarrow> 'z poller_scheme \<Rightarrow> 'z poller_scheme outcome" where
  "poller_removeChannel k ptr p =
     (let fd = chan_fd (chans p ptr);
          p = p\<lparr>channels := (channels p)(fd := None)\<rparr>;
          index = chan_index (chans p ptr)
      in bindR (if index = kAdded then poller_update k CTL_DEL ptr p else Inr p)
           (\<lambda>p. Inr (set_index kNew ptr p)))"

definition hasChannel :: "nat \<Rightarrow> 'z poller_scheme \<Rightarrow> bool" where
  "hasChannel ptr p \<longleftrightarrow> channels p (chan_fd (chans p ptr)) = Some ptr"

text \<open>The events \<open>epoll_wait\<close> filled in, each with its \<open>events\<close> and \<open>data.fd\<close>.\<close>

fun fillActiveChannels ::
  "(32 word \<times> int) list \<Rightarrow> 'z poller_scheme \<Rightarrow> nat list \<times> 'z poller_scheme" where
  "fillActiveChannels [] p = ([], p)"
| "fillActiveChannels ((ev, fd) # es) p =
     (case channels p fd of
        Some ptr \<Rightarrow>
          let (active, p') = fillActiveChannels es (set_revents ev ptr p) in (ptr # active, p')
      | None \<Rightarrow> fillActiveChannels es p)"

text \<open>\<open>poll\<close>: \<open>epoll_wait\<close> failed with an errno, or returned a list of events (empty on a timeout).\<close>

definition poller_poll ::
  "int + (32 word \<times> int) list \<Rightarrow> 'z poller_scheme \<Rightarrow> (nat list \<times> 'z poller_scheme) outcome" where
  "poller_poll ep p =
     (case ep of
        Inl saveErrno \<Rightarrow> Inr ([], p)
      | Inr es \<Rightarrow>
          if 0 < length es
          then bindR (require AssertFailed (length es \<le> event_list_size p)) (\<lambda>_.
               let (active, p) = fillActiveChannels es p
               in Inr (active,
                    if length es = event_list_size p
                    then p\<lparr>event_list_size := event_list_size p * 2\<rparr> else p))
          else Inr ([], p))"

section \<open>What the kernel has been told\<close>

text \<open>
  The interest list of an epoll instance after a list of commands, as epoll_ctl(2) documents it,
  and when a command is legal: ADD needs an unregistered descriptor, MOD and DEL a registered one.
\<close>

fun interest_step :: "epoll_cmd \<Rightarrow> (int \<rightharpoonup> 32 word) \<Rightarrow> (int \<rightharpoonup> 32 word)" where
  "interest_step (EpollCtl CTL_ADD fd ev) m = m(fd \<mapsto> ev)"
| "interest_step (EpollCtl CTL_MOD fd ev) m = m(fd \<mapsto> ev)"
| "interest_step (EpollCtl CTL_DEL fd ev) m = m(fd := None)"

definition interest :: "epoll_cmd list \<Rightarrow> (int \<rightharpoonup> 32 word)" where
  "interest cmds = fold interest_step cmds Map.empty"

fun legal_next :: "(int \<rightharpoonup> 32 word) \<Rightarrow> epoll_cmd \<Rightarrow> bool" where
  "legal_next m (EpollCtl op fd ev) = ((op = CTL_ADD) = (m fd = None))"

fun legal_from :: "(int \<rightharpoonup> 32 word) \<Rightarrow> epoll_cmd list \<Rightarrow> bool" where
  "legal_from m [] = True"
| "legal_from m (cmd # cmds) = (legal_next m cmd \<and> legal_from (interest_step cmd m) cmds)"

definition legal :: "epoll_cmd list \<Rightarrow> bool" where
  "legal cmds = legal_from Map.empty cmds"

lemma interest_Nil [simp]: "interest [] = Map.empty"
  by (simp add: interest_def)

lemma interest_snoc [simp]: "interest (cmds @ [cmd]) = interest_step cmd (interest cmds)"
  by (simp add: interest_def)

lemma legal_from_snoc:
  "legal_from m (cmds @ [cmd]) \<longleftrightarrow> legal_from m cmds \<and> legal_next (fold interest_step cmds m) cmd"
  by (induction cmds arbitrary: m) auto

lemma legal_simps [simp]:
  "legal []"
  "legal (cmds @ [cmd]) \<longleftrightarrow> legal cmds \<and> legal_next (interest cmds) cmd"
  by (simp_all add: legal_def legal_from_snoc interest_def)

text \<open>
  The invariant of a poller between two calls: a channel's index says whether it is in \<open>channels_\<close>
  and whether the kernel watches its descriptor, with exactly its events; and every command issued
  so far was legal.
\<close>

definition watched :: "'z poller_scheme \<Rightarrow> (int \<rightharpoonup> 32 word)" where
  "watched p fd =
     (case channels p fd of
        Some ptr \<Rightarrow> if chan_index (chans p ptr) = kAdded then Some (chan_events (chans p ptr)) else None
      | None \<Rightarrow> None)"

definition index_ok :: "'z poller_scheme \<Rightarrow> bool" where
  "index_ok p \<longleftrightarrow>
     (\<forall>ptr. chan_index (chans p ptr) \<in> {kNew, kAdded, kDeleted}) \<and>
     (\<forall>fd ptr. channels p fd = Some ptr \<longleftrightarrow>
        chan_fd (chans p ptr) = fd \<and> chan_index (chans p ptr) \<noteq> kNew)"

definition poller_inv :: "'z poller_scheme \<Rightarrow> bool" where
  "poller_inv p \<longleftrightarrow> index_ok p \<and> legal (ctl_log p) \<and> interest (ctl_log p) = watched p"

text \<open>A kernel that accepts every legal command.\<close>

definition accepts_legal :: "kctl \<Rightarrow> bool" where
  "accepts_legal k \<longleftrightarrow> (\<forall>log cmd. legal (log @ [cmd]) \<longrightarrow> 0 \<le> k log cmd)"

lemmas index_defs = kNew_def kAdded_def kDeleted_def

lemma index_distinct [simp]:
  "kNew \<noteq> kAdded" "kNew \<noteq> kDeleted" "kAdded \<noteq> kDeleted" "kAdded \<noteq> kNew" "kDeleted \<noteq> kNew" "kDeleted \<noteq> kAdded"
  by (simp_all add: index_defs)

lemma set_chan_simps [simp]:
  "chans (set_chan ptr c p) = (chans p)(ptr := c)"
  "channels (set_chan ptr c p) = channels p"
  "ctl_log (set_chan ptr c p) = ctl_log p"
  "event_list_size (set_chan ptr c p) = event_list_size p"
  by (simp_all add: set_chan_def)

lemma set_index_simps [simp]:
  "chans (set_index i ptr p) = (chans p)(ptr := (chans p ptr)\<lparr>chan_index := i\<rparr>)"
  "channels (set_index i ptr p) = channels p"
  "ctl_log (set_index i ptr p) = ctl_log p"
  "event_list_size (set_index i ptr p) = event_list_size p"
  by (simp_all add: set_index_def)

lemma poller_update_Inr:
  "poller_update k op ptr p = Inr p' \<longleftrightarrow>
     (op = CTL_DEL \<or> 0 \<le> k (ctl_log p) (EpollCtl op (chan_fd (chans p ptr)) (chan_events (chans p ptr)))) \<and>
     p' = p\<lparr>ctl_log := ctl_log p @ [EpollCtl op (chan_fd (chans p ptr)) (chan_events (chans p ptr))]\<rparr>"
  by (auto simp: poller_update_def Let_def split: if_splits)

text \<open>\<open>touch\<close>: what a Channel does to itself before it calls \<open>update\<close>.\<close>

definition touch :: "nat \<Rightarrow> 32 word \<Rightarrow> 'z poller_scheme \<Rightarrow> 'z poller_scheme" where
  "touch ptr ev p = set_chan ptr ((chans p ptr)\<lparr>chan_events := ev, addedToLoop := True\<rparr>) p"

lemma touch_simps [simp]:
  "chans (touch ptr ev p) = (chans p)(ptr := (chans p ptr)\<lparr>chan_events := ev, addedToLoop := True\<rparr>)"
  "channels (touch ptr ev p) = channels p"
  "ctl_log (touch ptr ev p) = ctl_log p"
  "event_list_size (touch ptr ev p) = event_list_size p"
  by (simp_all add: touch_def)

text \<open>\<open>updateChannel\<close> issues one command, and which one is decided by the index and the events.\<close>

definition update_op :: "channel \<Rightarrow> epoll_op" where
  "update_op c =
     (if chan_index c = kAdded then if isNoneEvent c then CTL_DEL else CTL_MOD else CTL_ADD)"

definition after_update :: "nat \<Rightarrow> 'z poller_scheme \<Rightarrow> 'z poller_scheme" where
  "after_update ptr p =
     (let c = chans p ptr; op = update_op c in
      set_index (if op = CTL_DEL then kDeleted else kAdded) ptr
        (p\<lparr>channels := (channels p)(chan_fd c \<mapsto> ptr),
           ctl_log := ctl_log p @ [EpollCtl op (chan_fd c) (chan_events c)]\<rparr>))"

lemma channel_same_index: "chan_index c = i \<Longrightarrow> c\<lparr>chan_index := i\<rparr> = c"
  by (cases c) simp

lemma updateChannel_eq:
  assumes "index_ok p"
  shows "poller_updateChannel k il ptr p =
    (if \<not> il then Inl Aborted
     else if chan_index (chans p ptr) = kNew \<and> channels p (chan_fd (chans p ptr)) \<noteq> None then Inl AssertFailed
     else let c = chans p ptr; cmd = EpollCtl (update_op c) (chan_fd c) (chan_events c) in
       if k (ctl_log p) cmd < 0 \<and> update_op c \<noteq> CTL_DEL then Inl Aborted
       else Inr (after_update ptr p))"
proof -
  let ?c = "chans p ptr"
  from assms have idx: "chan_index ?c \<in> {kNew, kAdded, kDeleted}"
    and reg: "chan_index ?c \<noteq> kNew \<Longrightarrow> channels p (chan_fd ?c) = Some ptr"
    by (auto simp: index_ok_def)
  show ?thesis
  proof (cases "chan_index ?c = kNew")
    case True
    then show ?thesis
      by (auto simp: poller_updateChannel_def poller_update_def after_update_def update_op_def Let_def
          set_index_def set_chan_def)
  next
    case False
    note reg = reg[OF False]
    show ?thesis
    proof (cases "chan_index ?c = kDeleted")
      case True
      with reg show ?thesis
        by (auto simp: poller_updateChannel_def poller_update_def after_update_def update_op_def Let_def
            set_index_def set_chan_def fun_upd_idem)
    next
      case False
      with idx \<open>chan_index ?c \<noteq> kNew\<close> have added: "chan_index ?c = kAdded" by auto
      with reg show ?thesis
        by (auto simp: poller_updateChannel_def poller_update_def after_update_def update_op_def Let_def
            set_index_def set_chan_def fun_upd_idem channel_same_index)
    qed
  qed
qed

lemma after_update_inv:
  assumes "poller_inv p" and "channels p (chan_fd (chans p ptr)) \<in> {None, Some ptr}"
  shows "poller_inv (after_update ptr (touch ptr ev p))"
    and "legal (ctl_log (after_update ptr (touch ptr ev p)))"
proof -
  let ?c = "chans p ptr" and ?p' = "after_update ptr (touch ptr ev p)"
  from assms(1) have idx: "index_ok p" and leg: "legal (ctl_log p)"
    and wat: "interest (ctl_log p) = watched p" by (simp_all add: poller_inv_def)
  have reg: "channels p fd = Some q \<longleftrightarrow> chan_fd (chans p q) = fd \<and> chan_index (chans p q) \<noteq> kNew" for fd q
    using idx by (simp add: index_ok_def)
  have cs: "chan_index ?c = kNew \<or> chan_index ?c = kAdded \<or> chan_index ?c = kDeleted"
    using idx by (auto simp: index_ok_def)
  have "index_ok ?p'"
    unfolding index_ok_def
  proof (intro conjI allI)
    fix q
    show "chan_index (chans ?p' q) \<in> {kNew, kAdded, kDeleted}"
      using idx by (auto simp: after_update_def Let_def index_ok_def)
  next
    fix fd q
    show "channels ?p' fd = Some q \<longleftrightarrow> chan_fd (chans ?p' q) = fd \<and> chan_index (chans ?p' q) \<noteq> kNew"
      using assms(2) reg[of fd q] reg[of "chan_fd ?c" q] by (auto simp: after_update_def Let_def)
  qed
  moreover have "watched p (chan_fd ?c) = (if chan_index ?c = kAdded then Some (chan_events ?c) else None)"
    using assms(2) reg[of "chan_fd ?c" ptr] by (auto simp: watched_def)
  with leg wat show leg': "legal (ctl_log ?p')"
    by (auto simp: after_update_def Let_def update_op_def split: if_splits)
  moreover have "interest (ctl_log ?p') = watched ?p'"
  proof
    fix fd
    show "interest (ctl_log ?p') fd = watched ?p' fd"
    proof (cases "fd = chan_fd ?c")
      case True
      then show ?thesis using cs by (auto simp: after_update_def Let_def update_op_def watched_def)
    next
      case False
      then have "channels p fd \<noteq> Some ptr" using reg[of fd ptr] by simp
      then have "watched ?p' fd = watched p fd"
        using False by (auto simp: after_update_def Let_def watched_def split: option.split)
      with False show ?thesis
        by (simp add: after_update_def Let_def wat) (cases "update_op ((chans p ptr)\<lparr>chan_events := ev, addedToLoop := True\<rparr>)"; simp add: wat)
    qed
  qed
  ultimately show "poller_inv ?p'" by (simp add: poller_inv_def)
qed

lemma index_ok_touch: "index_ok (touch ptr ev p) \<longleftrightarrow> index_ok p"
  unfolding index_ok_def by auto

text \<open>The call a Channel makes after changing its events.\<close>

lemma updateChannel_inv:
  assumes "poller_inv p" and "poller_updateChannel k il ptr (touch ptr ev p) = Inr p'"
  shows "poller_inv p'"
proof -
  have idx: "index_ok p" using assms(1) by (simp add: poller_inv_def)
  then have free: "channels p (chan_fd (chans p ptr)) \<in> {None, Some ptr}"
    using assms(2) by (auto simp: updateChannel_eq index_ok_touch index_ok_def split: if_splits)
  have "p' = after_update ptr (touch ptr ev p)"
    using assms(2) idx by (auto simp: updateChannel_eq index_ok_touch Let_def split: if_splits)
  with after_update_inv[OF assms(1) free] show ?thesis by simp
qed

lemma updateChannel_total:
  assumes "poller_inv p" and "accepts_legal k"
    and "channels p (chan_fd (chans p ptr)) \<in> {None, Some ptr}"
  shows "poller_updateChannel k True ptr (touch ptr ev p) = Inr (after_update ptr (touch ptr ev p))"
proof -
  let ?q = "touch ptr ev p"
  have idx: "index_ok p" using assms(1) by (simp add: poller_inv_def)
  have new: "chan_index (chans p ptr) = kNew \<Longrightarrow> channels p (chan_fd (chans p ptr)) = None"
    using idx assms(3) by (auto simp: index_ok_def)
  have "legal (ctl_log (after_update ptr ?q))" using after_update_inv(2)[OF assms(1,3)] .
  with assms(2) have "0 \<le> k (ctl_log p) (EpollCtl (update_op (chans ?q ptr)) (chan_fd (chans ?q ptr)) (chan_events (chans ?q ptr)))"
    unfolding accepts_legal_def after_update_def Let_def by simp
  then show ?thesis
    using idx new by (simp add: updateChannel_eq index_ok_touch Let_def)
qed

definition after_remove :: "nat \<Rightarrow> 'z poller_scheme \<Rightarrow> 'z poller_scheme" where
  "after_remove ptr p =
     (let c = chans p ptr in
      set_index kNew ptr
        (p\<lparr>channels := (channels p)(chan_fd c := None),
           ctl_log := (if chan_index c = kAdded
             then ctl_log p @ [EpollCtl CTL_DEL (chan_fd c) (chan_events c)] else ctl_log p)\<rparr>))"

lemma removeChannel_eq: "poller_removeChannel k ptr p = Inr (after_remove ptr p)"
  by (simp add: poller_removeChannel_def after_remove_def Let_def poller_update_def)

lemma after_remove_inv:
  assumes "poller_inv p" and "channels p (chan_fd (chans p ptr)) \<in> {None, Some ptr}"
  shows "poller_inv (after_remove ptr p)"
proof -
  let ?c = "chans p ptr"
  let ?log = "if chan_index ?c = kAdded
      then ctl_log p @ [EpollCtl CTL_DEL (chan_fd ?c) (chan_events ?c)] else ctl_log p"
  let ?p' = "set_index kNew ptr (p\<lparr>channels := (channels p)(chan_fd ?c := None), ctl_log := ?log\<rparr>)"
  from assms(1) have idx: "index_ok p" and leg: "legal (ctl_log p)"
    and wat: "interest (ctl_log p) = watched p" by (simp_all add: poller_inv_def)
  have reg: "channels p fd = Some q \<longleftrightarrow> chan_fd (chans p q) = fd \<and> chan_index (chans p q) \<noteq> kNew" for fd q
    using idx by (simp add: index_ok_def)
  have idx': "index_ok ?p'"
    unfolding index_ok_def
  proof (intro conjI allI)
    fix q show "chan_index (chans ?p' q) \<in> {kNew, kAdded, kDeleted}"
      using idx by (auto simp: index_ok_def)
  next
    fix fd q
    show "channels ?p' fd = Some q \<longleftrightarrow> chan_fd (chans ?p' q) = fd \<and> chan_index (chans ?p' q) \<noteq> kNew"
      using assms(2) reg[of fd q] reg[of "chan_fd ?c" q] by auto
  qed
  have w: "watched p (chan_fd ?c) = (if chan_index ?c = kAdded then Some (chan_events ?c) else None)"
    using assms(2) reg[of "chan_fd ?c" ptr] by (auto simp: watched_def)
  have "legal ?log" using leg w by (simp add: wat)
  moreover have "interest ?log = watched ?p'"
  proof
    fix fd
    show "interest ?log fd = watched ?p' fd"
    proof (cases "fd = chan_fd ?c")
      case True
      with w show ?thesis by (auto simp: wat watched_def)
    next
      case False
      then have "channels p fd \<noteq> Some ptr" using reg[of fd ptr] by simp
      with False show ?thesis by (auto simp: wat watched_def split: option.split)
    qed
  qed
  ultimately have "poller_inv ?p'" using idx' by (simp add: poller_inv_def)
  then show ?thesis by (simp add: after_remove_def Let_def)
qed

lemma set_revents_simps [simp]:
  "chans (set_revents r ptr p) = (chans p)(ptr := (chans p ptr)\<lparr>chan_revents := r\<rparr>)"
  "channels (set_revents r ptr p) = channels p"
  "ctl_log (set_revents r ptr p) = ctl_log p"
  "event_list_size (set_revents r ptr p) = event_list_size p"
  by (simp_all add: set_revents_def)

lemma set_added_inv:
  "poller_inv (set_chan ptr ((chans p ptr)\<lparr>addedToLoop := b\<rparr>) p) \<longleftrightarrow> poller_inv p"
proof -
  let ?q = "set_chan ptr ((chans p ptr)\<lparr>addedToLoop := b\<rparr>) p"
  have "index_ok ?q \<longleftrightarrow> index_ok p" unfolding index_ok_def by auto
  moreover have "watched ?q = watched p"
    by (rule ext) (auto simp: watched_def split: option.split)
  ultimately show ?thesis by (simp add: poller_inv_def)
qed

lemma set_revents_inv: "poller_inv (set_revents r ptr p) \<longleftrightarrow> poller_inv p"
proof -
  have "index_ok (set_revents r ptr p) \<longleftrightarrow> index_ok p" unfolding index_ok_def by auto
  moreover have "watched (set_revents r ptr p) = watched p"
    by (rule ext) (auto simp: watched_def split: option.split)
  ultimately show ?thesis by (simp add: poller_inv_def)
qed

lemma fillActiveChannels_frame:
  "channels (snd (fillActiveChannels es p)) = channels p \<and>
   ctl_log (snd (fillActiveChannels es p)) = ctl_log p \<and>
   event_list_size (snd (fillActiveChannels es p)) = event_list_size p \<and>
   (poller_inv (snd (fillActiveChannels es p)) \<longleftrightarrow> poller_inv p)"
  by (induction es p rule: fillActiveChannels.induct)
    (auto simp: Let_def case_prod_unfold set_revents_inv split: option.split)

lemma fillActiveChannels_active:
  "fst (fillActiveChannels es p) = List.map_filter (\<lambda>(ev, fd). channels p fd) es"
  by (induction es p rule: fillActiveChannels.induct)
    (auto simp: Let_def case_prod_unfold List.map_filter_simps split: option.split)

lemma fillActiveChannels_untouched:
  "ptr \<notin> set (fst (fillActiveChannels es p)) \<Longrightarrow> chans (snd (fillActiveChannels es p)) ptr = chans p ptr"
  by (induction es p rule: fillActiveChannels.induct)
    (auto simp: Let_def case_prod_unfold split: option.splits)

text \<open>With one event per descriptor, every active channel gets the events of its own descriptor.\<close>

lemma fillActiveChannels_revents:
  assumes "index_ok p" and "distinct (map snd es)" and "(ev, fd) \<in> set es" and "channels p fd = Some ptr"
  shows "chan_revents (chans (snd (fillActiveChannels es p)) ptr) = ev"
  using assms
proof (induction es p rule: fillActiveChannels.induct)
  case (2 ev' fd' es p)
  show ?case
  proof (cases "channels p fd'")
    case None
    with 2 show ?thesis by auto
  next
    case (Some ptr')
    let ?q = "set_revents ev' ptr' p"
    have idx: "index_ok ?q" using 2(3) unfolding index_ok_def by auto
    show ?thesis
    proof (cases "(ev, fd) \<in> set es")
      case True
      with 2 Some idx show ?thesis by (auto simp: Let_def case_prod_unfold)
    next
      case False
      with 2(5) have eq: "ev' = ev" "fd' = fd" by auto
      have "ptr \<notin> set (fst (fillActiveChannels es ?q))"
      proof
        assume "ptr \<in> set (fst (fillActiveChannels es ?q))"
        then obtain e f where "(e, f) \<in> set es" "channels p f = Some ptr"
          by (auto simp: fillActiveChannels_active map_filter_def)
        moreover have "f = fd"
          using 2(3,6) \<open>channels p f = Some ptr\<close> unfolding index_ok_def by metis
        ultimately show False using 2(4) eq by force
      qed
      from fillActiveChannels_untouched[OF this] Some 2(6) eq show ?thesis
        by (simp add: Let_def case_prod_unfold)
    qed
  qed
qed simp

lemma poller_inv_cong:
  assumes "chans p = chans q" and "channels p = channels q" and "ctl_log p = ctl_log q"
  shows "poller_inv p \<longleftrightarrow> poller_inv q"
proof -
  have "index_ok p \<longleftrightarrow> index_ok q" by (simp add: index_ok_def assms)
  moreover have "watched p = watched q" by (rule ext) (simp add: watched_def assms split: option.split)
  ultimately show ?thesis by (simp add: poller_inv_def assms)
qed

lemma poller_inv_grow: "poller_inv (p\<lparr>event_list_size := n\<rparr>) \<longleftrightarrow> poller_inv p"
  unfolding poller_inv_def index_ok_def watched_def fun_eq_iff by (simp cong: option.case_cong if_cong)

lemma fillActiveChannels_ran: "set (fst (fillActiveChannels es p)) \<subseteq> ran (channels p)"
  by (auto simp: fillActiveChannels_active map_filter_def intro: ranI)

lemma poller_poll_facts:
  assumes "poller_poll ep p = Inr (active, p')"
  shows "poller_inv p' \<longleftrightarrow> poller_inv p" "channels p' = channels p" "ctl_log p' = ctl_log p"
    "set active \<subseteq> ran (channels p)"
proof -
  have "(poller_inv p' \<longleftrightarrow> poller_inv p) \<and> channels p' = channels p \<and> ctl_log p' = ctl_log p \<and>
    set active \<subseteq> ran (channels p)"
  proof (cases ep)
    case (Inr es)
    let ?f = "fillActiveChannels es p"
    from assms Inr have "active = [] \<and> p' = p \<or> active = fst ?f \<and>
        (p' = snd ?f \<or> p' = (snd ?f)\<lparr>event_list_size := event_list_size (snd ?f) * 2\<rparr>)"
      by (auto simp: poller_poll_def Let_def case_prod_unfold bindR_eq_Inr split: if_splits)
    with fillActiveChannels_frame[of es p] fillActiveChannels_ran[of es p] show ?thesis
      by (elim disjE conjE) (simp_all add: poller_inv_grow)
  qed (use assms in \<open>simp add: poller_poll_def\<close>)
  then show "poller_inv p' \<longleftrightarrow> poller_inv p" "channels p' = channels p" "ctl_log p' = ctl_log p"
    "set active \<subseteq> ran (channels p)" by auto
qed

text \<open>The calls leave everything but the poller alone.\<close>

lemma set_chan_more [simp]:
  "poller.more (set_chan ptr c p) = poller.more p" "poller.more (set_index i ptr p) = poller.more p"
  "poller.more (set_revents r ptr p) = poller.more p"
  by (simp_all add: set_index_def set_revents_def set_chan_def)

lemma updateChannel_more:
  "poller_updateChannel k il ptr p = Inr p' \<Longrightarrow> poller.more p' = poller.more p"
  by (auto simp: poller_updateChannel_def bindR_eq_Inr poller_update_Inr Let_def split: if_splits)

lemma removeChannel_more:
  "poller_removeChannel k ptr p = Inr p' \<Longrightarrow> poller.more p' = poller.more p"
  by (auto simp: removeChannel_eq after_remove_def Let_def)

lemma fillActiveChannels_more: "poller.more (snd (fillActiveChannels es p)) = poller.more p"
  by (induction es p rule: fillActiveChannels.induct)
    (auto simp: Let_def case_prod_unfold split: option.split)

section \<open>Properties\<close>

text \<open>C32: \<open>poll\<close> dispatches every reported event to its own channel. When \<open>epoll_wait\<close> reports events
  for distinct descriptors, at most as many as the event list holds, \<open>poll\<close> does not fault; the
  active channels are the registered channels of these descriptors, in order; each active channel
  has received the events of its own descriptor and every other channel is as before; and the
  event list doubles exactly when it was filled. An error or a timeout changes nothing.\<close>

theorem poll_dispatches:
  assumes "poller_inv p" and "distinct (List.map snd es)" and "length es \<le> event_list_size p"
    and "0 < event_list_size p"
  shows "(\<exists>active p'. poller_poll (Inr es) p = Inr (active, p') \<and>
      active = List.map_filter (\<lambda>(ev, fd). channels p fd) es \<and>
      (\<forall>ev fd ptr. (ev, fd) \<in> set es \<and> channels p fd = Some ptr \<longrightarrow> chan_revents (chans p' ptr) = ev) \<and>
      (\<forall>ptr. ptr \<notin> set active \<longrightarrow> chans p' ptr = chans p ptr) \<and>
      event_list_size p' = (if length es = event_list_size p then 2 else 1) * event_list_size p \<and>
      poller_inv p') \<and>
      poller_poll (Inl saveErrno) p = Inr ([], p)"
proof -
  let ?f = "fillActiveChannels es p"
  let ?p' = "if length es = event_list_size p
    then (snd ?f)\<lparr>event_list_size := event_list_size (snd ?f) * 2\<rparr> else snd ?f"
  have "index_ok p" using assms(1) by (simp add: poller_inv_def)
  note rev = fillActiveChannels_revents[OF this assms(2)]
  have eq: "poller_poll (Inr es) p = Inr (fst ?f, ?p')"
    using assms(3,4) fillActiveChannels_frame[of es p]
    by (cases "es = []") (auto simp: poller_poll_def Let_def case_prod_unfold)
  have chans: "chans ?p' = chans (snd ?f)" by simp
  have "poller_inv ?p'" using assms(1) fillActiveChannels_frame[of es p] by (simp add: poller_inv_grow)
  moreover have "event_list_size ?p' = (if length es = event_list_size p then 2 else 1) * event_list_size p"
    using fillActiveChannels_frame[of es p] by simp
  moreover have "\<forall>ev fd ptr. (ev, fd) \<in> set es \<and> channels p fd = Some ptr \<longrightarrow> chan_revents (chans ?p' ptr) = ev"
    unfolding chans using rev by blast
  moreover have "\<forall>ptr. ptr \<notin> set (fst ?f) \<longrightarrow> chans ?p' ptr = chans p ptr"
    unfolding chans using fillActiveChannels_untouched by blast
  ultimately have "\<exists>active p'. poller_poll (Inr es) p = Inr (active, p') \<and>
      active = List.map_filter (\<lambda>(ev, fd). channels p fd) es \<and>
      (\<forall>ev fd ptr. (ev, fd) \<in> set es \<and> channels p fd = Some ptr \<longrightarrow> chan_revents (chans p' ptr) = ev) \<and>
      (\<forall>ptr. ptr \<notin> set active \<longrightarrow> chans p' ptr = chans p ptr) \<and>
      event_list_size p' = (if length es = event_list_size p then 2 else 1) * event_list_size p \<and>
      poller_inv p'"
    by (intro exI[of _ "fst ?f"] exI[of _ ?p'] conjI) (use eq fillActiveChannels_active in auto)
  then show ?thesis by (simp add: poller_poll_def)
qed

definition demo_poller :: poller where
  "demo_poller = \<lparr>chans = (\<lambda>ptr. (new_channel 0 (int ptr))\<lparr>chan_index := if ptr = 5 then kAdded else kNew,
       chan_events := if ptr = 5 then kReadEvent else 0\<rparr>),
     channels = [5 \<mapsto> 5], ctl_log = [EpollCtl CTL_ADD 5 kReadEvent], event_list_size = 1\<rparr>"

lemma demo_poller_inv: "poller_inv demo_poller"
  unfolding poller_inv_def index_ok_def
  by (auto simp: demo_poller_def new_channel_def legal_def interest_def watched_def fun_eq_iff)

theorem poll_dispatches_witness:
  "\<exists>active p'. poller_poll (Inr [(EPOLLIN, 5)]) demo_poller = Inr (active, p') \<and> active = [5] \<and>
     chan_revents (chans p' 5) = EPOLLIN \<and> event_list_size p' = 2"
proof -
  have "distinct (List.map snd [(EPOLLIN, 5::int)])" "length [(EPOLLIN, 5::int)] \<le> event_list_size demo_poller"
    "0 < event_list_size demo_poller" by (simp_all add: demo_poller_def)
  from poll_dispatches[OF demo_poller_inv this] show ?thesis
    by (auto simp: demo_poller_def List.map_filter_simps)
qed

text \<open>\<open>Channel::eventsToString\<close> does not print the events the channel asked for: whatever
  \<open>events_\<close> holds, it prints the returned events \<open>revents_\<close>, as \<open>reventsToString\<close> does. A fresh
  channel that asks for reading prints no event at all.\<close>

theorem eventsToString_ignores_events:
  "eventsToString (c\<lparr>chan_events := ev\<rparr>) = reventsToString c \<and>
   eventsToString ((new_channel loop fd)\<lparr>chan_events := kReadEvent\<rparr>) = show_int fd @ '': ''"
  by (simp_all add: eventsToString_def reventsToString_def new_channel_def eventsToString_of_def
      has_bits_def)

text \<open>The dispatch of \<open>handleEvent\<close>. A channel whose tied owner has been destroyed runs no
  callback. Otherwise, for callbacks that end normally, the close callback runs exactly for a
  hang-up with nothing left to read, then the error callback for an error, then the read callback
  for readable or urgent data, with the receive time, and last the write callback.\<close>

theorem handleEvent_dispatch:
  fixes log :: "nat list"
  assumes "chan_tie c = Some obj"
    and "h = \<lparr>readCallback = Some (\<lambda>t l. Inr (l @ [3])), writeCallback = Some (\<lambda>l. Inr (l @ [4])),
              closeCallback = Some (\<lambda>l. Inr (l @ [1])), errorCallback = Some (\<lambda>l. Inr (l @ [2]))\<rparr>"
  shows "handleEvent alive h c t log =
    Inr (if alive obj then log @
        (if has_bits (chan_revents c) EPOLLHUP \<and> \<not> has_bits (chan_revents c) EPOLLIN then [1] else []) @
        (if has_bits (chan_revents c) EPOLLERR then [2] else []) @
        (if has_bits (chan_revents c) kReadEvent then [3] else []) @
        (if has_bits (chan_revents c) kWriteEvent then [4] else [])
      else log)"
  using assms by (simp add: handleEvent_def handleEventWithGuard_def call_if_set_def
      kReadEvent_def kWriteEvent_def)

theorem handleEvent_dispatch_witness:
  "handleEvent (\<lambda>obj. obj = 7) \<lparr>readCallback = Some (\<lambda>t l. Inr (l @ [3::nat])),
      writeCallback = Some (\<lambda>l. Inr (l @ [4])), closeCallback = Some (\<lambda>l. Inr (l @ [1])),
      errorCallback = Some (\<lambda>l. Inr (l @ [2]))\<rparr>
     ((new_channel 0 5)\<lparr>chan_tie := Some 7, chan_revents := EPOLLIN OR EPOLLHUP OR EPOLLOUT\<rparr>)
     (timestamp_now 0) [] = Inr [3, 4]"
proof -
  have "chan_tie ((new_channel 0 5)\<lparr>chan_tie := Some 7, chan_revents := EPOLLIN OR EPOLLHUP OR EPOLLOUT\<rparr>) = Some 7"
    by simp
  from handleEvent_dispatch[OF this refl, of "\<lambda>obj. obj = 7"] show ?thesis
    by (simp add: event_bits has_bits_def)
qed

end
