(* ===== verification/Event_Loop.thy ===== *)
theory Event_Loop
  imports Channel_Poller
begin

text \<open>
  \<open>EventLoop\<close> (mymuduo/include/mymuduo/EventLoop.h, mymuduo/src/EventLoop.cc, DefaultPoller.cc).
  A loop is its poller with the flags, the queue of functors and the counter of its eventfd; it is
  a record extension of the poller. A functor is a value of a type \<open>'f\<close> which \<open>exec\<close> runs on the
  state. The thread that makes a call is an argument of the calls that ask for it. The second half
  of the theory interleaves the threads that post functors with the loop.
\<close>

section \<open>State\<close>

record 'f event_loop = poller +
  loop_id :: nat
  looping :: bool
  quit_flag :: bool
  threadId :: nat
  timerQueue_ptr :: "nat option"
  wakeupFd :: int
  eventfd_count :: nat
  callingPendingFunctors :: bool
  pendingFunctors :: "'f list"

text \<open>The address of the wakeup channel in the store of channels.\<close>

definition wakeup_ptr :: nat where
  "wakeup_ptr = 0"

definition isInLoopThread :: "nat \<Rightarrow> ('f, 'z) event_loop_scheme \<Rightarrow> bool" where
  "isInLoopThread tid l \<longleftrightarrow> threadId l = tid"

definition abortNotInLoopThread :: "unit outcome" where
  "abortNotInLoopThread = Inl Aborted"

definition assertInLoopThread :: "nat \<Rightarrow> ('f, 'z) event_loop_scheme \<Rightarrow> unit outcome" where
  "assertInLoopThread tid l = (if \<not> isInLoopThread tid l then abortNotInLoopThread else Inr ())"

declare abortNotInLoopThread_def [simp]

section \<open>Channels of the loop\<close>

definition loop_updateChannel ::
  "kctl \<Rightarrow> nat \<Rightarrow> nat \<Rightarrow> ('f, 'z) event_loop_scheme \<Rightarrow> ('f, 'z) event_loop_scheme outcome" where
  "loop_updateChannel k tid ptr l =
     bindR (require AssertFailed (chan_loop (chans l ptr) = loop_id l)) (\<lambda>_.
     bindR (assertInLoopThread tid l) (\<lambda>_.
     poller_updateChannel k (isInLoopThread tid l) ptr l))"

definition loop_removeChannel ::
  "kctl \<Rightarrow> nat \<Rightarrow> ('f, 'z) event_loop_scheme \<Rightarrow> ('f, 'z) event_loop_scheme outcome" where
  "loop_removeChannel k ptr l = poller_removeChannel k ptr l"

definition loop_hasChannel :: "nat \<Rightarrow> ('f, 'z) event_loop_scheme \<Rightarrow> bool" where
  "loop_hasChannel ptr l = hasChannel ptr l"

text \<open>\<open>Channel::update\<close> after the events have been set, and the five members that end in it.\<close>

definition channel_update ::
  "kctl \<Rightarrow> nat \<Rightarrow> nat \<Rightarrow> ('f, 'z) event_loop_scheme \<Rightarrow> ('f, 'z) event_loop_scheme outcome" where
  "channel_update k tid ptr l =
     loop_updateChannel k tid ptr (set_chan ptr ((chans l ptr)\<lparr>addedToLoop := True\<rparr>) l)"

definition set_events :: "32 word \<Rightarrow> nat \<Rightarrow> 'z poller_scheme \<Rightarrow> 'z poller_scheme" where
  "set_events ev ptr p = set_chan ptr ((chans p ptr)\<lparr>chan_events := ev\<rparr>) p"

definition enableReading ::
  "kctl \<Rightarrow> nat \<Rightarrow> nat \<Rightarrow> ('f, 'z) event_loop_scheme \<Rightarrow> ('f, 'z) event_loop_scheme outcome" where
  "enableReading k tid ptr l =
     channel_update k tid ptr (set_events (chan_events (chans l ptr) OR kReadEvent) ptr l)"

definition disableReading ::
  "kctl \<Rightarrow> nat \<Rightarrow> nat \<Rightarrow> ('f, 'z) event_loop_scheme \<Rightarrow> ('f, 'z) event_loop_scheme outcome" where
  "disableReading k tid ptr l =
     channel_update k tid ptr (set_events (chan_events (chans l ptr) AND NOT kReadEvent) ptr l)"

definition enableWriting ::
  "kctl \<Rightarrow> nat \<Rightarrow> nat \<Rightarrow> ('f, 'z) event_loop_scheme \<Rightarrow> ('f, 'z) event_loop_scheme outcome" where
  "enableWriting k tid ptr l =
     channel_update k tid ptr (set_events (chan_events (chans l ptr) OR kWriteEvent) ptr l)"

definition disableWriting ::
  "kctl \<Rightarrow> nat \<Rightarrow> nat \<Rightarrow> ('f, 'z) event_loop_scheme \<Rightarrow> ('f, 'z) event_loop_scheme outcome" where
  "disableWriting k tid ptr l =
     channel_update k tid ptr (set_events (chan_events (chans l ptr) AND NOT kWriteEvent) ptr l)"

definition disableAll ::
  "kctl \<Rightarrow> nat \<Rightarrow> nat \<Rightarrow> ('f, 'z) event_loop_scheme \<Rightarrow> ('f, 'z) event_loop_scheme outcome" where
  "disableAll k tid ptr l =
     channel_update k tid ptr (set_events (chan_events (chans l ptr) AND kNoneEvent) ptr l)"

definition channel_remove ::
  "kctl \<Rightarrow> nat \<Rightarrow> ('f, 'z) event_loop_scheme \<Rightarrow> ('f, 'z) event_loop_scheme outcome" where
  "channel_remove k ptr l =
     bindR (require AssertFailed (isNoneEvent (chans l ptr))) (\<lambda>_.
     loop_removeChannel k ptr (set_chan ptr ((chans l ptr)\<lparr>addedToLoop := False\<rparr>) l))"

definition channel_tie :: "nat \<Rightarrow> nat \<Rightarrow> 'z poller_scheme \<Rightarrow> 'z poller_scheme" where
  "channel_tie obj ptr p = set_chan ptr ((chans p ptr)\<lparr>chan_tie := Some obj\<rparr>) p"

section \<open>Waking the loop, and its functors\<close>

text \<open>
  eventfd(2): a write adds to the counter, and fails when the sum would exceed 2^64 - 2; a read
  returns the counter and resets it, and fails when it is 0. Failures are only logged.
\<close>

definition eventfd_max :: nat where
  "eventfd_max = 2 ^ 64 - 2"

definition wakeup :: "('f, 'z) event_loop_scheme \<Rightarrow> ('f, 'z) event_loop_scheme" where
  "wakeup l =
     (let one = 1 in
      if eventfd_count l + one \<le> eventfd_max
      then l\<lparr>eventfd_count := eventfd_count l + one\<rparr> else l)"

definition loop_handleRead :: "('f, 'z) event_loop_scheme \<Rightarrow> ('f, 'z) event_loop_scheme" where
  "loop_handleRead l = (if eventfd_count l = 0 then l else l\<lparr>eventfd_count := 0\<rparr>)"

text \<open>\<open>queueInLoop\<close> in its two parts: under the mutex, and after it.\<close>

definition queue_push :: "'f \<Rightarrow> ('f, 'z) event_loop_scheme \<Rightarrow> ('f, 'z) event_loop_scheme" where
  "queue_push cb l = l\<lparr>pendingFunctors := pendingFunctors l @ [cb]\<rparr>"

definition queue_wake :: "nat \<Rightarrow> ('f, 'z) event_loop_scheme \<Rightarrow> ('f, 'z) event_loop_scheme" where
  "queue_wake tid l =
     (if \<not> isInLoopThread tid l \<or> callingPendingFunctors l then wakeup l else l)"

definition queueInLoop :: "nat \<Rightarrow> 'f \<Rightarrow> ('f, 'z) event_loop_scheme \<Rightarrow> ('f, 'z) event_loop_scheme" where
  "queueInLoop tid cb l = queue_wake tid (queue_push cb l)"

text \<open>
  Functors and callbacks act on a state that holds this loop among other objects: \<open>get\<close> reads the
  loop out of the state and \<open>put\<close> writes it back.
\<close>

definition runInLoop ::
  "('s \<Rightarrow> ('f, 'z) event_loop_scheme) \<Rightarrow> (('f, 'z) event_loop_scheme \<Rightarrow> 's \<Rightarrow> 's) \<Rightarrow> ('f \<Rightarrow> 's \<Rightarrow> 's outcome) \<Rightarrow>
   nat \<Rightarrow> 'f \<Rightarrow> 's \<Rightarrow> 's outcome" where
  "runInLoop get put exec tid cb s =
     (if isInLoopThread tid (get s) then exec cb s else Inr (put (queueInLoop tid cb (get s)) s))"

text \<open>\<open>quit\<close>, also in its two parts.\<close>

definition quit_set :: "('f, 'z) event_loop_scheme \<Rightarrow> ('f, 'z) event_loop_scheme" where
  "quit_set l = l\<lparr>quit_flag := True\<rparr>"

definition quit_wake :: "nat \<Rightarrow> ('f, 'z) event_loop_scheme \<Rightarrow> ('f, 'z) event_loop_scheme" where
  "quit_wake tid l = (if \<not> isInLoopThread tid l then wakeup l else l)"

definition loop_quit :: "nat \<Rightarrow> ('f, 'z) event_loop_scheme \<Rightarrow> ('f, 'z) event_loop_scheme" where
  "loop_quit tid l = quit_wake tid (quit_set l)"

text \<open>\<open>doPendingFunctors\<close>: the flag, the swap under the mutex, the calls, the flag.\<close>

definition set_calling :: "bool \<Rightarrow> ('f, 'z) event_loop_scheme \<Rightarrow> ('f, 'z) event_loop_scheme" where
  "set_calling b l = l\<lparr>callingPendingFunctors := b\<rparr>"

definition swap_pending :: "('f, 'z) event_loop_scheme \<Rightarrow> 'f list \<times> ('f, 'z) event_loop_scheme" where
  "swap_pending l = (pendingFunctors l, l\<lparr>pendingFunctors := []\<rparr>)"

definition doPendingFunctors ::
  "('s \<Rightarrow> ('f, 'z) event_loop_scheme) \<Rightarrow> (('f, 'z) event_loop_scheme \<Rightarrow> 's \<Rightarrow> 's) \<Rightarrow> ('f \<Rightarrow> 's \<Rightarrow> 's outcome) \<Rightarrow>
   's \<Rightarrow> 's outcome" where
  "doPendingFunctors get put exec s =
     (let (functors, l) = swap_pending (set_calling True (get s))
      in bindR (foldR exec functors (put l s)) (\<lambda>s. Inr (put (set_calling False (get s)) s)))"

section \<open>The loop\<close>

text \<open>
  One pass of \<open>while (!quit_)\<close>: what \<open>epoll_wait\<close> answered and the time of its return are
  arguments; \<open>handle ptr\<close> are the callbacks of the channel at \<open>ptr\<close>, and \<open>alive s obj\<close> tells
  whether the owner \<open>obj\<close> that a channel is tied to still exists.
\<close>

definition dispatch ::
  "('s \<Rightarrow> ('f, 'z) event_loop_scheme) \<Rightarrow> ('s \<Rightarrow> nat \<Rightarrow> bool) \<Rightarrow> (nat \<Rightarrow> 's handlers) \<Rightarrow> timestamp \<Rightarrow>
   nat \<Rightarrow> 's \<Rightarrow> 's outcome" where
  "dispatch get alive handle now ptr s =
     handleEvent (alive s) (handle ptr) (chans (get s) ptr) now s"

definition loop_iteration ::
  "('s \<Rightarrow> ('f, 'z) event_loop_scheme) \<Rightarrow> (('f, 'z) event_loop_scheme \<Rightarrow> 's \<Rightarrow> 's) \<Rightarrow> ('f \<Rightarrow> 's \<Rightarrow> 's outcome) \<Rightarrow>
   ('s \<Rightarrow> nat \<Rightarrow> bool) \<Rightarrow> (nat \<Rightarrow> 's handlers) \<Rightarrow>
   (int + (32 word \<times> int) list) \<Rightarrow> timestamp \<Rightarrow> 's \<Rightarrow> 's outcome" where
  "loop_iteration get put exec alive handle ep now s =
     bindR (poller_poll ep (get s)) (\<lambda>(activeChannels, l).
     bindR (foldR (dispatch get alive handle now) activeChannels (put l s)) (\<lambda>s.
     doPendingFunctors get put exec s))"

text \<open>\<open>loop()\<close> over the answers of \<open>epoll_wait\<close>; with no answer left it is still polling.\<close>

fun loop_while ::
  "('s \<Rightarrow> ('f, 'z) event_loop_scheme) \<Rightarrow> (('f, 'z) event_loop_scheme \<Rightarrow> 's \<Rightarrow> 's) \<Rightarrow> ('f \<Rightarrow> 's \<Rightarrow> 's outcome) \<Rightarrow>
   ('s \<Rightarrow> nat \<Rightarrow> bool) \<Rightarrow> (nat \<Rightarrow> 's handlers) \<Rightarrow>
   ((int + (32 word \<times> int) list) \<times> timestamp) list \<Rightarrow> 's \<Rightarrow> 's outcome" where
  "loop_while get put exec alive handle [] s =
     Inr (if quit_flag (get s) then put ((get s)\<lparr>looping := False\<rparr>) s else s)"
| "loop_while get put exec alive handle ((ep, now) # eps) s =
     (if quit_flag (get s) then Inr (put ((get s)\<lparr>looping := False\<rparr>) s)
      else bindR (loop_iteration get put exec alive handle ep now s)
             (loop_while get put exec alive handle eps))"

definition loop_run ::
  "('s \<Rightarrow> ('f, 'z) event_loop_scheme) \<Rightarrow> (('f, 'z) event_loop_scheme \<Rightarrow> 's \<Rightarrow> 's) \<Rightarrow> ('f \<Rightarrow> 's \<Rightarrow> 's outcome) \<Rightarrow>
   ('s \<Rightarrow> nat \<Rightarrow> bool) \<Rightarrow> (nat \<Rightarrow> 's handlers) \<Rightarrow>
   ((int + (32 word \<times> int) list) \<times> timestamp) list \<Rightarrow> 's \<Rightarrow> 's outcome" where
  "loop_run get put exec alive handle eps s =
     loop_while get put exec alive handle eps
       (put ((get s)\<lparr>looping := True, quit_flag := False\<rparr>) s)"

section \<open>Timers of the loop\<close>

text \<open>\<open>addTimer queue cb time interval\<close> is \<open>TimerQueue::addTimer\<close> of the queue at an address.\<close>

definition runAt ::
  "(nat \<Rightarrow> 'c \<Rightarrow> timestamp \<Rightarrow> seconds \<Rightarrow> ('f, 'z) event_loop_scheme \<Rightarrow> 'r outcome) \<Rightarrow>
   timestamp \<Rightarrow> 'c \<Rightarrow> ('f, 'z) event_loop_scheme \<Rightarrow> 'r outcome" where
  "runAt addTimer time cb l =
     (case timerQueue_ptr l of None \<Rightarrow> Inl NullDeref | Some q \<Rightarrow> addTimer q cb time (Seconds False 0) l)"

definition runAfter ::
  "(nat \<Rightarrow> 'c \<Rightarrow> timestamp \<Rightarrow> seconds \<Rightarrow> ('f, 'z) event_loop_scheme \<Rightarrow> 'r outcome) \<Rightarrow>
   timestamp \<Rightarrow> seconds \<Rightarrow> 'c \<Rightarrow> ('f, 'z) event_loop_scheme \<Rightarrow> 'r outcome" where
  "runAfter addTimer now delay cb l = runAt addTimer (addTime now delay) cb l"

definition runEvery ::
  "(nat \<Rightarrow> 'c \<Rightarrow> timestamp \<Rightarrow> seconds \<Rightarrow> ('f, 'z) event_loop_scheme \<Rightarrow> 'r outcome) \<Rightarrow>
   timestamp \<Rightarrow> seconds \<Rightarrow> 'c \<Rightarrow> ('f, 'z) event_loop_scheme \<Rightarrow> 'r outcome" where
  "runEvery addTimer now interval cb l =
     (case timerQueue_ptr l of
        None \<Rightarrow> Inl NullDeref
      | Some q \<Rightarrow> addTimer q cb (addTime now interval) interval l)"

section \<open>Construction and destruction\<close>

text \<open>
  \<open>MUDUO_USE_POLL\<close> in the environment makes \<open>newDefaultPoller\<close> return a null pointer, through
  which \<open>enableReading\<close> then goes. \<open>epollfd\<close> and \<open>evtfd\<close> are what \<open>epoll_create1\<close> and \<open>eventfd\<close>
  return; \<open>loop_in_thread\<close> tells whether the thread already has a loop.
\<close>

definition newDefaultPoller :: "bool \<Rightarrow> int \<Rightarrow> poller option outcome" where
  "newDefaultPoller use_poll epollfd =
     (if use_poll then Inr None else bindR (new_poller epollfd) (\<lambda>p. Inr (Some p)))"

definition createEventfd :: "int \<Rightarrow> int outcome" where
  "createEventfd evtfd = (if evtfd < 0 then Inl Aborted else Inr evtfd)"

definition new_event_loop ::
  "kctl \<Rightarrow> bool \<Rightarrow> int \<Rightarrow> int \<Rightarrow> bool \<Rightarrow> nat \<Rightarrow> nat \<Rightarrow> 'f event_loop outcome" where
  "new_event_loop k use_poll epollfd evtfd loop_in_thread this tid =
     bindR (newDefaultPoller use_poll epollfd) (\<lambda>poller.
     bindR (createEventfd evtfd) (\<lambda>wakeupfd.
     bindR (require Aborted (\<not> loop_in_thread)) (\<lambda>_.
     case poller of
       None \<Rightarrow> Inl NullDeref
     | Some p \<Rightarrow>
         enableReading k tid wakeup_ptr
           \<lparr>chans = (chans p)(wakeup_ptr := new_channel this wakeupfd), channels = channels p,
            ctl_log = ctl_log p, event_list_size = event_list_size p, loop_id = this,
            looping = False, quit_flag = False, threadId = tid, timerQueue_ptr = None,
            wakeupFd = wakeupfd, eventfd_count = 0, callingPendingFunctors = False,
            pendingFunctors = []\<rparr>)))"

definition delete_event_loop ::
  "kctl \<Rightarrow> nat \<Rightarrow> ('f, 'z) event_loop_scheme \<Rightarrow> ('f, 'z) event_loop_scheme outcome" where
  "delete_event_loop k tid l =
     bindR (disableAll k tid wakeup_ptr l) (\<lambda>l. channel_remove k wakeup_ptr l)"

section \<open>The loop inside a larger state\<close>

text \<open>
  What \<open>get\<close> and \<open>put\<close> promise, and the contract of a client of the loop: a property of the state that
  the loop's bookkeeping, every functor and every callback keep. Then a run of the loop keeps it.
\<close>

lemma same_flag: "quit_flag l \<Longrightarrow> l\<lparr>looping := b, quit_flag := True\<rparr> = l\<lparr>looping := b\<rparr>"
  by (cases l) simp

lemma same_pending: "pendingFunctors l = fs \<Longrightarrow> l\<lparr>pendingFunctors := fs\<rparr> = l"
  by (cases l) simp

locale loop_in =
  fixes get :: "'s \<Rightarrow> ('f, 'z) event_loop_scheme"
    and put :: "('f, 'z) event_loop_scheme \<Rightarrow> 's \<Rightarrow> 's"
  assumes get_put: "get (put l s) = l"
    and put_get: "put (get s) s = s"
    and put_put: "put l' (put l s) = put l' s"
begin

lemma runInLoop_in: "isInLoopThread tid (get s) \<Longrightarrow> runInLoop get put exec tid cb s = exec cb s"
  by (simp add: runInLoop_def)

lemma runInLoop_out:
  "\<not> isInLoopThread tid (get s) \<Longrightarrow> runInLoop get put exec tid cb s = Inr (put (queueInLoop tid cb (get s)) s)"
  by (simp add: runInLoop_def)

lemma doPendingFunctors_empty:
  "pendingFunctors (get s) = [] \<Longrightarrow>
     doPendingFunctors get put exec s = Inr (put (set_calling False (get s)) s)"
  by (simp add: doPendingFunctors_def swap_pending_def set_calling_def get_put put_put same_pending)

end

locale loop_client = loop_in get put
  for get :: "'s \<Rightarrow> ('f, 'z) event_loop_scheme" and put +
  fixes exec :: "'f \<Rightarrow> 's \<Rightarrow> 's outcome"
    and alive :: "'s \<Rightarrow> nat \<Rightarrow> bool"
    and handle :: "nat \<Rightarrow> 's handlers"
    and inv :: "'s \<Rightarrow> bool"
  assumes inv_poll: "inv s \<Longrightarrow> poller_poll ep (get s) = Inr (active, l) \<Longrightarrow> inv (put l s)"
    and inv_queue: "inv s \<Longrightarrow> inv (put ((get s)\<lparr>callingPendingFunctors := b, pendingFunctors := fs\<rparr>) s)"
    and inv_flags: "inv s \<Longrightarrow> inv (put ((get s)\<lparr>looping := b, quit_flag := q\<rparr>) s)"
    and inv_exec: "inv s \<Longrightarrow> exec f s = Inr s' \<Longrightarrow> inv s'"
    and inv_handle: "inv s \<Longrightarrow> handleEvent (alive s) (handle ptr) c now s = Inr s' \<Longrightarrow> inv s'"
begin

lemma doPendingFunctors_inv: "inv s \<Longrightarrow> doPendingFunctors get put exec s = Inr s' \<Longrightarrow> inv s'"
proof -
  assume a: "inv s" "doPendingFunctors get put exec s = Inr s'"
  let ?s1 = "put ((get s)\<lparr>callingPendingFunctors := True, pendingFunctors := []\<rparr>) s"
  have "doPendingFunctors get put exec s =
      bindR (foldR exec (pendingFunctors (get s)) ?s1) (\<lambda>s. Inr (put (set_calling False (get s)) s))"
    by (simp add: doPendingFunctors_def swap_pending_def set_calling_def)
  with a(2) obtain s2 where s2: "foldR exec (pendingFunctors (get s)) ?s1 = Inr s2"
    and s': "s' = put (set_calling False (get s2)) s2" by (auto simp: bindR_eq_Inr)
  have "inv s2" by (rule foldR_invariant[where P = inv, OF s2 inv_queue[OF a(1)]]) (rule inv_exec)
  from inv_queue[OF this, where b = False and fs = "pendingFunctors (get s2)"] show "inv s'"
    by (simp add: s' set_calling_def same_pending)
qed

lemma loop_iteration_inv: "inv s \<Longrightarrow> loop_iteration get put exec alive handle ep now s = Inr s' \<Longrightarrow> inv s'"
proof -
  assume a: "inv s" "loop_iteration get put exec alive handle ep now s = Inr s'"
  then obtain active l s1 where p: "poller_poll ep (get s) = Inr (active, l)"
    and s1: "foldR (dispatch get alive handle now) active (put l s) = Inr s1"
    and s': "doPendingFunctors get put exec s1 = Inr s'"
    by (auto simp: loop_iteration_def bindR_eq_Inr)
  have "inv s1"
    by (rule foldR_invariant[where P = inv, OF s1 inv_poll[OF a(1) p]]) (auto simp: dispatch_def intro: inv_handle)
  with s' show "inv s'" by (rule doPendingFunctors_inv[rotated])
qed

lemma loop_while_inv: "inv s \<Longrightarrow> loop_while get put exec alive handle eps s = Inr s' \<Longrightarrow> inv s'"
proof (induction eps arbitrary: s)
  case Nil
  then show ?case
    using inv_flags[OF Nil(1), where b = False and q = True] by (auto simp: same_flag split: if_splits)
next
  case (Cons e eps)
  obtain ep now where e: "e = (ep, now)" by (cases e)
  show ?case
  proof (cases "quit_flag (get s)")
    case True
    with Cons.prems e inv_flags[OF Cons.prems(1), where b = False and q = True] show ?thesis
      by (auto simp: same_flag)
  next
    case False
    with Cons.prems e obtain s1 where "loop_iteration get put exec alive handle ep now s = Inr s1"
      "loop_while get put exec alive handle eps s1 = Inr s'" by (auto simp: bindR_eq_Inr)
    with Cons loop_iteration_inv show ?thesis by blast
  qed
qed

lemma loop_run_inv: "inv s \<Longrightarrow> loop_run get put exec alive handle eps s = Inr s' \<Longrightarrow> inv s'"
  unfolding loop_run_def by (rule loop_while_inv[OF inv_flags])

end

section \<open>Channel calls against the kernel\<close>

datatype chan_call = EnableReading | DisableReading | EnableWriting | DisableWriting | DisableAll | Remove

fun chan_do ::
  "kctl \<Rightarrow> nat \<Rightarrow> chan_call \<times> nat \<Rightarrow> ('f, 'z) event_loop_scheme \<Rightarrow> ('f, 'z) event_loop_scheme outcome" where
  "chan_do k tid (EnableReading, ptr) l = enableReading k tid ptr l"
| "chan_do k tid (DisableReading, ptr) l = disableReading k tid ptr l"
| "chan_do k tid (EnableWriting, ptr) l = enableWriting k tid ptr l"
| "chan_do k tid (DisableWriting, ptr) l = disableWriting k tid ptr l"
| "chan_do k tid (DisableAll, ptr) l = disableAll k tid ptr l"
| "chan_do k tid (Remove, ptr) l = channel_remove k ptr l"

text \<open>The events a channel asks for after a call.\<close>

fun next_events :: "chan_call \<Rightarrow> 32 word \<Rightarrow> 32 word" where
  "next_events EnableReading ev = ev OR kReadEvent"
| "next_events DisableReading ev = ev AND NOT kReadEvent"
| "next_events EnableWriting ev = ev OR kWriteEvent"
| "next_events DisableWriting ev = ev AND NOT kWriteEvent"
| "next_events DisableAll ev = kNoneEvent"
| "next_events Remove ev = ev"

text \<open>What a list of calls asks for in the end, and whether it removes idle channels only.\<close>

fun asked :: "(chan_call \<times> nat) list \<Rightarrow> (nat \<Rightarrow> 32 word) \<Rightarrow> (nat \<Rightarrow> 32 word)" where
  "asked [] evs = evs"
| "asked ((call, ptr) # calls) evs = asked calls (evs(ptr := next_events call (evs ptr)))"

fun polite :: "(chan_call \<times> nat) list \<Rightarrow> (nat \<Rightarrow> 32 word) \<Rightarrow> bool" where
  "polite [] evs = True"
| "polite ((call, ptr) # calls) evs =
     ((call = Remove \<longrightarrow> evs ptr = kNoneEvent) \<and> polite calls (evs(ptr := next_events call (evs ptr))))"

text \<open>The invariant of a loop's channels: that of the poller, and an idle channel asks for nothing.\<close>

definition loop_ok :: "('f, 'z) event_loop_scheme \<Rightarrow> bool" where
  "loop_ok l \<longleftrightarrow> poller_inv l \<and> (\<forall>ptr. chan_index (chans l ptr) \<noteq> kAdded \<longrightarrow> chan_events (chans l ptr) = kNoneEvent)"

text \<open>The channels of a set \<open>S\<close> belong to the loop, on different descriptors, and no other is registered.\<close>

definition owns :: "nat set \<Rightarrow> ('f, 'z) event_loop_scheme \<Rightarrow> bool" where
  "owns S l \<longleftrightarrow>
     inj_on (\<lambda>ptr. chan_fd (chans l ptr)) S \<and> (\<forall>ptr \<in> S. chan_loop (chans l ptr) = loop_id l) \<and>
     ran (channels l) \<subseteq> S"

lemma touch_more [simp]:
  "poller.more (touch ptr ev l) = poller.more l" "poller.more (set_events ev ptr l) = poller.more l"
  by (simp_all add: touch_def set_events_def)

lemma same_more:
  fixes l l' :: "('f, 'z) event_loop_scheme"
  assumes "poller.more l' = poller.more l"
  shows "loop_id l' = loop_id l" "threadId l' = threadId l" "looping l' = looping l"
    "quit_flag l' = quit_flag l" "timerQueue_ptr l' = timerQueue_ptr l" "wakeupFd l' = wakeupFd l"
    "eventfd_count l' = eventfd_count l" "callingPendingFunctors l' = callingPendingFunctors l"
    "pendingFunctors l' = pendingFunctors l" "event_loop.more l' = event_loop.more l"
  using assms by (cases l; cases l'; simp)+

lemma channel_update_more:
  "channel_update k tid ptr l = Inr l' \<Longrightarrow> poller.more l' = poller.more l"
  by (auto simp: channel_update_def loop_updateChannel_def bindR_eq_Inr dest!: updateChannel_more)

lemma channel_remove_more:
  "channel_remove k ptr l = Inr l' \<Longrightarrow> poller.more l' = poller.more l"
  by (auto simp: channel_remove_def loop_removeChannel_def bindR_eq_Inr dest!: removeChannel_more)

lemma loop_fields_set_chan [simp]:
  "loop_id (set_chan ptr c l) = loop_id l" "threadId (set_chan ptr c l) = threadId l"
  "looping (set_chan ptr c l) = looping l" "quit_flag (set_chan ptr c l) = quit_flag l"
  "pendingFunctors (set_chan ptr c l) = pendingFunctors l"
  "callingPendingFunctors (set_chan ptr c l) = callingPendingFunctors l"
  "eventfd_count (set_chan ptr c l) = eventfd_count l"
  "timerQueue_ptr (set_chan ptr c l) = timerQueue_ptr l"
  by (simp_all add: set_chan_def)

lemma set_chan_twice: "set_chan ptr c' (set_chan ptr c l) = set_chan ptr c' l"
  by (simp add: set_chan_def)

lemma channel_update_eq:
  "channel_update k tid ptr (set_events ev ptr l) =
     (if chan_loop (chans l ptr) \<noteq> loop_id l then Inl AssertFailed
      else if threadId l \<noteq> tid then Inl Aborted
      else poller_updateChannel k True ptr (touch ptr ev l))"
  by (simp add: channel_update_def set_events_def loop_updateChannel_def assertInLoopThread_def
      isInLoopThread_def set_chan_twice touch_def bindR_def require_def)

lemma chan_do_eq:
  "call \<noteq> Remove \<Longrightarrow> chan_do k tid (call, ptr) l =
     channel_update k tid ptr (set_events (next_events call (chan_events (chans l ptr))) ptr l)"
  by (cases call) (simp_all add: enableReading_def disableReading_def enableWriting_def
      disableWriting_def disableAll_def kNoneEvent_def)

lemma loop_ok_cong:
  "chans l = chans l' \<Longrightarrow> channels l = channels l' \<Longrightarrow> ctl_log l = ctl_log l' \<Longrightarrow> loop_ok l \<longleftrightarrow> loop_ok l'"
  using poller_inv_cong[of l l'] by (simp add: loop_ok_def)

lemma queueInLoop_poller [simp]:
  "chans (queueInLoop tid f l) = chans l" "channels (queueInLoop tid f l) = channels l"
  "ctl_log (queueInLoop tid f l) = ctl_log l" "loop_id (queueInLoop tid f l) = loop_id l"
  by (simp_all add: queueInLoop_def queue_wake_def queue_push_def wakeup_def Let_def)

lemma queueInLoop_ok [simp]:
  "loop_ok (queueInLoop tid f l) \<longleftrightarrow> loop_ok l" "owns S (queueInLoop tid f l) \<longleftrightarrow> owns S l"
  by (rule loop_ok_cong) (simp_all add: owns_def)

lemma channel_tie_simps [simp]:
  "channels (channel_tie obj ptr l) = channels l" "ctl_log (channel_tie obj ptr l) = ctl_log l"
  "chan_events (chans (channel_tie obj ptr l) q) = chan_events (chans l q)"
  "chan_fd (chans (channel_tie obj ptr l) q) = chan_fd (chans l q)"
  "chan_index (chans (channel_tie obj ptr l) q) = chan_index (chans l q)"
  "chan_loop (chans (channel_tie obj ptr l) q) = chan_loop (chans l q)"
  "poller.more (channel_tie obj ptr l) = poller.more l"
  by (simp_all add: channel_tie_def)

lemma channel_tie_ok [simp]:
  fixes l :: "('f, 'z) event_loop_scheme"
  shows "loop_ok (channel_tie obj ptr l) \<longleftrightarrow> loop_ok l" "owns S (channel_tie obj ptr l) \<longleftrightarrow> owns S l"
    "threadId (channel_tie obj ptr l) = threadId l"
proof -
  have "index_ok (channel_tie obj ptr l) \<longleftrightarrow> index_ok l" by (simp add: index_ok_def)
  moreover have "watched (channel_tie obj ptr l) = watched l"
    by (rule ext) (simp add: watched_def split: option.split)
  ultimately show "loop_ok (channel_tie obj ptr l) \<longleftrightarrow> loop_ok l" by (simp add: loop_ok_def poller_inv_def)
  have "loop_id (channel_tie obj ptr l) = loop_id l" by (rule same_more(1)) simp
  then show "owns S (channel_tie obj ptr l) \<longleftrightarrow> owns S l" by (simp add: owns_def)
  show "threadId (channel_tie obj ptr l) = threadId l" by (rule same_more(2)) simp
qed

lemma owns_free:
  assumes "loop_ok l" and "owns S l" and "ptr \<in> S"
  shows "channels l (chan_fd (chans l ptr)) \<in> {None, Some ptr}"
proof (cases "channels l (chan_fd (chans l ptr))")
  case (Some q)
  have "chan_fd (chans l q) = chan_fd (chans l ptr)"
    using assms(1) Some unfolding loop_ok_def poller_inv_def index_ok_def by metis
  moreover have "q \<in> S" using assms(2) Some by (auto simp: owns_def intro: ranI)
  ultimately have "q = ptr" using assms(2,3) by (auto simp: owns_def inj_on_def)
  with Some show ?thesis by simp
qed simp

definition updated :: "nat \<Rightarrow> 32 word \<Rightarrow> 'z poller_scheme \<Rightarrow> 'z poller_scheme" where
  "updated ptr ev l = after_update ptr (touch ptr ev l)"

lemma updated_fields:
  fixes l :: "('f, 'z) event_loop_scheme"
  shows "threadId (updated ptr ev l) = threadId l" "loop_id (updated ptr ev l) = loop_id l"
    "chan_fd (chans (updated ptr ev l) q) = chan_fd (chans l q)"
    "chan_loop (chans (updated ptr ev l) q) = chan_loop (chans l q)"
    "chan_tie (chans (updated ptr ev l) q) = chan_tie (chans l q)"
    "chan_events (chans (updated ptr ev l) q) = (if q = ptr then ev else chan_events (chans l q))"
    "chan_index (chans (updated ptr ev l) ptr) = kDeleted \<Longrightarrow> ev = kNoneEvent"
    "q \<noteq> ptr \<Longrightarrow> chans (updated ptr ev l) q = chans l q"
    "chan_index (chans (updated ptr ev l) ptr) \<in> {kAdded, kDeleted}"
    "channels (updated ptr ev l) = (channels l)(chan_fd (chans l ptr) \<mapsto> ptr)"
  by (simp_all add: updated_def after_update_def touch_def set_index_def set_chan_def Let_def
      update_op_def isNoneEvent_def split: if_splits)

lemma owns_same:
  assumes "owns S l" and "loop_id l' = loop_id l" and "ran (channels l') \<subseteq> S"
    and "\<And>q. chan_fd (chans l' q) = chan_fd (chans l q)" "\<And>q. chan_loop (chans l' q) = chan_loop (chans l q)"
  shows "owns S l'"
  using assms unfolding owns_def by simp

text \<open>A change of events always succeeds in the loop's thread, and keeps the invariant.\<close>

lemma channel_update_step:
  assumes "loop_ok l" and "owns S l" and "ptr \<in> S" and "accepts_legal k" and "threadId l = tid"
  shows "channel_update k tid ptr (set_events ev ptr l) = Inr (updated ptr ev l)"
    and "loop_ok (updated ptr ev l)" and "owns S (updated ptr ev l)"
proof -
  have inv: "poller_inv l" using assms(1) by (simp add: loop_ok_def)
  note free = owns_free[OF assms(1-3)]
  show "channel_update k tid ptr (set_events ev ptr l) = Inr (updated ptr ev l)"
    using updateChannel_total[OF inv assms(4) free, of ev] assms(2,3,5)
    by (simp add: channel_update_eq owns_def updated_def)
  have "chan_events (chans (updated ptr ev l) q) = kNoneEvent" if "chan_index (chans (updated ptr ev l) q) \<noteq> kAdded" for q
    using that assms(1) updated_fields(7,9)[of ptr ev l]
    by (cases "q = ptr") (auto simp: updated_fields(6,8) loop_ok_def)
  then show "loop_ok (updated ptr ev l)"
    using after_update_inv(1)[OF inv free] by (simp add: loop_ok_def updated_def)
  show "owns S (updated ptr ev l)"
    by (rule owns_same[OF assms(2)])
      (use assms(2,3) in \<open>auto simp: updated_fields owns_def ran_def split: if_splits\<close>)
qed

text \<open>After a change the kernel watches the channel, or has been told to drop it.\<close>

lemma updated_watch:
  fixes l :: "('f, 'z) event_loop_scheme"
  assumes "loop_ok (updated ptr ev l)"
  shows "ev \<noteq> kNoneEvent \<Longrightarrow> interest (ctl_log (updated ptr ev l)) (chan_fd (chans l ptr)) = Some ev"
    and "chan_index (chans l ptr) = kAdded \<Longrightarrow> ev = kNoneEvent \<Longrightarrow>
      interest (ctl_log (updated ptr ev l)) (chan_fd (chans l ptr)) = None"
    and "ev \<noteq> kNoneEvent \<Longrightarrow> chan_index (chans (updated ptr ev l) ptr) = kAdded"
proof -
  have w: "interest (ctl_log (updated ptr ev l)) = watched (updated ptr ev l)"
    using assms by (simp add: loop_ok_def poller_inv_def)
  show added: "ev \<noteq> kNoneEvent \<Longrightarrow> chan_index (chans (updated ptr ev l) ptr) = kAdded"
    using updated_fields(7,9)[of ptr ev l] by auto
  then show "ev \<noteq> kNoneEvent \<Longrightarrow> interest (ctl_log (updated ptr ev l)) (chan_fd (chans l ptr)) = Some ev"
    by (simp add: w watched_def updated_fields(6,10))
  have "chan_index (chans l ptr) = kAdded \<Longrightarrow> ev = kNoneEvent \<Longrightarrow>
      chan_index (chans (updated ptr ev l) ptr) = kDeleted"
    by (simp add: updated_def after_update_def Let_def update_op_def isNoneEvent_def)
  then show "chan_index (chans l ptr) = kAdded \<Longrightarrow> ev = kNoneEvent \<Longrightarrow>
      interest (ctl_log (updated ptr ev l)) (chan_fd (chans l ptr)) = None"
    unfolding w by (simp add: watched_def updated_fields(10))
qed

definition removed :: "nat \<Rightarrow> 'z poller_scheme \<Rightarrow> 'z poller_scheme" where
  "removed ptr l = after_remove ptr (set_chan ptr ((chans l ptr)\<lparr>addedToLoop := False\<rparr>) l)"

lemma removed_fields:
  fixes l :: "('f, 'z) event_loop_scheme"
  shows "threadId (removed ptr l) = threadId l" "loop_id (removed ptr l) = loop_id l"
    "chan_fd (chans (removed ptr l) q) = chan_fd (chans l q)"
    "chan_loop (chans (removed ptr l) q) = chan_loop (chans l q)"
    "chan_events (chans (removed ptr l) q) = chan_events (chans l q)"
    "q \<noteq> ptr \<Longrightarrow> chans (removed ptr l) q = chans l q"
    "chan_index (chans (removed ptr l) ptr) = kNew"
    "channels (removed ptr l) = (channels l)(chan_fd (chans l ptr) := None)"
  by (simp_all add: removed_def after_remove_def set_index_def set_chan_def Let_def)

lemma channel_remove_step:
  assumes "loop_ok l" and "owns S l" and "ptr \<in> S"
  shows "channel_remove k ptr l =
      (if chan_events (chans l ptr) = kNoneEvent then Inr (removed ptr l) else Inl AssertFailed)"
    and "chan_events (chans l ptr) = kNoneEvent \<Longrightarrow> loop_ok (removed ptr l)"
    and "owns S (removed ptr l)"
proof -
  let ?q = "set_chan ptr ((chans l ptr)\<lparr>addedToLoop := False\<rparr>) l"
  have inv: "poller_inv ?q" using assms(1) by (simp add: loop_ok_def set_added_inv)
  have "channels ?q (chan_fd (chans ?q ptr)) \<in> {None, Some ptr}"
    using owns_free[OF assms] by simp
  from after_remove_inv[OF inv this] have inv': "poller_inv (removed ptr l)" by (simp add: removed_def)
  show "channel_remove k ptr l =
      (if chan_events (chans l ptr) = kNoneEvent then Inr (removed ptr l) else Inl AssertFailed)"
    by (simp add: channel_remove_def isNoneEvent_def loop_removeChannel_def removeChannel_eq
        removed_def bindR_def require_def)
  show "loop_ok (removed ptr l)" if "chan_events (chans l ptr) = kNoneEvent"
    using that assms(1) inv' removed_fields(6)[of _ ptr l] unfolding loop_ok_def
    by (metis removed_fields(5))
  show "owns S (removed ptr l)"
    by (rule owns_same[OF assms(2)])
      (use assms(2) in \<open>auto simp: removed_fields owns_def ran_def split: if_splits\<close>)
qed

lemma loop_ok_watches:
  assumes "loop_ok l" and "chan_events (chans l ptr) \<noteq> kNoneEvent"
  shows "interest (ctl_log l) (chan_fd (chans l ptr)) = Some (chan_events (chans l ptr))"
proof -
  have added: "chan_index (chans l ptr) = kAdded" using assms by (auto simp: loop_ok_def)
  then have "channels l (chan_fd (chans l ptr)) = Some ptr"
    using assms(1) by (simp add: loop_ok_def poller_inv_def index_ok_def)
  with added assms(1) show ?thesis by (simp add: loop_ok_def poller_inv_def watched_def)
qed

lemma chan_calls:
  assumes "loop_ok l" and "owns S l" and "accepts_legal k" and "threadId l = tid"
    and "snd ` set calls \<subseteq> S"
  shows "if polite calls (\<lambda>ptr. chan_events (chans l ptr))
    then \<exists>l'. foldR (chan_do k tid) calls l = Inr l' \<and> loop_ok l' \<and> owns S l' \<and>
      (\<forall>ptr. chan_fd (chans l' ptr) = chan_fd (chans l ptr) \<and>
        chan_events (chans l' ptr) = asked calls (\<lambda>ptr. chan_events (chans l ptr)) ptr)
    else foldR (chan_do k tid) calls l = Inl AssertFailed"
  using assms
proof (induction calls arbitrary: l)
  case (Cons c calls)
  obtain call ptr where c: "c = (call, ptr)" by (cases c)
  with Cons.prems have ptr: "ptr \<in> S" and sub: "snd ` set calls \<subseteq> S" by auto
  let ?ev = "next_events call (chan_events (chans l ptr))"
  show ?case
  proof (cases "call = Remove")
    case True
    note step = channel_remove_step[OF Cons.prems(1,2) ptr]
    show ?thesis
    proof (cases "chan_events (chans l ptr) = kNoneEvent")
      case none: True
      have evs: "(\<lambda>p. chan_events (chans l p))(ptr := kNoneEvent) =
          (\<lambda>p. chan_events (chans (removed ptr l) p))" using none by (auto simp: removed_fields)
      show ?thesis
        using Cons.IH[OF step(2)[OF none] step(3) Cons.prems(3) _ sub] none Cons.prems(4)
        by (simp add: c True step(1) evs removed_fields cong: if_cong)
    next
      case False
      then show ?thesis by (simp add: c True step(1))
    qed
  next
    case False
    note step = channel_update_step[OF Cons.prems(1,2) ptr Cons.prems(3,4), of ?ev]
    have evs: "(\<lambda>p. chan_events (chans l p))(ptr := ?ev) =
        (\<lambda>p. chan_events (chans (updated ptr ?ev l) p))" by (auto simp: updated_fields)
    show ?thesis
      using Cons.IH[OF step(2,3) Cons.prems(3) _ sub] False Cons.prems(4)
      by (simp add: c chan_do_eq step(1) evs updated_fields(1,3) cong: if_cong)
  qed
qed simp

section \<open>Properties of the channel calls\<close>


definition demo_loop :: "'f event_loop" where
  "demo_loop = \<lparr>chans = (\<lambda>ptr. new_channel 1 (int ptr)), channels = Map.empty, ctl_log = [],
     event_list_size = 16, loop_id = 1, looping = False, quit_flag = False, threadId = 7,
     timerQueue_ptr = None, wakeupFd = 3, eventfd_count = 0, callingPendingFunctors = False,
     pendingFunctors = []\<rparr>"

lemma demo_loop_ok: "loop_ok demo_loop" "owns {0, 5} demo_loop"
  by (auto simp: loop_ok_def poller_inv_def index_ok_def owns_def demo_loop_def new_channel_def
      kNew_def kNoneEvent_def watched_def fun_eq_iff)


lemma new_event_loop_facts:
  assumes "accepts_legal k" and "0 \<le> epollfd" and "0 \<le> evtfd"
  shows "\<exists>l. new_event_loop k False epollfd evtfd False this tid = Inr l \<and> loop_ok l \<and>
      interest (ctl_log l) = [evtfd \<mapsto> kReadEvent] \<and> pendingFunctors l = [] \<and> threadId l = tid \<and>
      loop_id l = this \<and> channels l = [evtfd \<mapsto> wakeup_ptr] \<and> callingPendingFunctors l = False \<and>
      owns {wakeup_ptr} l \<and>
      (\<exists>l'. delete_event_loop k tid l = Inr l' \<and> legal (ctl_log l') \<and> interest (ctl_log l') = Map.empty \<and>
        channels l' = Map.empty)"
proof -
  have "accepts_legal k \<Longrightarrow> 0 \<le> k [] (EpollCtl CTL_ADD evtfd kReadEvent)"
    unfolding accepts_legal_def by (metis append_Nil interest_Nil legal_next.simps legal_simps)
  then have ok: "\<not> k [] (EpollCtl CTL_ADD evtfd 3) < 0" using assms(1) by (simp add: event_bits)
  show ?thesis
    using assms(2,3) ok
    by (auto simp: new_event_loop_def newDefaultPoller_def createEventfd_def new_poller_def
        enableReading_def channel_update_def set_events_def set_chan_def loop_updateChannel_def
        assertInLoopThread_def isInLoopThread_def poller_updateChannel_def poller_update_def
        new_channel_def set_index_def Let_def index_defs event_bits delete_event_loop_def disableAll_def
        channel_remove_def loop_removeChannel_def poller_removeChannel_def isNoneEvent_def loop_ok_def
        poller_inv_def index_ok_def watched_def legal_def interest_def fun_eq_iff owns_def)
qed

text \<open>Building and taking down a loop. With \<open>MUDUO_USE_POLL\<close> set the constructor dereferences the
  null poller. Otherwise, when the descriptors could be made and the thread has no loop yet, the
  new loop watches its eventfd for reading, is idle, and its destructor leaves no descriptor
  registered.\<close>

theorem event_loop_lifecycle:
  assumes "accepts_legal k" and "0 \<le> epollfd" and "0 \<le> evtfd"
  shows "new_event_loop k True epollfd evtfd False this tid = Inl NullDeref \<and>
    (\<exists>l. new_event_loop k False epollfd evtfd False this tid = Inr l \<and> loop_ok l \<and>
      interest (ctl_log l) = [evtfd \<mapsto> kReadEvent] \<and> pendingFunctors l = [] \<and>
      (\<exists>l'. delete_event_loop k tid l = Inr l' \<and> legal (ctl_log l') \<and> interest (ctl_log l') = Map.empty \<and>
        channels l' = Map.empty))"
proof -
  have "new_event_loop k True epollfd evtfd False this tid = Inl NullDeref"
    using assms(3) by (simp add: new_event_loop_def newDefaultPoller_def createEventfd_def)
  with new_event_loop_facts[OF assms] show ?thesis by blast
qed

theorem event_loop_lifecycle_witness:
  "\<exists>l. new_event_loop (\<lambda>_ _. 0) False 3 4 False 1 7 = Inr (l :: nat event_loop) \<and>
     interest (ctl_log l) = [4 \<mapsto> kReadEvent]"
proof -
  have "accepts_legal (\<lambda>_ _. 0)" by (simp add: accepts_legal_def)
  from event_loop_lifecycle[OF this, of 3 4 1 7] show ?thesis by auto
qed

text \<open>No loop can run a timer. The constructor never makes a \<open>TimerQueue\<close>, so on every loop it
  builds \<open>runAt\<close>, \<open>runAfter\<close> and \<open>runEvery\<close> dereference a null pointer, whatever the timer queue's
  \<open>addTimer\<close> would do.\<close>

theorem loop_timers_null:
  assumes "new_event_loop k use_poll epollfd evtfd loop_in_thread this tid = Inr l"
  shows "runAt addTimer time cb l = Inl NullDeref \<and> runAfter addTimer now delay cb l = Inl NullDeref \<and>
    runEvery addTimer now interval cb l = Inl NullDeref"
proof -
  have "timerQueue_ptr l = None"
    using assms by (auto simp: new_event_loop_def bindR_eq_Inr enableReading_def
        same_more(5)[OF touch_more(2)] dest!: channel_update_more same_more(5) split: option.splits)
  then show ?thesis by (simp add: runAt_def runAfter_def runEvery_def)
qed

theorem loop_timers_null_witness:
  "\<exists>l. new_event_loop (\<lambda>_ _. 0) False 3 4 False 1 7 = Inr (l :: nat event_loop) \<and>
     runAt (\<lambda>q cb time interval l. Inr l) (timestamp_now 5) (0 :: nat) l = Inl NullDeref"
proof -
  have "\<exists>l. new_event_loop (\<lambda>_ _. 0) False 3 4 False 1 7 = Inr (l :: nat event_loop)" by (simp add: new_event_loop_def newDefaultPoller_def createEventfd_def new_poller_def
        enableReading_def channel_update_def set_events_def set_chan_def loop_updateChannel_def
        assertInLoopThread_def isInLoopThread_def poller_updateChannel_def poller_update_def
        new_channel_def Let_def index_defs)
  then obtain l :: "nat event_loop" where l: "new_event_loop (\<lambda>_ _. 0) False 3 4 False 1 7 = Inr l" by blast
  from loop_timers_null[OF l, of "\<lambda>q cb time interval l. Inr l" "timestamp_now 5" "0 :: nat"] l
  show ?thesis by blast
qed

section \<open>The loop and the threads that post to it\<close>

text \<open>
  Where the loop's thread is. \<open>Checking\<close>: before the test of \<open>quit_\<close>; \<open>Polling\<close>: in \<open>epoll_wait\<close>;
  \<open>Reported w\<close>: dispatching, with the wakeup channel still to be handled if \<open>w\<close>; \<open>Swapping\<close>: in
  \<open>doPendingFunctors\<close> before the mutex; \<open>Running fs\<close>: with the functors \<open>fs\<close> left to call.
\<close>

datatype 'f phase = Checking | Polling | Reported bool | Swapping | Running "'f list" | Stopped

text \<open>
  \<open>queuers\<close> and \<open>quitters\<close> are the other threads between the first and the second part of a
  \<open>queueInLoop\<close> or \<open>quit\<close>; \<open>pushed\<close> and \<open>executed\<close> record the functors queued and called, in order.
\<close>

record 'f conc =
  the_loop :: "'f event_loop"
  phase :: "'f phase"
  queuers :: "nat list"
  quitters :: "nat list"
  pushed :: "'f list"
  executed :: "'f list"

text \<open>One step of any thread. \<open>posts f\<close> are the functors that \<open>f\<close> queues on its own loop.\<close>

inductive conc_step :: "('f \<Rightarrow> 'f list) \<Rightarrow> 'f conc \<Rightarrow> 'f conc \<Rightarrow> bool" for posts where
  push: "tid \<noteq> threadId (the_loop c) \<Longrightarrow>
    conc_step posts c (c\<lparr>the_loop := queue_push f (the_loop c), queuers := tid # queuers c,
      pushed := pushed c @ [f]\<rparr>)"
| wake: "queuers c = ts @ tid # us \<Longrightarrow>
    conc_step posts c (c\<lparr>the_loop := queue_wake tid (the_loop c), queuers := ts @ us\<rparr>)"
| quit_by_other: "tid \<noteq> threadId (the_loop c) \<Longrightarrow>
    conc_step posts c (c\<lparr>the_loop := quit_set (the_loop c), quitters := tid # quitters c\<rparr>)"
| quit_wake: "quitters c = ts @ tid # us \<Longrightarrow>
    conc_step posts c (c\<lparr>the_loop := quit_wake tid (the_loop c), quitters := ts @ us\<rparr>)"
| check_go: "phase c = Checking \<Longrightarrow> \<not> quit_flag (the_loop c) \<Longrightarrow> conc_step posts c (c\<lparr>phase := Polling\<rparr>)"
| check_stop: "phase c = Checking \<Longrightarrow> quit_flag (the_loop c) \<Longrightarrow>
    conc_step posts c (c\<lparr>phase := Stopped, the_loop := (the_loop c)\<lparr>looping := False\<rparr>\<rparr>)"
| poll_wakeup: "phase c = Polling \<Longrightarrow> 0 < eventfd_count (the_loop c) \<Longrightarrow>
    conc_step posts c (c\<lparr>phase := Reported True\<rparr>)"
| poll_other: "phase c = Polling \<Longrightarrow> conc_step posts c (c\<lparr>phase := Reported False\<rparr>)"
| handle_wakeup: "phase c = Reported True \<Longrightarrow>
    conc_step posts c (c\<lparr>the_loop := loop_handleRead (the_loop c), phase := Reported False\<rparr>)"
| handle_queues: "phase c = Reported w \<Longrightarrow>
    conc_step posts c (c\<lparr>the_loop := queueInLoop (threadId (the_loop c)) f (the_loop c),
      pushed := pushed c @ [f]\<rparr>)"
| handle_quits: "phase c = Reported w \<Longrightarrow>
    conc_step posts c (c\<lparr>the_loop := loop_quit (threadId (the_loop c)) (the_loop c)\<rparr>)"
| calling: "phase c = Reported False \<Longrightarrow>
    conc_step posts c (c\<lparr>the_loop := set_calling True (the_loop c), phase := Swapping\<rparr>)"
| swap: "phase c = Swapping \<Longrightarrow> swap_pending (the_loop c) = (fs, l) \<Longrightarrow>
    conc_step posts c (c\<lparr>the_loop := l, phase := Running fs\<rparr>)"
| run: "phase c = Running (f # fs) \<Longrightarrow>
    conc_step posts c (c\<lparr>the_loop := fold (queueInLoop (threadId (the_loop c))) (posts f) (the_loop c),
      phase := Running fs, pushed := pushed c @ posts f, executed := executed c @ [f]\<rparr>)"
| finish: "phase c = Running [] \<Longrightarrow>
    conc_step posts c (c\<lparr>the_loop := set_calling False (the_loop c), phase := Checking\<rparr>)"

inductive_cases conc_stepE: "conc_step posts c c'"

definition conc_start :: "'f event_loop \<Rightarrow> 'f conc" where
  "conc_start l = \<lparr>the_loop = l\<lparr>looping := True, quit_flag := False\<rparr>, phase = Checking, queuers = [],
     quitters = [], pushed = pendingFunctors l, executed = []\<rparr>"

text \<open>What is left of the functors swapped out.\<close>

fun in_hand :: "'f phase \<Rightarrow> 'f list" where
  "in_hand (Running fs) = fs"
| "in_hand _ = []"

text \<open>
  The invariant. The flag is set exactly inside \<open>doPendingFunctors\<close>. Where the loop is about to
  block, or will be before it looks at the queue again, a functor that waits has a wakeup on its way.
\<close>

definition conc_inv :: "'f conc \<Rightarrow> bool" where
  "conc_inv c \<longleftrightarrow>
     pushed c = executed c @ in_hand (phase c) @ pendingFunctors (the_loop c) \<and>
     callingPendingFunctors (the_loop c) = (case phase c of Swapping \<Rightarrow> True | Running _ \<Rightarrow> True | _ \<Rightarrow> False) \<and>
     threadId (the_loop c) \<notin> set (queuers c) \<union> set (quitters c) \<and>
     (phase c = Checking \<or> phase c = Polling \<or> (\<exists>fs. phase c = Running fs) \<longrightarrow>
        pendingFunctors (the_loop c) \<noteq> [] \<longrightarrow> 0 < eventfd_count (the_loop c) \<or> queuers c \<noteq> []) \<and>
     (phase c = Polling \<longrightarrow> quit_flag (the_loop c) \<longrightarrow> 0 < eventfd_count (the_loop c) \<or> quitters c \<noteq> [])"

lemmas queue_defs = queue_push_def queue_wake_def queueInLoop_def wakeup_def isInLoopThread_def
  set_calling_def swap_pending_def quit_set_def quit_wake_def loop_quit_def loop_handleRead_def

lemma wakeup_simps [simp]:
  "pendingFunctors (wakeup l) = pendingFunctors l" "threadId (wakeup l) = threadId l"
  "callingPendingFunctors (wakeup l) = callingPendingFunctors l" "quit_flag (wakeup l) = quit_flag l"
  "0 < eventfd_count (wakeup l)"
  by (simp_all add: wakeup_def Let_def eventfd_max_def)

lemma queueInLoop_simps [simp]:
  "pendingFunctors (queueInLoop tid f l) = pendingFunctors l @ [f]"
  "threadId (queueInLoop tid f l) = threadId l"
  "callingPendingFunctors (queueInLoop tid f l) = callingPendingFunctors l"
  "quit_flag (queueInLoop tid f l) = quit_flag l"
  "callingPendingFunctors l \<Longrightarrow> 0 < eventfd_count (queueInLoop tid f l)"
  "0 < eventfd_count l \<Longrightarrow> 0 < eventfd_count (queueInLoop tid f l)"
  by (simp_all add: queueInLoop_def queue_wake_def queue_push_def)

lemma fold_queueInLoop:
  "pendingFunctors (fold (queueInLoop tid) fs l) = pendingFunctors l @ fs"
  "threadId (fold (queueInLoop tid) fs l) = threadId l"
  "callingPendingFunctors (fold (queueInLoop tid) fs l) = callingPendingFunctors l"
  "quit_flag (fold (queueInLoop tid) fs l) = quit_flag l"
  "0 < eventfd_count l \<Longrightarrow> 0 < eventfd_count (fold (queueInLoop tid) fs l)"
  "callingPendingFunctors l \<Longrightarrow> fs \<noteq> [] \<Longrightarrow> 0 < eventfd_count (fold (queueInLoop tid) fs l)"
proof -
  have pos: "0 < eventfd_count l \<Longrightarrow> 0 < eventfd_count (fold (queueInLoop tid) fs l)" for fs l
    by (induction fs arbitrary: l) simp_all
  then show "0 < eventfd_count l \<Longrightarrow> 0 < eventfd_count (fold (queueInLoop tid) fs l)" .
  show "callingPendingFunctors l \<Longrightarrow> fs \<noteq> [] \<Longrightarrow> 0 < eventfd_count (fold (queueInLoop tid) fs l)"
    by (cases fs) (simp_all add: pos)
qed (induction fs arbitrary: l, simp_all)+

lemma conc_inv_step:
  assumes "conc_step posts c c'" and "conc_inv c"
  shows "conc_inv c'"
  using assms
proof (cases rule: conc_step.cases)
  case (run f fs)
  with assms(2) show ?thesis
    by (cases "posts f = []") (auto simp: conc_inv_def fold_queueInLoop)
qed (auto simp: conc_inv_def queue_push_def queue_wake_def isInLoopThread_def quit_set_def
    quit_wake_def loop_quit_def set_calling_def swap_pending_def loop_handleRead_def)

lemma conc_inv_start: "callingPendingFunctors l = False \<Longrightarrow>
    pendingFunctors l = [] \<or> 0 < eventfd_count l \<Longrightarrow> conc_inv (conc_start l)"
  by (auto simp: conc_inv_def conc_start_def)

lemma conc_inv_reach: "(conc_step posts)\<^sup>*\<^sup>* c c' \<Longrightarrow> conc_inv c \<Longrightarrow> conc_inv c'"
  by (induction rule: rtranclp_induct) (simp_all add: conc_inv_step)

lemma run_all:
  "phase c = Running fs \<Longrightarrow>
     \<exists>c'. (conc_step posts)\<^sup>*\<^sup>* c c' \<and> phase c' = Running [] \<and> executed c' = executed c @ fs"
proof (induction fs arbitrary: c)
  case (Cons f fs)
  note step = conc_step.run[OF Cons.prems, of posts]
  from Cons.IH[of "c\<lparr>the_loop := fold (queueInLoop (threadId (the_loop c))) (posts f) (the_loop c),
      phase := Running fs, pushed := pushed c @ posts f, executed := executed c @ [f]\<rparr>"]
  obtain c' where "(conc_step posts)\<^sup>*\<^sup>* (c\<lparr>the_loop := fold (queueInLoop (threadId (the_loop c))) (posts f) (the_loop c),
      phase := Running fs, pushed := pushed c @ posts f, executed := executed c @ [f]\<rparr>) c'"
    "phase c' = Running []" "executed c' = (executed c @ [f]) @ fs" by auto
  with step show ?case by (intro exI[of _ c']) (auto intro: converse_rtranclp_into_rtranclp)
qed auto

lemma dispatch_then_run:
  assumes "phase c = Reported False"
  shows "\<exists>c'. (conc_step posts)\<^sup>*\<^sup>* c c' \<and> phase c' = Running [] \<and>
    executed c' = executed c @ pendingFunctors (the_loop c)"
proof -
  let ?c1 = "c\<lparr>the_loop := set_calling True (the_loop c), phase := Swapping\<rparr>"
  let ?l = "(set_calling True (the_loop c))\<lparr>pendingFunctors := []\<rparr>"
  let ?c2 = "?c1\<lparr>the_loop := ?l, phase := Running (pendingFunctors (the_loop c))\<rparr>"
  have s1: "conc_step posts c ?c1" by (rule conc_step.calling[OF assms])
  have "swap_pending (the_loop ?c1) = (pendingFunctors (the_loop c), ?l)"
    by (simp add: swap_pending_def set_calling_def)
  from conc_step.swap[OF _ this] have s2: "conc_step posts ?c1 ?c2" by simp
  from run_all[of ?c2] obtain c' where "(conc_step posts)\<^sup>*\<^sup>* ?c2 c'" "phase c' = Running []"
    "executed c' = executed c @ pendingFunctors (the_loop c)" by auto
  with s1 s2 show ?thesis by (meson converse_rtranclp_into_rtranclp)
qed

section \<open>Properties of the functor queue\<close>

text \<open>C18: functors are called exactly once, in the order in which they were queued. In every
  interleaving of the loop with other threads that post functors or quit it, with callbacks and
  functors that post in turn, the functors called so far, those still in hand and those still in
  the queue are together, in this order, the functors queued.\<close>

theorem functors_fifo:
  assumes "(conc_step posts)\<^sup>*\<^sup>* (conc_start l) c"
    and "callingPendingFunctors l = False" and "pendingFunctors l = [] \<or> 0 < eventfd_count l"
  shows "pushed c = executed c @ in_hand (phase c) @ pendingFunctors (the_loop c)"
  using conc_inv_reach[OF assms(1) conc_inv_start[OF assms(2,3)]] by (simp add: conc_inv_def)

theorem functors_fifo_witness:
  "\<exists>c. (conc_step (\<lambda>_. [])) (conc_start (demo_loop :: nat event_loop)) c \<and> pushed c = [3::nat] \<and>
     pendingFunctors (the_loop c) = [3]"
proof -
  let ?c = "(conc_start (demo_loop :: nat event_loop))\<lparr>the_loop := queue_push (3::nat) (the_loop (conc_start (demo_loop :: nat event_loop))),
    queuers := 9 # queuers (conc_start (demo_loop :: nat event_loop)), pushed := pushed (conc_start (demo_loop :: nat event_loop)) @ [3]\<rparr>"
  have step: "conc_step (\<lambda>_. []) (conc_start (demo_loop :: nat event_loop)) ?c"
    by (rule conc_step.push) (simp add: conc_start_def demo_loop_def)
  then have reach: "(conc_step (\<lambda>_. []))\<^sup>*\<^sup>* (conc_start (demo_loop :: nat event_loop)) ?c" by (rule r_into_rtranclp)
  from functors_fifo[OF reach]
  have "pushed ?c = executed ?c @ in_hand (phase ?c) @ pendingFunctors (the_loop ?c)"
    by (simp add: demo_loop_def)
  with step show ?thesis by (intro exI[of _ ?c]) (simp add: conc_start_def demo_loop_def)
qed

text \<open>C10: no wakeup is lost. Whenever the loop is in \<open>epoll_wait\<close> and a functor waits in the queue or
  \<open>quit_\<close> is set, the eventfd is readable, so \<open>epoll_wait\<close> returns at once, or the thread that
  posted is still on its way to write it. From there the loop's own steps call every functor of the
  queue, whatever these functors post.\<close>

theorem no_lost_wakeup:
  assumes "(conc_step posts)\<^sup>*\<^sup>* (conc_start l) c"
    and "callingPendingFunctors l = False" and "pendingFunctors l = [] \<or> 0 < eventfd_count l"
    and "phase c = Polling"
  shows "(pendingFunctors (the_loop c) \<noteq> [] \<longrightarrow> 0 < eventfd_count (the_loop c) \<or> queuers c \<noteq> []) \<and>
    (quit_flag (the_loop c) \<longrightarrow> 0 < eventfd_count (the_loop c) \<or> quitters c \<noteq> []) \<and>
    (0 < eventfd_count (the_loop c) \<longrightarrow>
      (\<exists>c'. (conc_step posts)\<^sup>*\<^sup>* c c' \<and> executed c' = executed c @ pendingFunctors (the_loop c)))"
proof -
  have inv: "conc_inv c" by (rule conc_inv_reach[OF assms(1) conc_inv_start[OF assms(2,3)]])
  have "\<exists>c'. (conc_step posts)\<^sup>*\<^sup>* c c' \<and> executed c' = executed c @ pendingFunctors (the_loop c)"
    if "0 < eventfd_count (the_loop c)"
  proof -
    let ?c1 = "c\<lparr>phase := Reported True\<rparr>"
    let ?c2 = "?c1\<lparr>the_loop := loop_handleRead (the_loop ?c1), phase := Reported False\<rparr>"
    have s1: "conc_step posts c ?c1" by (rule conc_step.poll_wakeup[OF assms(4) that])
    have s2: "conc_step posts ?c1 ?c2" by (rule conc_step.handle_wakeup) simp
    from dispatch_then_run[of ?c2 posts] obtain c' where "(conc_step posts)\<^sup>*\<^sup>* ?c2 c'"
      "executed c' = executed c @ pendingFunctors (the_loop c)"
      by (auto simp: loop_handleRead_def split: if_splits)
    with s1 s2 show ?thesis by (meson converse_rtranclp_into_rtranclp)
  qed
  with inv assms(4) show ?thesis by (simp add: conc_inv_def)
qed

theorem no_lost_wakeup_witness:
  "\<exists>c. (conc_step (\<lambda>_. []))\<^sup>*\<^sup>* (conc_start (demo_loop :: nat event_loop)) c \<and> phase c = Polling \<and>
     pendingFunctors (the_loop c) = [3::nat] \<and> (0 < eventfd_count (the_loop c) \<or> queuers c \<noteq> [])"
proof -
  let ?c0 = "conc_start (demo_loop :: nat event_loop)"
  let ?c1 = "?c0\<lparr>phase := Polling\<rparr>"
  let ?c2 = "?c1\<lparr>the_loop := queue_push (3::nat) (the_loop ?c1), queuers := 9 # queuers ?c1, pushed := pushed ?c1 @ [3]\<rparr>"
  have "conc_step (\<lambda>_. []) ?c0 ?c1"
    by (rule conc_step.check_go) (simp_all add: conc_start_def)
  moreover have "conc_step (\<lambda>_. []) ?c1 ?c2"
    by (rule conc_step.push) (simp add: conc_start_def demo_loop_def)
  ultimately have reach: "(conc_step (\<lambda>_. []))\<^sup>*\<^sup>* ?c0 ?c2" by (meson r_into_rtranclp rtranclp_trans)
  have pend: "pendingFunctors (the_loop ?c2) = [3]"
    by (simp add: queue_push_def conc_start_def demo_loop_def)
  from no_lost_wakeup[OF reach] pend
  have "0 < eventfd_count (the_loop ?c2) \<or> queuers ?c2 \<noteq> []" by (simp add: demo_loop_def)
  with reach pend show ?thesis by (intro exI[of _ ?c2]) simp
qed

end
