(* ===== verification/Byte_Queue.thy ===== *)
theory Byte_Queue
  imports Prelude
begin

text \<open>
  The contract a byte buffer offers to its clients (the HTTP parser and printer, the output
  side of a connection): bytes go in at the back and come out at the front, and nothing else
  happens to them. The clients' lemmas are proved once, from these laws.
\<close>

datatype queue_op = Put string | Get nat

text \<open>A run of operations; the bytes taken out at the front, in order.\<close>

fun queue_run ::
  "('q \<Rightarrow> string) \<Rightarrow> (string \<Rightarrow> 'q \<Rightarrow> 'q) \<Rightarrow> (nat \<Rightarrow> 'q \<Rightarrow> 'q) \<Rightarrow> queue_op list \<Rightarrow> 'q \<Rightarrow> string \<times> 'q" where
  "queue_run content put get [] q = ([], q)"
| "queue_run content put get (Put d # ops) q = queue_run content put get ops (put d q)"
| "queue_run content put get (Get n # ops) q =
     (let (out, q') = queue_run content put get ops (get n q) in (take n (content q) @ out, q'))"

fun produced :: "queue_op list \<Rightarrow> string" where
  "produced [] = []"
| "produced (Put d # ops) = d @ produced ops"
| "produced (Get n # ops) = produced ops"

locale byte_queue =
  fixes invar :: "'q \<Rightarrow> bool"
    and content :: "'q \<Rightarrow> string"
    and put :: "string \<Rightarrow> 'q \<Rightarrow> 'q"
    and get :: "nat \<Rightarrow> 'q \<Rightarrow> 'q"
  assumes invar_put: "invar q \<Longrightarrow> invar (put d q)"
    and content_put: "invar q \<Longrightarrow> content (put d q) = content q @ d"
    and invar_get: "invar q \<Longrightarrow> invar (get n q)"
    and content_get: "invar q \<Longrightarrow> content (get n q) = drop n (content q)"
begin

lemma invar_puts: "invar q \<Longrightarrow> invar (fold put ds q)"
  by (induction ds arbitrary: q) (simp_all add: invar_put)

lemma content_puts: "invar q \<Longrightarrow> content (fold put ds q) = content q @ concat ds"
  by (induction ds arbitrary: q) (simp_all add: invar_put content_put)

lemma run_invar: "invar q \<Longrightarrow> invar (snd (queue_run content put get ops q))"
proof (induction ops arbitrary: q)
  case (Cons x ops)
  then show ?case by (cases x) (simp_all add: invar_put invar_get Let_def case_prod_unfold)
qed simp

text \<open>First in, first out: what came out, then what is still inside, is what went in.\<close>

lemma run_fifo:
  "invar q \<Longrightarrow>
     fst (queue_run content put get ops q) @ content (snd (queue_run content put get ops q))
       = content q @ produced ops"
proof (induction ops arbitrary: q)
  case (Cons x ops)
  show ?case
  proof (cases x)
    case (Put d)
    with Cons show ?thesis by (simp add: invar_put content_put)
  next
    case (Get n)
    let ?r = "queue_run content put get ops (get n q)"
    have "fst ?r @ content (snd ?r) = drop n (content q) @ produced ops"
      using Cons.IH[OF invar_get[OF Cons.prems]] by (simp add: content_get[OF Cons.prems])
    with Get show ?thesis by (simp add: Let_def case_prod_unfold)
  qed
qed simp

end

end
