(* ===== verification/NetBuffer.thy ===== *)
theory NetBuffer
  imports Byte_Queue
begin

text \<open>
  \<open>Buffer\<close> (mymuduo/include/mymuduo/Buffer.h, mymuduo/src/Buffer.cc): the input and output
  buffer of a connection. One \<open>std::vector<char>\<close> with two indices: the bytes before
  \<open>readerIndex_\<close> are prependable, those up to \<open>writerIndex_\<close> are readable, the rest is
  writable. A pointer into the buffer is its index. The indices are natural numbers: a vector
  holds fewer than 2^63 bytes, so no sum of them reaches 2^64.
\<close>

record buffer =
  bytes :: string
  readerIndex :: nat
  writerIndex :: nat

definition kCheapPretend :: nat where
  "kCheapPretend = 8"

definition kInitialSize :: nat where
  "kInitialSize = 1024"

definition kCRLF :: string where
  "kCRLF = [CHR 0x0D, CHR 0x0A]"

definition new_buffer :: "nat \<Rightarrow> buffer" where
  "new_buffer initialSize =
     \<lparr>bytes = replicate (kCheapPretend + initialSize) (CHR 0x00),
      readerIndex = kCheapPretend, writerIndex = kCheapPretend\<rparr>"

definition readableBytes :: "buffer \<Rightarrow> nat" where
  "readableBytes b = writerIndex b - readerIndex b"

definition writableBytes :: "buffer \<Rightarrow> nat" where
  "writableBytes b = length (bytes b) - writerIndex b"

definition prependableBytes :: "buffer \<Rightarrow> nat" where
  "prependableBytes b = readerIndex b"

definition peek :: "buffer \<Rightarrow> nat" where
  "peek b = readerIndex b"

definition beginWrite :: "buffer \<Rightarrow> nat" where
  "beginWrite b = writerIndex b"

text \<open>The bytes from \<open>peek()\<close> to \<open>beginWrite()\<close>: the abstract content of a buffer.\<close>

definition readable :: "buffer \<Rightarrow> string" where
  "readable b = take (readableBytes b) (drop (peek b) (bytes b))"

definition findCRLF :: "buffer \<Rightarrow> nat option" where
  "findCRLF b =
     (let crlf = peek b + std_search (readable b) kCRLF
      in if crlf = beginWrite b then None else Some crlf)"

definition retrieveAll :: "buffer \<Rightarrow> buffer" where
  "retrieveAll b = b\<lparr>readerIndex := kCheapPretend, writerIndex := kCheapPretend\<rparr>"

definition retrieve :: "nat \<Rightarrow> buffer \<Rightarrow> buffer" where
  "retrieve len b =
     (if len < readableBytes b then b\<lparr>readerIndex := readerIndex b + len\<rparr> else retrieveAll b)"

definition retrieveUntil :: "nat \<Rightarrow> buffer \<Rightarrow> buffer outcome" where
  "retrieveUntil end b =
     bindR (require AssertFailed (peek b \<le> end)) (\<lambda>_.
     bindR (require AssertFailed (end \<le> beginWrite b)) (\<lambda>_.
     Inr (retrieve (end - peek b) b)))"

text \<open>\<open>std::string rst(peek(), len)\<close> reads \<open>len\<close> bytes of the vector from the reader index on.\<close>

definition retrieveAsString :: "nat \<Rightarrow> buffer \<Rightarrow> (string \<times> buffer) outcome" where
  "retrieveAsString len b =
     bindR (require OutOfBounds (peek b + len \<le> length (bytes b))) (\<lambda>_.
     Inr (take len (drop (peek b) (bytes b)), retrieve len b))"

definition retrieveAllAsString :: "buffer \<Rightarrow> (string \<times> buffer) outcome" where
  "retrieveAllAsString b = retrieveAsString (readableBytes b) b"

definition retrieveAllString :: "buffer \<Rightarrow> (string \<times> buffer) outcome" where
  "retrieveAllString b = retrieveAsString (readableBytes b) b"

text \<open>\<open>vector::resize\<close>: a longer vector is padded with NUL bytes.\<close>

definition vec_resize :: "nat \<Rightarrow> string \<Rightarrow> string" where
  "vec_resize n v = take n v @ replicate (n - length v) (CHR 0x00)"

definition makeSpace :: "nat \<Rightarrow> buffer \<Rightarrow> buffer" where
  "makeSpace len b =
     (if writableBytes b + prependableBytes b < len + kCheapPretend
      then b\<lparr>bytes := vec_resize (writerIndex b + len) (bytes b)\<rparr>
      else let n = readableBytes b in
        b\<lparr>bytes := blit (bytes b) kCheapPretend (readable b),
          readerIndex := kCheapPretend, writerIndex := kCheapPretend + n\<rparr>)"

definition ensureWritableBytes :: "nat \<Rightarrow> buffer \<Rightarrow> buffer" where
  "ensureWritableBytes len b = (if writableBytes b < len then makeSpace len b else b)"

definition buf_append :: "string \<Rightarrow> buffer \<Rightarrow> buffer" where
  "buf_append data b =
     (let b1 = ensureWritableBytes (length data) b
      in b1\<lparr>bytes := blit (bytes b1) (beginWrite b1) data,
            writerIndex := writerIndex b1 + length data\<rparr>)"

text \<open>
  \<open>readFd\<close>: \<open>readv\<close> is the kernel's; its answer is an argument, the errno of a failure or
  the bytes it delivered. \<open>iov_capacity\<close> is the room the two \<open>iovec\<close>s offer it. The result
  is the return value and \<open>*saveErrno\<close>.
\<close>

definition extrabuf_size :: nat where
  "extrabuf_size = 65536"

definition iov_capacity :: "buffer \<Rightarrow> nat" where
  "iov_capacity b =
     (if writableBytes b < extrabuf_size then writableBytes b + extrabuf_size else writableBytes b)"

definition readFd :: "int + string \<Rightarrow> buffer \<Rightarrow> int \<times> int option \<times> buffer" where
  "readFd rv b =
     (case rv of
        Inl e \<Rightarrow> (- 1, Some e, b)
      | Inr data \<Rightarrow>
          let writable = writableBytes b; n = length data;
              vec0 = blit (bytes b) (writerIndex b) (take writable data);
              extrabuf = drop writable data
          in if n \<le> writable
             then (int n, None, b\<lparr>bytes := vec0, writerIndex := writerIndex b + n\<rparr>)
             else (int n, None,
                   buf_append extrabuf (b\<lparr>bytes := vec0, writerIndex := length (bytes b)\<rparr>)))"

text \<open>
  \<open>writeFd\<close>: the kernel's answer to \<open>write\<close> is the errno of a failure or how many of the
  readable bytes it took. The result is the return value, \<open>*saveErrno\<close> and the bytes that
  went out; the buffer is not changed.
\<close>

definition writeFd :: "int + nat \<Rightarrow> buffer \<Rightarrow> int \<times> int option \<times> string" where
  "writeFd wv b =
     (case wv of
        Inl e \<Rightarrow> (- 1, Some e, [])
      | Inr n \<Rightarrow> (int n, None, take n (readable b)))"

section \<open>Well-formedness\<close>

definition buf_wf :: "buffer \<Rightarrow> bool" where
  "buf_wf b \<longleftrightarrow>
     kCheapPretend \<le> readerIndex b \<and> readerIndex b \<le> writerIndex b \<and> writerIndex b \<le> length (bytes b)"

lemmas buf_sizes = readableBytes_def writableBytes_def prependableBytes_def peek_def beginWrite_def

lemma writable_room:
  "buf_wf b \<Longrightarrow> n \<le> writableBytes b \<longleftrightarrow> writerIndex b + n \<le> length (bytes b)"
  unfolding buf_wf_def buf_sizes by linarith

lemma buf_wf_new [wf_intros, simp]: "buf_wf (new_buffer n)"
  by (simp add: buf_wf_def new_buffer_def)

lemma readable_new [content_simps, simp]: "readable (new_buffer n) = []"
  by (simp add: readable_def buf_sizes new_buffer_def)

lemma length_readable: "buf_wf b \<Longrightarrow> length (readable b) = readableBytes b"
  by (auto simp: buf_wf_def readable_def buf_sizes min_def)

lemma buf_wf_retrieveAll [wf_intros]: "buf_wf b \<Longrightarrow> buf_wf (retrieveAll b)"
  by (simp add: buf_wf_def retrieveAll_def)

lemma readable_retrieveAll [content_simps]: "readable (retrieveAll b) = []"
  by (simp add: readable_def buf_sizes retrieveAll_def)

lemma buf_wf_retrieve [wf_intros]: "buf_wf b \<Longrightarrow> buf_wf (retrieve n b)"
  by (auto simp: retrieve_def buf_wf_retrieveAll) (auto simp: buf_wf_def buf_sizes)

lemma readable_retrieve [content_simps]:
  assumes "buf_wf b"
  shows "readable (retrieve n b) = drop n (readable b)"
proof (cases "n < readableBytes b")
  case True
  then show ?thesis
    by (simp add: retrieve_def readable_def buf_sizes drop_take add.commute diff_diff_add)
next
  case False
  then show ?thesis
    using length_readable[OF assms] by (simp add: retrieve_def readable_retrieveAll)
qed

lemma makeSpace_facts:
  assumes "buf_wf b" and "writableBytes b < n"
  shows "buf_wf (makeSpace n b)" "readable (makeSpace n b) = readable b"
    "n \<le> writableBytes (makeSpace n b)"
proof -
  show "buf_wf (makeSpace n b)" "readable (makeSpace n b) = readable b"
    "n \<le> writableBytes (makeSpace n b)"
    using assms length_readable[OF assms(1)]
    by (auto simp: makeSpace_def buf_wf_def buf_sizes readable_def vec_resize_def blit_def Let_def
        min_def)
qed

lemma buf_wf_ensure [wf_intros]: "buf_wf b \<Longrightarrow> buf_wf (ensureWritableBytes n b)"
  by (simp add: ensureWritableBytes_def makeSpace_facts)

lemma readable_ensure [content_simps]:
  "buf_wf b \<Longrightarrow> readable (ensureWritableBytes n b) = readable b"
  by (simp add: ensureWritableBytes_def makeSpace_facts)

lemma writable_ensure: "buf_wf b \<Longrightarrow> n \<le> writableBytes (ensureWritableBytes n b)"
  by (auto simp: ensureWritableBytes_def not_less intro: makeSpace_facts)

lemma buf_append_facts:
  assumes "buf_wf b"
  shows "buf_wf (buf_append d b)" "readable (buf_append d b) = readable b @ d"
proof -
  let ?b1 = "ensureWritableBytes (length d) b"
  have wf: "buf_wf ?b1" and room: "length d \<le> writableBytes ?b1"
    using assms by (simp_all add: buf_wf_ensure writable_ensure)
  then have "writerIndex ?b1 + length d \<le> length (bytes ?b1)"
    by (simp add: writable_room)
  with wf show "buf_wf (buf_append d b)"
    by (simp add: buf_append_def Let_def buf_wf_def buf_sizes)
  have "readable (buf_append d b) = drop (readerIndex ?b1) (take (writerIndex ?b1) (bytes ?b1)) @ d"
    using wf slice_blit[of "readerIndex ?b1" "writerIndex ?b1" "bytes ?b1" d]
    by (simp add: buf_append_def Let_def buf_wf_def readable_def buf_sizes)
  also have "drop (readerIndex ?b1) (take (writerIndex ?b1) (bytes ?b1)) = readable ?b1"
    by (simp add: readable_def buf_sizes drop_take)
  finally show "readable (buf_append d b) = readable b @ d"
    using assms by (simp add: readable_ensure)
qed

lemma buf_wf_append [wf_intros]: "buf_wf b \<Longrightarrow> buf_wf (buf_append d b)"
  by (rule buf_append_facts)

lemma readable_append [content_simps]: "buf_wf b \<Longrightarrow> readable (buf_append d b) = readable b @ d"
  by (rule buf_append_facts)

text \<open>Filling the writable room in place: the first branch of \<open>readFd\<close> and the start of the second.\<close>

lemma fill_facts:
  assumes "buf_wf b" and "length d \<le> writableBytes b"
  defines "b' \<equiv> b\<lparr>bytes := blit (bytes b) (writerIndex b) d, writerIndex := writerIndex b + length d\<rparr>"
  shows "buf_wf b'" "readable b' = readable b @ d"
proof -
  have "writerIndex b + length d \<le> length (bytes b)"
    using assms(1,2) by (simp add: writable_room)
  with assms show "buf_wf b'" by (simp add: buf_wf_def buf_sizes)
  have "readable b' = drop (readerIndex b) (take (writerIndex b) (bytes b)) @ d"
    using assms slice_blit[of "readerIndex b" "writerIndex b" "bytes b" d]
    by (simp add: buf_wf_def readable_def buf_sizes)
  then show "readable b' = readable b @ d"
    by (simp add: readable_def buf_sizes drop_take)
qed

lemma readFd_facts:
  assumes "buf_wf b"
  shows "buf_wf (snd (snd (readFd (Inr data) b)))"
    and "readable (snd (snd (readFd (Inr data) b))) = readable b @ data"
    and "fst (readFd (Inr data) b) = int (length data)"
proof -
  let ?w = "writableBytes b" and ?d0 = "take (writableBytes b) data"
  let ?b0 = "b\<lparr>bytes := blit (bytes b) (writerIndex b) ?d0, writerIndex := writerIndex b + length ?d0\<rparr>"
  have b0: "buf_wf ?b0" "readable ?b0 = readable b @ ?d0"
    using fill_facts[OF assms, of ?d0] by simp_all
  have len: "\<not> length data \<le> ?w \<Longrightarrow> writerIndex b + length ?d0 = length (bytes b)"
    using assms by (auto simp: buf_wf_def buf_sizes)
  have eq: "snd (snd (readFd (Inr data) b)) =
          (if length data \<le> ?w then ?b0 else buf_append (drop ?w data) ?b0)"
    using len by (simp add: readFd_def Let_def)
  show "buf_wf (snd (snd (readFd (Inr data) b)))"
    and "readable (snd (snd (readFd (Inr data) b))) = readable b @ data"
    unfolding eq using b0 buf_append_facts[OF b0(1)] by (cases "length data \<le> ?w"; simp)+
  show "fst (readFd (Inr data) b) = int (length data)"
    by (simp add: readFd_def Let_def)
qed

lemma readFd_Inl [simp]: "readFd (Inl e) b = (- 1, Some e, b)"
  by (simp add: readFd_def)

lemma buf_wf_readFd [wf_intros]: "buf_wf b \<Longrightarrow> buf_wf (snd (snd (readFd rv b)))"
  by (cases rv) (simp_all add: readFd_facts)

lemma retrieveUntil_Inr:
  "buf_wf b \<Longrightarrow> n \<le> readableBytes b \<Longrightarrow> retrieveUntil (peek b + n) b = Inr (retrieve n b)"
  unfolding retrieveUntil_def buf_wf_def buf_sizes by (subgoal_tac "readerIndex b + n \<le> writerIndex b") auto

lemma retrieveAllAsString_eq:
  "buf_wf b \<Longrightarrow> retrieveAllAsString b = Inr (readable b, retrieveAll b)"
  by (simp add: retrieveAllAsString_def retrieveAsString_def readable_def retrieve_def
      buf_wf_def buf_sizes)

interpretation buf: byte_queue buf_wf readable buf_append retrieve
  by unfold_locales (simp_all add: wf_intros content_simps)

section \<open>Searching for the line end\<close>

lemma findCRLF_None_iff:
  "buf_wf b \<Longrightarrow> findCRLF b = None \<longleftrightarrow> std_search (readable b) kCRLF = length (readable b)"
  by (auto simp: findCRLF_def Let_def length_readable) (auto simp: buf_wf_def buf_sizes)

lemma findCRLF_Some_iff:
  "buf_wf b \<Longrightarrow> findCRLF b = Some i \<longleftrightarrow>
     i = peek b + std_search (readable b) kCRLF \<and> std_search (readable b) kCRLF < length (readable b)"
  using std_search_le[of "readable b" kCRLF]
  by (auto simp: findCRLF_def Let_def length_readable) (auto simp: buf_wf_def buf_sizes)

section \<open>Properties\<close>



text \<open>C27: a Buffer is a first-in first-out queue of bytes. In any run of appends and retrieves
  from a well-formed buffer, the bytes taken out followed by the bytes still readable are the
  bytes that were readable followed by the bytes appended, however often the buffer grew or moved
  its content to the front.\<close>

theorem buffer_fifo:
  assumes "buf_wf b" and "queue_run readable buf_append retrieve ops b = (out, b')"
  shows "out @ readable b' = readable b @ produced ops \<and> buf_wf b'"
  using buf.run_fifo[OF assms(1), of ops] buf.run_invar[OF assms(1), of ops] assms(2) by simp

theorem buffer_fifo_witness:
  "let b' = snd (queue_run readable buf_append retrieve [Put ''abc'', Get 2, Put ''de''] (new_buffer 1))
   in ''ab'' @ readable b' = ''abcde'' \<and> buf_wf b'"
proof -
  let ?ops = "[Put ''abc'', Get 2, Put ''de'']" and ?b = "new_buffer 1"
  have out: "fst (queue_run readable buf_append retrieve ?ops ?b) = ''ab''" by code_simp
  have "queue_run readable buf_append retrieve ?ops ?b =
      (''ab'', snd (queue_run readable buf_append retrieve ?ops ?b))"
    using out by (metis prod.collapse)
  from buffer_fifo[OF buf_wf_new this] show ?thesis by (simp add: Let_def)
qed

text \<open>\<open>readFd\<close> appends exactly the bytes that \<open>readv\<close> delivered, in order, also when they
  overflow the writable room into the stack buffer; it returns their number, and on an error it
  returns -1, saves the errno and leaves the buffer alone.\<close>

theorem readFd_correct:
  assumes "buf_wf b"
  shows "(\<exists>b'. readFd (Inr data) b = (int (length data), None, b') \<and> buf_wf b' \<and>
           readable b' = readable b @ data) \<and>
         readFd (Inl e) b = (- 1, Some e, b)"
proof -
  have "readFd (Inr data) b = (int (length data), None, snd (snd (readFd (Inr data) b)))"
    by (simp add: readFd_def Let_def)
  with readFd_facts[OF assms, of data] show ?thesis by auto
qed

theorem readFd_correct_witness:
  "\<exists>b'. readFd (Inr ''hello'') (new_buffer 2) = (5, None, b') \<and> readable b' = ''hello''"
proof -
  have "buf_wf (new_buffer 2)" by simp
  from readFd_correct[OF this, of "''hello''" 0] show ?thesis by auto
qed

text \<open>\<open>findCRLF\<close> returns the first line end: a hit lies with both of its bytes in the
  readable part and no CRLF starts before it; NULL means there is no CRLF in the readable part.\<close>

theorem findCRLF_correct:
  assumes "buf_wf b"
  shows "case findCRLF b of
      None \<Rightarrow> \<forall>i < readableBytes b. take 2 (drop i (readable b)) \<noteq> kCRLF
    | Some p \<Rightarrow> peek b \<le> p \<and> p + 2 \<le> beginWrite b \<and>
        take 2 (drop (p - peek b) (readable b)) = kCRLF \<and>
        (\<forall>i < p - peek b. take 2 (drop i (readable b)) \<noteq> kCRLF)"
proof (cases "findCRLF b")
  case None
  then have "std_search (readable b) kCRLF = length (readable b)"
    using assms by (simp add: findCRLF_None_iff)
  from std_search_miss[OF this] None show ?thesis
    using assms by (simp add: length_readable kCRLF_def numeral_2_eq_2)
next
  case (Some p)
  then have p: "p = peek b + std_search (readable b) kCRLF"
    and lt: "std_search (readable b) kCRLF < length (readable b)"
    using assms by (simp_all add: findCRLF_Some_iff)
  have "p + 2 \<le> beginWrite b"
    using std_search_hit_room[OF lt] p assms length_readable[OF assms]
    by (simp add: kCRLF_def buf_sizes buf_wf_def)
  with std_search_hit[OF lt] std_search_first[of _ "readable b" kCRLF] Some p show ?thesis
    by (simp add: kCRLF_def numeral_2_eq_2)
qed

theorem findCRLF_correct_witness:
  "let b = buf_append (''Host: a'' @ kCRLF) (new_buffer 16)
   in findCRLF b = Some 15 \<and> take 2 (drop 7 (readable b)) = kCRLF"
proof -
  define b where "b = buf_append (''Host: a'' @ kCRLF) (new_buffer 16)"
  have wf: "buf_wf b" by (simp add: b_def buf_wf_append)
  have f: "findCRLF b = Some 15" "peek b = 8" unfolding b_def by code_simp+
  from findCRLF_correct[OF wf] show ?thesis unfolding Let_def b_def[symmetric] by (simp add: f)
qed

text \<open>\<open>makeSpace\<close> grows the vector only when it must. Asked for \<open>n\<close> writable bytes, the buffer
  stays as it is when it has them; it moves its content to the front, at its old size, when the
  free bytes in front and behind suffice; and otherwise its size becomes exactly
  \<open>writerIndex_ + n\<close>. The readable bytes are the same in each case.\<close>

theorem ensureWritableBytes_growth:
  assumes "buf_wf b"
  shows "length (bytes (ensureWritableBytes n b)) =
      (if writableBytes b + prependableBytes b < n + kCheapPretend \<and> writableBytes b < n
       then writerIndex b + n else length (bytes b)) \<and>
    readable (ensureWritableBytes n b) = readable b \<and>
    (writableBytes b < n \<and> n + kCheapPretend \<le> writableBytes b + prependableBytes b \<longrightarrow>
       readerIndex (ensureWritableBytes n b) = kCheapPretend)"
proof (intro conjI)
  show "length (bytes (ensureWritableBytes n b)) =
      (if writableBytes b + prependableBytes b < n + kCheapPretend \<and> writableBytes b < n
       then writerIndex b + n else length (bytes b))"
    using assms length_readable[OF assms]
    by (auto simp: ensureWritableBytes_def makeSpace_def Let_def vec_resize_def)
      (auto simp: buf_wf_def buf_sizes)
  show "readable (ensureWritableBytes n b) = readable b"
    using assms by (rule readable_ensure)
qed (auto simp: ensureWritableBytes_def makeSpace_def Let_def)

theorem ensureWritableBytes_growth_witness:
  "length (bytes (ensureWritableBytes 5 (retrieve 3 (buf_append ''abcd'' (new_buffer 6))))) = 14"
proof -
  let ?b = "retrieve 3 (buf_append ''abcd'' (new_buffer 6))"
  have wf: "buf_wf ?b" by (simp add: wf_intros)
  have "writableBytes ?b = 2" "prependableBytes ?b = 11" "length (bytes ?b) = 14" by code_simp+
  then show ?thesis using ensureWritableBytes_growth[OF wf, of 5] by (simp add: kCheapPretend_def)
qed

end
