(* ===== verification/Inet_Address.thy ===== *)
theory Inet_Address
  imports Prelude
begin

unbundle bit_operations_syntax

text \<open>
  \<open>InetAddress\<close> (mymuduo/include/mymuduo/InetAddress.h, mymuduo/src/InetAddress.cc). A
  \<open>sockaddr_in\<close> holds the address as its four bytes in network order and the port in network byte
  order on a little-endian host. \<open>inet_addr\<close>, which reads the text of an address, is an argument.
\<close>

type_synonym in_addr = "8 word \<times> 8 word \<times> 8 word \<times> 8 word"

record sockaddr_in =
  sin_family :: nat
  sin_port :: "16 word"
  sin_addr :: in_addr

definition AF_INET :: nat where
  "AF_INET = 2"

definition htons :: "16 word \<Rightarrow> 16 word" where
  "htons p = push_bit 8 p OR drop_bit 8 p"

definition ntohs :: "16 word \<Rightarrow> 16 word" where
  "ntohs p = push_bit 8 p OR drop_bit 8 p"

definition new_inet_address ::
  "(string \<Rightarrow> in_addr) \<Rightarrow> 16 word \<Rightarrow> string \<Rightarrow> sockaddr_in" where
  "new_inet_address inet_addr port ip =
     \<lparr>sin_family = AF_INET, sin_port = htons port, sin_addr = inet_addr ip\<rparr>"

text \<open>\<open>inet_ntop\<close> prints the four bytes in decimal, and fails when the array is too short.\<close>

definition dotted :: "in_addr \<Rightarrow> string" where
  "dotted = (\<lambda>(a, b, c, d).
     show_nat (unat a) @ ''.'' @ show_nat (unat b) @ ''.'' @ show_nat (unat c) @ ''.'' @ show_nat (unat d))"

definition toIP :: "sockaddr_in \<Rightarrow> string" where
  "toIP a = (if length (dotted (sin_addr a)) < 64 then dotted (sin_addr a) else [])"

text \<open>\<open>sprintf\<close> does not look at the size of the array of 64 characters.\<close>

definition toIPport :: "sockaddr_in \<Rightarrow> string outcome" where
  "toIPport a =
     (let port = ntohs (sin_port a);
          written = toIP a @ '':'' @ show_nat (unat port)
      in bindR (require OutOfBounds (length written < 64)) (\<lambda>_. Inr written))"

definition toPort :: "sockaddr_in \<Rightarrow> 16 word" where
  "toPort a = ntohs (sin_port a)"

definition setSockAddr :: "sockaddr_in \<Rightarrow> sockaddr_in \<Rightarrow> sockaddr_in" where
  "setSockAddr addr a = addr"

lemma ntohs_htons [simp]: "ntohs (htons p) = p"
  unfolding ntohs_def htons_def
  by (rule bit_word_eqI) (auto simp: bit_simps)

lemma length_show_byte: "length (show_nat (unat b)) \<le> 3" for b :: "8 word"
  using unsigned_less[where 'a = nat, of b] by (intro length_show_nat) simp_all

lemma length_dotted: "length (dotted a) \<le> 15"
proof -
  obtain w x y z where a: "a = (w, x, y, z)" by (metis prod_cases4)
  from length_show_byte[of w] length_show_byte[of x] length_show_byte[of y] length_show_byte[of z]
  show ?thesis by (simp add: a dotted_def)
qed

lemma toIPport_facts:
  "toIPport a = Inr (dotted (sin_addr a) @ '':'' @ show_nat (unat (toPort a))) \<and>
    length (dotted (sin_addr a) @ '':'' @ show_nat (unat (toPort a))) \<le> 21 \<and>
    toPort (new_inet_address inet_addr port ip) = port"
proof -
  have "unat (toPort a) < 10 ^ 5" using unsigned_less[where 'a = nat, of "toPort a"] by simp
  then have "length (show_nat (unat (toPort a))) \<le> 5" by (rule length_show_nat) simp
  with length_dotted[of "sin_addr a"] show ?thesis
    by (simp add: toIPport_def toIP_def toPort_def Let_def new_inet_address_def)
qed

text \<open>C40: The textual form of an address. For any \<open>sockaddr_in\<close> the unchecked \<open>sprintf\<close> of \<open>toIPport\<close>
  stays inside its array of 64 characters: it writes at most 21, the dotted address, a colon and the
  decimal port; and the port of an address built from a port is that port again.\<close>

theorem toIPport_fits:
  "toIPport a = Inr (dotted (sin_addr a) @ '':'' @ show_nat (unat (toPort a))) \<and>
    length (dotted (sin_addr a) @ '':'' @ show_nat (unat (toPort a))) \<le> 21 \<and>
    toPort (new_inet_address inet_addr port ip) = port"
  by (rule toIPport_facts)

theorem toIPport_fits_witness:
  "toIPport \<lparr>sin_family = AF_INET, sin_port = htons 8080, sin_addr = (127, 0, 0, 1)\<rparr> = Inr ''127.0.0.1:8080''"
proof -
  let ?a = "\<lparr>sin_family = AF_INET, sin_port = htons 8080, sin_addr = (127, 0, 0, 1)\<rparr>"
  have port: "unat (toPort ?a) = 8080" by (simp add: toPort_def)
  have "dotted (sin_addr ?a) @ '':'' @ show_nat (unat (toPort ?a)) = ''127.0.0.1:8080''"
    unfolding port by (simp add: dotted_def show_nat.simps digit_char_def) code_simp
  with toIPport_fits[of ?a] show ?thesis by simp
qed

end
