(* ===== verification/Tcp_Connection.thy ===== *)
theory Tcp_Connection
  imports Event_Loop NetBuffer Inet_Address
begin

text \<open>
  \<open>TcpConnection\<close> (mymuduo/include/mymuduo/TcpConnection.h, mymuduo/src/TcpConnection.cc,
  Callbacks.h) and the socket calls it makes (Socket.cc). The world holds the event loops and the
  connections by their addresses, the \<open>std::string\<close> objects that callers own, and the log of socket
  calls. The kernel answers are functions of that log. A callback of a connection is present or
  empty; what it does when it is called is an argument.
\<close>

section \<open>State\<close>

datatype state_e = kDisconnected | kConnecting | kConnected | kDisconnecting

record tcp_connection =
  conn_loop :: nat
  conn_name :: string
  conn_state :: state_e
  reading :: bool
  conn_fd :: int
  conn_channel :: nat
  localAddr :: sockaddr_in
  peerAddr :: sockaddr_in
  connectionCallback_set :: bool
  messageCallback_set :: bool
  writeCompleteCallback_set :: bool
  closeCallback_set :: bool
  highWaterMarkCallback_set :: bool
  highWaterMark :: "64 word"
  inputBuffer :: buffer
  outputBuffer :: buffer

text \<open>
  The functors that connections queue on their loop, and those of the server (\<open>Tcp_Server\<close>).
  \<open>SendInLoopPtr\<close> binds the address and length of the caller's string, \<open>SendInLoop\<close> a copy.
\<close>

datatype conn_task =
    SendInLoop nat string
  | SendInLoopPtr nat nat "64 word"
  | ShutdownInLoop nat
  | WriteComplete nat
  | HighWaterMark nat bool "64 word"
  | ConnectEstablished nat
  | ConnectDestroyed nat

datatype task = ConnTask conn_task | RemoveConnectionInLoop nat | AcceptorListen

datatype sock_event =
    Wrote int string
  | WriteFailed int int
  | ReadData int string
  | ReadFailed int int
  | ShutWr int
  | GetSoError int
  | SetSockOpt int string bool
  | SockBind int sockaddr_in
  | SockListen int
  | SockAccept int int
  | SockClose int

record world =
  loops :: "nat \<Rightarrow> task event_loop"
  conns :: "nat \<Rightarrow> tcp_connection"
  sock_log :: "sock_event list"
  strings :: "nat \<rightharpoonup> string"

record kernel =
  k_ctl :: "nat \<Rightarrow> kctl"
  k_write :: "sock_event list \<Rightarrow> int \<Rightarrow> string \<Rightarrow> int + nat"
  k_read :: "sock_event list \<Rightarrow> int \<Rightarrow> int + string"

record 'w user_code =
  on_connection :: "nat \<Rightarrow> 'w \<Rightarrow> 'w outcome"
  on_message :: "nat \<Rightarrow> timestamp \<Rightarrow> 'w \<Rightarrow> 'w outcome"
  on_writeComplete :: "nat \<Rightarrow> 'w \<Rightarrow> 'w outcome"
  on_highWaterMark :: "nat \<Rightarrow> 64 word \<Rightarrow> 'w \<Rightarrow> 'w outcome"
  on_close :: "nat \<Rightarrow> 'w \<Rightarrow> 'w outcome"

definition get_loop :: "nat \<Rightarrow> 'z world_scheme \<Rightarrow> task event_loop" where
  "get_loop lid w = loops w lid"

definition put_loop :: "nat \<Rightarrow> task event_loop \<Rightarrow> 'z world_scheme \<Rightarrow> 'z world_scheme" where
  "put_loop lid l w = w\<lparr>loops := (loops w)(lid := l)\<rparr>"

definition on_loop ::
  "nat \<Rightarrow> (task event_loop \<Rightarrow> task event_loop outcome) \<Rightarrow> 'z world_scheme \<Rightarrow> 'z world_scheme outcome" where
  "on_loop lid f w = bindR (f (loops w lid)) (\<lambda>l. Inr (put_loop lid l w))"

definition log_sock :: "sock_event \<Rightarrow> 'z world_scheme \<Rightarrow> 'z world_scheme" where
  "log_sock e w = w\<lparr>sock_log := sock_log w @ [e]\<rparr>"

definition set_conn :: "nat \<Rightarrow> tcp_connection \<Rightarrow> 'z world_scheme \<Rightarrow> 'z world_scheme" where
  "set_conn c conn w = w\<lparr>conns := (conns w)(c := conn)\<rparr>"

definition setState :: "state_e \<Rightarrow> nat \<Rightarrow> 'z world_scheme \<Rightarrow> 'z world_scheme" where
  "setState s c w = set_conn c ((conns w c)\<lparr>conn_state := s\<rparr>) w"

text \<open>The loop and the channel of a connection.\<close>

definition loop_of :: "nat \<Rightarrow> 'z world_scheme \<Rightarrow> task event_loop" where
  "loop_of c w = loops w (conn_loop (conns w c))"

definition chan_of :: "nat \<Rightarrow> 'z world_scheme \<Rightarrow> channel" where
  "chan_of c w = chans (loop_of c w) (conn_channel (conns w c))"

text \<open>One of the channel's members (\<open>enableReading\<close>, ...) called on the connection's channel.\<close>

definition conn_channel_op ::
  "(kctl \<Rightarrow> nat \<Rightarrow> nat \<Rightarrow> task event_loop \<Rightarrow> task event_loop outcome) \<Rightarrow>
   kernel \<Rightarrow> nat \<Rightarrow> nat \<Rightarrow> 'z world_scheme \<Rightarrow> 'z world_scheme outcome" where
  "conn_channel_op f k tid c w =
     (let lid = conn_loop (conns w c) in on_loop lid (f (k_ctl k lid) tid (conn_channel (conns w c))) w)"

definition conn_queueInLoop :: "nat \<Rightarrow> nat \<Rightarrow> conn_task \<Rightarrow> 'z world_scheme \<Rightarrow> 'z world_scheme" where
  "conn_queueInLoop tid c t w =
     put_loop (conn_loop (conns w c)) (queueInLoop tid (ConnTask t) (loop_of c w)) w"

definition conn_runInLoop ::
  "nat \<Rightarrow> nat \<Rightarrow> conn_task \<Rightarrow> ('z world_scheme \<Rightarrow> 'z world_scheme outcome) \<Rightarrow>
   'z world_scheme \<Rightarrow> 'z world_scheme outcome" where
  "conn_runInLoop tid c t run w =
     runInLoop (get_loop (conn_loop (conns w c))) (put_loop (conn_loop (conns w c)))
       (\<lambda>_. run) tid (ConnTask t) w"

text \<open>A call of a \<open>std::function\<close> that may be empty.\<close>

definition call_callback :: "bool \<Rightarrow> ('w \<Rightarrow> 'w outcome) \<Rightarrow> 'w \<Rightarrow> 'w outcome" where
  "call_callback present f w = (if present then f w else Inl BadFunctionCall)"

definition connected :: "nat \<Rightarrow> 'z world_scheme \<Rightarrow> bool" where
  "connected c w \<longleftrightarrow> conn_state (conns w c) = kConnected"

section \<open>Memory that write and append read\<close>

text \<open>
  A \<open>const void *\<close> into a block of bytes: the block and an offset. \<open>data + d\<close> is computed in 64 bits;
  reading outside of the block is a fault.
\<close>

type_synonym data_ptr = "string \<times> nat"

definition mem_read :: "data_ptr \<Rightarrow> 64 word \<Rightarrow> 64 word \<Rightarrow> string outcome" where
  "mem_read data d n =
     (let (block, off) = data; start = of_nat off + d
      in bindR (require OutOfBounds (unat start + unat n \<le> length block)) (\<lambda>_.
         Inr (take (unat n) (drop (unat start) block))))"

text \<open>The bytes of a \<open>std::string\<close>, with the NUL behind them.\<close>

definition string_data :: "string \<Rightarrow> data_ptr" where
  "string_data s = (s @ [CHR 0x00], 0)"

text \<open>\<open>::write\<close> into a \<open>size_t\<close>: -1 becomes the largest number; the second value is \<open>errno\<close>.\<close>

definition sys_write :: "kernel \<Rightarrow> int \<Rightarrow> string \<Rightarrow> 'z world_scheme \<Rightarrow> (64 word \<times> int) \<times> 'z world_scheme" where
  "sys_write k fd data w =
     (case k_write k (sock_log w) fd data of
        Inl e \<Rightarrow> ((- 1, e), log_sock (WriteFailed fd e) w)
      | Inr n \<Rightarrow> ((of_nat n, 0), log_sock (Wrote fd (take n data)) w))"

definition EPIPE :: int where "EPIPE = 32"

definition ECONNRESET :: int where "ECONNRESET = 104"

definition EWOULDBLOCK :: int where "EWOULDBLOCK = 11"

section \<open>Sending\<close>

text \<open>
  The direct write at the head of \<open>sendInLoop\<close>: \<open>(nwrote, remaining, faultError)\<close>. The test
  \<open>nwrote >= 0\<close> compares a \<open>size_t\<close>.
\<close>

definition direct_write ::
  "kernel \<Rightarrow> nat \<Rightarrow> nat \<Rightarrow> data_ptr \<Rightarrow> 64 word \<Rightarrow> 'z world_scheme \<Rightarrow>
   ((64 word \<times> 64 word \<times> bool) \<times> 'z world_scheme) outcome" where
  "direct_write k tid c data len w =
     bindR (mem_read data 0 len) (\<lambda>bs.
     let ((nwrote, errno), w) = sys_write k (conn_fd (conns w c)) bs w in
     if 0 \<le> nwrote
     then let remaining = len - nwrote in
       Inr ((nwrote, remaining, False),
         if remaining = 0 \<and> writeCompleteCallback_set (conns w c)
         then conn_queueInLoop tid c (WriteComplete c) w else w)
     else Inr ((0, len, errno \<noteq> EWOULDBLOCK \<and> (errno = EPIPE \<or> errno = ECONNRESET)), w))"

text \<open>The second half: what is left goes to the output buffer.\<close>

definition keep_rest ::
  "kernel \<Rightarrow> nat \<Rightarrow> nat \<Rightarrow> data_ptr \<Rightarrow> 64 word \<Rightarrow> 64 word \<Rightarrow> 'z world_scheme \<Rightarrow> 'z world_scheme outcome" where
  "keep_rest k tid c data nwrote remaining w =
     (let conn = conns w c;
          oldLen = of_nat (readableBytes (outputBuffer conn));
          w = (if highWaterMark conn \<le> oldLen + remaining \<and> oldLen < highWaterMark conn \<and> highWaterMark conn \<noteq> 0
               then conn_queueInLoop tid c (HighWaterMark c (highWaterMarkCallback_set conn) (oldLen + remaining)) w
               else w)
      in bindR (mem_read data nwrote remaining) (\<lambda>rest.
         let w = set_conn c (conn\<lparr>outputBuffer := buf_append rest (outputBuffer conn)\<rparr>) w in
         if \<not> isWriting (chan_of c w) then conn_channel_op enableWriting k tid c w else Inr w))"

definition sendInLoop ::
  "kernel \<Rightarrow> nat \<Rightarrow> nat \<Rightarrow> data_ptr \<Rightarrow> 64 word \<Rightarrow> 'z world_scheme \<Rightarrow> 'z world_scheme outcome" where
  "sendInLoop k tid c data len w =
     (if conn_state (conns w c) = kDisconnected then Inr w
      else bindR
        (if \<not> isWriting (chan_of c w) \<and> readableBytes (outputBuffer (conns w c)) = 0
         then direct_write k tid c data len w
         else Inr ((0, len, False), w))
        (\<lambda>((nwrote, remaining, faultError), w).
           if \<not> faultError \<and> 0 < remaining then keep_rest k tid c data nwrote remaining w else Inr w))"

definition sendInLoop_string ::
  "kernel \<Rightarrow> nat \<Rightarrow> nat \<Rightarrow> string \<Rightarrow> 'z world_scheme \<Rightarrow> 'z world_scheme outcome" where
  "sendInLoop_string k tid c message w =
     sendInLoop k tid c (string_data message) (of_nat (length message)) w"

text \<open>\<open>sendInLoop(data, len)\<close> on the bytes of a caller's string, read when the call is made.\<close>

definition sendInLoop_ptr ::
  "kernel \<Rightarrow> nat \<Rightarrow> nat \<Rightarrow> nat \<Rightarrow> 64 word \<Rightarrow> 'z world_scheme \<Rightarrow> 'z world_scheme outcome" where
  "sendInLoop_ptr k tid c addr len w =
     (case strings w addr of
        None \<Rightarrow> Inl OutOfBounds
      | Some s \<Rightarrow> sendInLoop k tid c (string_data s) len w)"

text \<open>\<open>send(const std::string &buf)\<close>, with the address of the caller's string.\<close>

definition send_string :: "kernel \<Rightarrow> nat \<Rightarrow> nat \<Rightarrow> nat \<Rightarrow> 'z world_scheme \<Rightarrow> 'z world_scheme outcome" where
  "send_string k tid c addr w =
     (if conn_state (conns w c) = kConnected
      then case strings w addr of
          None \<Rightarrow> Inl OutOfBounds
        | Some s \<Rightarrow>
            let len = of_nat (length s) in
            if isInLoopThread tid (loop_of c w) then sendInLoop_ptr k tid c addr len w
            else conn_runInLoop tid c (SendInLoopPtr c addr len) (sendInLoop_ptr k tid c addr len) w
      else Inr w)"

text \<open>\<open>send(Buffer *buf)\<close>: the buffer afterwards, and the world.\<close>

definition send_buffer ::
  "kernel \<Rightarrow> nat \<Rightarrow> nat \<Rightarrow> buffer \<Rightarrow> 'z world_scheme \<Rightarrow> (buffer \<times> 'z world_scheme) outcome" where
  "send_buffer k tid c buf w =
     (if conn_state (conns w c) = kConnected
      then if isInLoopThread tid (loop_of c w)
        then bindR (sendInLoop k tid c (bytes buf, peek buf) (of_nat (readableBytes buf)) w) (\<lambda>w.
             Inr (retrieveAll buf, w))
        else bindR (retrieveAllAsString buf) (\<lambda>(message, buf).
             bindR (conn_runInLoop tid c (SendInLoop c message) (sendInLoop_string k tid c message) w) (\<lambda>w.
             Inr (buf, w)))
      else Inr (buf, w))"

section \<open>Shutdown\<close>

text \<open>\<open>Socket::shutdownWrite\<close> and \<open>Socket::setTcpNoDelay\<close>; their failure is only logged, or not seen.\<close>

definition socket_shutdownWrite :: "int \<Rightarrow> 'z world_scheme \<Rightarrow> 'z world_scheme" where
  "socket_shutdownWrite fd w = log_sock (ShutWr fd) w"

definition socket_setTcpNoDelay :: "int \<Rightarrow> bool \<Rightarrow> 'z world_scheme \<Rightarrow> 'z world_scheme" where
  "socket_setTcpNoDelay fd on w = log_sock (SetSockOpt fd ''TCP_NODELAY'' on) w"

declare socket_shutdownWrite_def [simp] socket_setTcpNoDelay_def [simp]

definition shutdownInLoop :: "nat \<Rightarrow> 'z world_scheme \<Rightarrow> 'z world_scheme" where
  "shutdownInLoop c w =
     (if \<not> isWriting (chan_of c w) then socket_shutdownWrite (conn_fd (conns w c)) w else w)"

definition shutdown :: "nat \<Rightarrow> nat \<Rightarrow> 'z world_scheme \<Rightarrow> 'z world_scheme outcome" where
  "shutdown tid c w =
     (if conn_state (conns w c) = kConnected
      then conn_runInLoop tid c (ShutdownInLoop c) (\<lambda>w. Inr (shutdownInLoop c w)) (setState kDisconnecting c w)
      else Inr w)"

definition setTcpNoDelay :: "bool \<Rightarrow> nat \<Rightarrow> 'z world_scheme \<Rightarrow> 'z world_scheme" where
  "setTcpNoDelay on c w = socket_setTcpNoDelay (conn_fd (conns w c)) on w"

section \<open>Handlers\<close>

definition handleClose ::
  "kernel \<Rightarrow> 'z world_scheme user_code \<Rightarrow> nat \<Rightarrow> nat \<Rightarrow> 'z world_scheme \<Rightarrow> 'z world_scheme outcome" where
  "handleClose k u tid c w =
     bindR (conn_channel_op disableAll k tid c (setState kDisconnected c w)) (\<lambda>w.
     bindR (call_callback (connectionCallback_set (conns w c)) (on_connection u c) w) (\<lambda>w.
     call_callback (closeCallback_set (conns w c)) (on_close u c) w))"

definition handleError :: "nat \<Rightarrow> 'z world_scheme \<Rightarrow> 'z world_scheme outcome" where
  "handleError c w = Inr (log_sock (GetSoError (conn_fd (conns w c))) w)"

definition handleRead ::
  "kernel \<Rightarrow> 'z world_scheme user_code \<Rightarrow> nat \<Rightarrow> nat \<Rightarrow> timestamp \<Rightarrow> 'z world_scheme \<Rightarrow> 'z world_scheme outcome" where
  "handleRead k u tid c receiveTime w =
     (let conn = conns w c; fd = conn_fd conn; answer = k_read k (sock_log w) fd;
          (n, savedErrno, buf) = readFd answer (inputBuffer conn);
          w = set_conn c (conn\<lparr>inputBuffer := buf\<rparr>)
                (log_sock (case answer of Inl e \<Rightarrow> ReadFailed fd e | Inr data \<Rightarrow> ReadData fd data) w)
      in if 0 < n then call_callback (messageCallback_set conn) (on_message u c receiveTime) w
         else if n = 0 then handleClose k u tid c w
         else handleError c w)"

definition handleWrite :: "kernel \<Rightarrow> nat \<Rightarrow> nat \<Rightarrow> 'z world_scheme \<Rightarrow> 'z world_scheme outcome" where
  "handleWrite k tid c w =
     (if isWriting (chan_of c w)
      then
        let conn = conns w c; fd = conn_fd conn; out = outputBuffer conn;
            (n, savedErrno, sent) = writeFd (k_write k (sock_log w) fd (readable out)) out;
            w = log_sock (case savedErrno of Some e \<Rightarrow> WriteFailed fd e | None \<Rightarrow> Wrote fd sent) w
        in if 0 < n
           then
             let out = retrieve (nat n) out; w = set_conn c (conn\<lparr>outputBuffer := out\<rparr>) w in
             if readableBytes out = 0
             then bindR (conn_channel_op disableWriting k tid c w) (\<lambda>w.
               let w = (if writeCompleteCallback_set conn then conn_queueInLoop tid c (WriteComplete c) w else w) in
               if conn_state (conns w c) = kDisconnecting then Inr (shutdownInLoop c w) else Inr w)
             else Inr w
           else Inr w
      else Inr w)"

section \<open>Establishing and destroying\<close>

definition connectEstablished ::
  "kernel \<Rightarrow> 'z world_scheme user_code \<Rightarrow> nat \<Rightarrow> nat \<Rightarrow> 'z world_scheme \<Rightarrow> 'z world_scheme outcome" where
  "connectEstablished k u tid c w =
     bindR (conn_channel_op (\<lambda>_ _ ptr l. Inr (channel_tie c ptr l)) k tid c (setState kConnected c w)) (\<lambda>w.
     bindR (conn_channel_op enableReading k tid c w) (\<lambda>w.
     call_callback (connectionCallback_set (conns w c)) (on_connection u c) w))"

definition connectDestroyed ::
  "kernel \<Rightarrow> 'z world_scheme user_code \<Rightarrow> nat \<Rightarrow> nat \<Rightarrow> 'z world_scheme \<Rightarrow> 'z world_scheme outcome" where
  "connectDestroyed k u tid c w =
     bindR
       (if conn_state (conns w c) = kConnected
        then bindR (conn_channel_op disableAll k tid c (setState kDisconnected c w)) (\<lambda>w.
          call_callback (connectionCallback_set (conns w c)) (on_connection u c) w)
        else Inr w)
       (\<lambda>w. conn_channel_op (\<lambda>kc _. channel_remove kc) k tid c w)"

text \<open>The constructor, for an object at \<open>c\<close> with its channel at \<open>ptr\<close>; the loop may be a null pointer.\<close>

definition kHighWaterMark :: "64 word" where
  "kHighWaterMark = 64 * 1024 * 1024"

definition new_tcp_connection ::
  "nat \<Rightarrow> nat \<Rightarrow> nat option \<Rightarrow> string \<Rightarrow> int \<Rightarrow> sockaddr_in \<Rightarrow> sockaddr_in \<Rightarrow>
   'z world_scheme \<Rightarrow> 'z world_scheme outcome" where
  "new_tcp_connection c ptr loop name sockfd local peer w =
     (case loop of
        None \<Rightarrow> Inl Aborted
      | Some lid \<Rightarrow>
          let conn = \<lparr>conn_loop = lid, conn_name = name, conn_state = kConnecting, reading = True,
                conn_fd = sockfd, conn_channel = ptr, localAddr = local, peerAddr = peer,
                connectionCallback_set = False, messageCallback_set = False,
                writeCompleteCallback_set = False, closeCallback_set = False,
                highWaterMarkCallback_set = False, highWaterMark = kHighWaterMark,
                inputBuffer = new_buffer kInitialSize, outputBuffer = new_buffer kInitialSize\<rparr>;
              w = put_loop lid (set_chan ptr (new_channel lid sockfd) (loops w lid)) w
          in Inr (log_sock (SetSockOpt sockfd ''SO_KEEPALIVE'' True) (set_conn c conn w)))"

definition setHighWaterMarkCallback :: "bool \<Rightarrow> 64 word \<Rightarrow> nat \<Rightarrow> 'z world_scheme \<Rightarrow> 'z world_scheme" where
  "setHighWaterMarkCallback present mark c w =
     set_conn c ((conns w c)\<lparr>highWaterMarkCallback_set := present, highWaterMark := mark\<rparr>) w"

text \<open>The other setters; of a callback the model keeps whether it is there.\<close>

definition setConnectionCallback :: "bool \<Rightarrow> tcp_connection \<Rightarrow> tcp_connection" where
  "setConnectionCallback cb conn = conn\<lparr>connectionCallback_set := cb\<rparr>"

definition setMessageCallback :: "bool \<Rightarrow> tcp_connection \<Rightarrow> tcp_connection" where
  "setMessageCallback cb conn = conn\<lparr>messageCallback_set := cb\<rparr>"

definition setWriteCompleteCallback :: "bool \<Rightarrow> tcp_connection \<Rightarrow> tcp_connection" where
  "setWriteCompleteCallback cb conn = conn\<lparr>writeCompleteCallback_set := cb\<rparr>"

definition setCloseCallback :: "bool \<Rightarrow> tcp_connection \<Rightarrow> tcp_connection" where
  "setCloseCallback cb conn = conn\<lparr>closeCallback_set := cb\<rparr>"

declare setConnectionCallback_def [simp] setMessageCallback_def [simp] setWriteCompleteCallback_def [simp]
  setCloseCallback_def [simp]

section \<open>The callbacks of the channel, and the functors\<close>

definition conn_handlers ::
  "kernel \<Rightarrow> 'z world_scheme user_code \<Rightarrow> nat \<Rightarrow> nat \<Rightarrow> 'z world_scheme handlers" where
  "conn_handlers k u tid c =
     (let h = no_handlers;
          h = channel_setReadCallback (handleRead k u tid c) h;
          h = channel_setWriteCallback (handleWrite k tid c) h;
          h = channel_setCloseCallback (handleClose k u tid c) h
      in channel_setErrorCallback (handleError c) h)"

fun conn_exec ::
  "kernel \<Rightarrow> 'z world_scheme user_code \<Rightarrow> nat \<Rightarrow> conn_task \<Rightarrow> 'z world_scheme \<Rightarrow> 'z world_scheme outcome" where
  "conn_exec k u tid (SendInLoop c message) w = sendInLoop_string k tid c message w"
| "conn_exec k u tid (SendInLoopPtr c addr len) w = sendInLoop_ptr k tid c addr len w"
| "conn_exec k u tid (ShutdownInLoop c) w = Inr (shutdownInLoop c w)"
| "conn_exec k u tid (WriteComplete c) w = on_writeComplete u c w"
| "conn_exec k u tid (HighWaterMark c present n) w = call_callback present (on_highWaterMark u c n) w"
| "conn_exec k u tid (ConnectEstablished c) w = connectEstablished k u tid c w"
| "conn_exec k u tid (ConnectDestroyed c) w = connectDestroyed k u tid c w"

section \<open>The world, field by field\<close>

lemma put_loop_simps [simp]:
  "loops (put_loop lid l w) = (loops w)(lid := l)" "conns (put_loop lid l w) = conns w"
  "sock_log (put_loop lid l w) = sock_log w" "strings (put_loop lid l w) = strings w"
  by (simp_all add: put_loop_def)

lemma set_conn_simps [simp]:
  "loops (set_conn c conn w) = loops w" "conns (set_conn c conn w) = (conns w)(c := conn)"
  "sock_log (set_conn c conn w) = sock_log w" "strings (set_conn c conn w) = strings w"
  by (simp_all add: set_conn_def)

lemma log_sock_simps [simp]:
  "loops (log_sock e w) = loops w" "conns (log_sock e w) = conns w"
  "sock_log (log_sock e w) = sock_log w @ [e]" "strings (log_sock e w) = strings w"
  by (simp_all add: log_sock_def)

lemma setState_simps [simp]:
  "loops (setState s c w) = loops w" "conns (setState s c w) = (conns w)(c := (conns w c)\<lparr>conn_state := s\<rparr>)"
  "sock_log (setState s c w) = sock_log w" "strings (setState s c w) = strings w"
  by (simp_all add: setState_def)

lemma conn_queueInLoop_simps [simp]:
  "conns (conn_queueInLoop tid c t w) = conns w" "sock_log (conn_queueInLoop tid c t w) = sock_log w"
  "strings (conn_queueInLoop tid c t w) = strings w"
  "loops (conn_queueInLoop tid c t w) =
     (loops w)(conn_loop (conns w c) := queueInLoop tid (ConnTask t) (loops w (conn_loop (conns w c))))"
  by (simp_all add: conn_queueInLoop_def loop_of_def)

lemma more_simps [simp]:
  "world.more (put_loop lid l w) = world.more w" "world.more (set_conn c conn w) = world.more w"
  "world.more (log_sock e w) = world.more w" "world.more (setState s c w) = world.more w"
  "world.more (conn_queueInLoop tid c t w) = world.more w"
  by (simp_all add: put_loop_def set_conn_def log_sock_def setState_def conn_queueInLoop_def)

interpretation in_world: loop_in "get_loop lid" "put_loop lid" for lid
  by unfold_locales (simp_all add: get_loop_def put_loop_def)

section \<open>Reading memory\<close>

text \<open>A pointer to the bytes of \<open>msg\<close>, inside a block that an address space can hold.\<close>

definition points_to :: "data_ptr \<Rightarrow> string \<Rightarrow> bool" where
  "points_to data msg \<longleftrightarrow>
     (let (block, off) = data in
      off + length msg \<le> length block \<and> off + length msg < 2 ^ 64 \<and> take (length msg) (drop off block) = msg)"

lemma points_to_string: "length s < 2 ^ 64 \<Longrightarrow> points_to (string_data s) s"
  by (simp add: points_to_def string_data_def)

lemma points_to_buffer:
  "buf_wf b \<Longrightarrow> length (bytes b) < 2 ^ 64 \<Longrightarrow> points_to (bytes b, peek b) (readable b)"
  using length_readable[of b] by (auto simp: points_to_def readable_def buf_wf_def buf_sizes)

lemma mem_read_slice:
  assumes "points_to data msg" and "d + n \<le> length msg"
  shows "mem_read data (of_nat d) (of_nat n) = Inr (take n (drop d msg))"
proof -
  obtain block off where data: "data = (block, off)" by (cases data)
  with assms have len: "off + length msg \<le> length block" "off + length msg < 2 ^ 64"
    and msg: "take (length msg) (drop off block) = msg" by (simp_all add: points_to_def)
  have start: "unat (of_nat off + of_nat d :: 64 word) = off + d" "unat (of_nat n :: 64 word) = n"
    using len assms(2) by (simp_all flip: of_nat_add add: unat_of_nat take_bit_nat_eq_self)
  have "take n (drop d msg) = take n (drop d (take (length msg) (drop off block)))" by (simp add: msg)
  also have "\<dots> = take n (drop (off + d) block)"
    using assms(2) by (simp add: drop_take add.commute min_def)
  finally show ?thesis using len assms(2) start by (simp add: mem_read_def data Let_def)
qed

lemmas mem_read_all = mem_read_slice[where d = 0, simplified]

section \<open>What a connection relies on, and its invariant\<close>

text \<open>
  The calling thread runs the connection's loop, the loop's channels are in order and the
  connection's channel is one of them; the kernel accepts legal \<open>epoll_ctl\<close> calls.
\<close>

definition in_loop :: "kernel \<Rightarrow> nat \<Rightarrow> nat \<Rightarrow> 'z world_scheme \<Rightarrow> bool" where
  "in_loop k tid c w \<longleftrightarrow>
     loop_ok (loop_of c w) \<and> threadId (loop_of c w) = tid \<and>
     accepts_legal (k_ctl k (conn_loop (conns w c))) \<and>
     (\<exists>S. owns S (loop_of c w) \<and> conn_channel (conns w c) \<in> S)"

text \<open>While it is up, a connection watches for writability exactly when it has something to write.\<close>

definition conn_inv :: "nat \<Rightarrow> 'z world_scheme \<Rightarrow> bool" where
  "conn_inv c w \<longleftrightarrow>
     buf_wf (inputBuffer (conns w c)) \<and> buf_wf (outputBuffer (conns w c)) \<and>
     (conn_state (conns w c) \<in> {kConnected, kDisconnecting} \<longrightarrow>
        (isWriting (chan_of c w) \<longleftrightarrow> readable (outputBuffer (conns w c)) \<noteq> []))"

text \<open>The bytes the kernel has taken for a descriptor, and the stream a connection has committed to.\<close>

fun sent :: "int \<Rightarrow> sock_event list \<Rightarrow> string" where
  "sent fd [] = []"
| "sent fd (Wrote f d # es) = (if f = fd then d @ sent fd es else sent fd es)"
| "sent fd (_ # es) = sent fd es"

lemma sent_append [simp]: "sent fd (es @ es') = sent fd es @ sent fd es'"
  by (induction fd es rule: sent.induct) auto

definition out_stream :: "nat \<Rightarrow> 'z world_scheme \<Rightarrow> string" where
  "out_stream c w = sent (conn_fd (conns w c)) (sock_log w) @ readable (outputBuffer (conns w c))"

lemma in_loop_same:
  assumes "in_loop k tid c w" and "loop_of c w' = loop_of c w"
    and "conn_loop (conns w' c) = conn_loop (conns w c)" "conn_channel (conns w' c) = conn_channel (conns w c)"
  shows "in_loop k tid c w'"
  using assms by (simp add: in_loop_def)

lemma in_loop_queue:
  assumes "in_loop k tid c w"
  shows "in_loop k tid c (conn_queueInLoop tid' d t w)"
  using assms by (auto simp: in_loop_def loop_of_def)

lemma chan_of_queue [simp]: "chan_of c (conn_queueInLoop tid d t w) = chan_of c w"
  by (simp add: chan_of_def loop_of_def)

lemma chan_of_log [simp]: "chan_of c (log_sock e w) = chan_of c w" "loop_of c (log_sock e w) = loop_of c w"
  by (simp_all add: chan_of_def loop_of_def)

text \<open>A change of the channel's events succeeds; only the loop changes.\<close>

definition events_set :: "32 word \<Rightarrow> nat \<Rightarrow> 'z world_scheme \<Rightarrow> 'z world_scheme" where
  "events_set ev c w =
     put_loop (conn_loop (conns w c)) (updated (conn_channel (conns w c)) ev (loop_of c w)) w"

lemma events_set_simps [simp]:
  "conns (events_set ev c w) = conns w" "sock_log (events_set ev c w) = sock_log w"
  "strings (events_set ev c w) = strings w" "world.more (events_set ev c w) = world.more w"
  by (simp_all add: events_set_def)

lemma chan_of_events_set [simp]: "chan_events (chan_of c (events_set ev c w)) = ev"
  by (simp add: chan_of_def loop_of_def events_set_def updated_fields)

lemma conn_update:
  assumes "in_loop k tid c w"
    and "\<And>kc tid ptr l. f kc tid ptr l = channel_update kc tid ptr (set_events (g (chan_events (chans l ptr))) ptr l)"
  shows "conn_channel_op f k tid c w = Inr (events_set (g (chan_events (chan_of c w))) c w)"
    and "in_loop k tid c (events_set ev c w)"
proof -
  from assms(1) obtain S where ok: "loop_ok (loop_of c w)" "owns S (loop_of c w)"
    "conn_channel (conns w c) \<in> S" "accepts_legal (k_ctl k (conn_loop (conns w c)))"
    "threadId (loop_of c w) = tid" by (auto simp: in_loop_def)
  note step = channel_update_step[OF this]
  show "conn_channel_op f k tid c w = Inr (events_set (g (chan_events (chan_of c w))) c w)"
    using step(1) by (simp add: conn_channel_op_def on_loop_def assms(2) chan_of_def events_set_def
        loop_of_def Let_def)
  show "in_loop k tid c (events_set ev c w)"
    using ok(3,4,5) step(2,3) by (auto simp: in_loop_def events_set_def loop_of_def updated_fields(1))
qed

lemmas conn_updates =
  conn_update(1)[where f = enableWriting and g = "\<lambda>ev. ev OR kWriteEvent", OF _ enableWriting_def]
  conn_update(1)[where f = disableWriting and g = "\<lambda>ev. ev AND NOT kWriteEvent", OF _ disableWriting_def]
  conn_update(1)[where f = enableReading and g = "\<lambda>ev. ev OR kReadEvent", OF _ enableReading_def]
  conn_update(1)[where f = disableAll and g = "\<lambda>ev. ev AND kNoneEvent", OF _ disableAll_def]

lemmas in_loop_events_set = conn_update(2)[where f = enableReading and g = "\<lambda>ev. ev OR kReadEvent",
    OF _ enableReading_def]

lemma writing_bit [simp]:
  "has_bits (ev OR kWriteEvent) kWriteEvent" "\<not> has_bits (ev AND NOT kWriteEvent) kWriteEvent"
  "\<not> has_bits (ev AND kNoneEvent) kWriteEvent"
proof -
  have "(ev OR 4) AND 4 = (4 :: 32 word)" by (rule bit_word_eqI) (auto simp: bit_simps)
  moreover have "(ev AND NOT 4) AND 4 = (0 :: 32 word)" by (rule bit_word_eqI) (auto simp: bit_simps)
  ultimately show "has_bits (ev OR kWriteEvent) kWriteEvent" "\<not> has_bits (ev AND NOT kWriteEvent) kWriteEvent"
    "\<not> has_bits (ev AND kNoneEvent) kWriteEvent"
    by (simp_all add: has_bits_def kWriteEvent_def EPOLLOUT_def kNoneEvent_def)
qed

lemma readableBytes_0: "buf_wf b \<Longrightarrow> readableBytes b = 0 \<longleftrightarrow> readable b = []"
  using length_readable[of b] by auto

section \<open>Sending, step by step\<close>

lemma in_loop_set_out:
  "in_loop k tid c w \<Longrightarrow> in_loop k tid c (set_conn c ((conns w c)\<lparr>outputBuffer := b\<rparr>) w)"
  by (rule in_loop_same[where w = w]) (simp_all add: loop_of_def)

lemma keep_rest_facts:
  assumes "in_loop k tid c w" and "buf_wf (outputBuffer (conns w c))" and "points_to data msg"
    and "n \<le> length msg"
  shows "\<exists>w' b. keep_rest k tid c data (of_nat n) (of_nat (length msg - n)) w = Inr w' \<and>
    conns w' = (conns w)(c := (conns w c)\<lparr>outputBuffer := b\<rparr>) \<and> buf_wf b \<and>
    readable b = readable (outputBuffer (conns w c)) @ drop n msg \<and> sock_log w' = sock_log w \<and>
    strings w' = strings w \<and> isWriting (chan_of c w') \<and> in_loop k tid c w'"
proof -
  let ?conn = "conns w c" and ?rem = "of_nat (length msg - n) :: 64 word"
  let ?b = "buf_append (drop n msg) (outputBuffer ?conn)"
  let ?old = "of_nat (readableBytes (outputBuffer ?conn)) :: 64 word"
  let ?high = "highWaterMark ?conn \<le> ?old + ?rem \<and> ?old < highWaterMark ?conn \<and> highWaterMark ?conn \<noteq> 0"
  define w1 where "w1 = (if ?high
    then conn_queueInLoop tid c (HighWaterMark c (highWaterMarkCallback_set ?conn) (?old + ?rem)) w else w)"
  have w1: "conns w1 = conns w" "sock_log w1 = sock_log w" "strings w1 = strings w" "in_loop k tid c w1"
    using assms(1) by (simp_all add: w1_def in_loop_queue)
  define w2 where "w2 = set_conn c (?conn\<lparr>outputBuffer := ?b\<rparr>) w1"
  have in2: "in_loop k tid c w2" using in_loop_set_out[OF w1(4), of ?b] by (simp add: w2_def w1(1))
  have rest: "mem_read data (of_nat n) ?rem = Inr (drop n msg)"
    using mem_read_slice[OF assms(3), of n "length msg - n"] assms(4) by simp
  have eq: "keep_rest k tid c data (of_nat n) ?rem w =
      (if \<not> isWriting (chan_of c w2) then conn_channel_op enableWriting k tid c w2 else Inr w2)"
    unfolding keep_rest_def Let_def w1_def[symmetric] rest by (simp add: w2_def)
  have facts: "conns w2 = (conns w)(c := ?conn\<lparr>outputBuffer := ?b\<rparr>)" "sock_log w2 = sock_log w"
    "strings w2 = strings w" by (simp_all add: w2_def w1)
  have b: "buf_wf ?b" "readable ?b = readable (outputBuffer ?conn) @ drop n msg"
    using assms(2) by (simp_all add: buf_wf_append readable_append)
  show ?thesis
  proof (cases "isWriting (chan_of c w2)")
    case True
    with eq facts b in2 show ?thesis by (intro exI[of _ w2] exI[of _ ?b]) simp
  next
    case False
    let ?w3 = "events_set (chan_events (chan_of c w2) OR kWriteEvent) c w2"
    have "keep_rest k tid c data (of_nat n) ?rem w = Inr ?w3"
      using False eq conn_updates(1)[OF in2] by simp
    moreover have "isWriting (chan_of c ?w3)" by (simp add: isWriting_def)
    ultimately show ?thesis
      using facts b in_loop_events_set[OF in2] by (intro exI[of _ ?w3] exI[of _ ?b]) simp
  qed
qed

lemma direct_write_eq:
  assumes "points_to data msg" and "k_write k (sock_log w) (conn_fd (conns w c)) msg = Inr n"
    and "n \<le> length msg"
  shows "direct_write k tid c data (of_nat (length msg)) w =
    Inr ((of_nat n, of_nat (length msg - n), False),
      if (of_nat (length msg - n) :: 64 word) = 0 \<and> writeCompleteCallback_set (conns w c)
      then conn_queueInLoop tid c (WriteComplete c) (log_sock (Wrote (conn_fd (conns w c)) (take n msg)) w)
      else log_sock (Wrote (conn_fd (conns w c)) (take n msg)) w)"
  using mem_read_all[OF assms(1), of "length msg"] assms(2,3)
  by (simp add: direct_write_def sys_write_def Let_def of_nat_diff)

lemma points_to_length: "points_to data msg \<Longrightarrow> length msg < 2 ^ 64"
  by (auto simp: points_to_def split: prod.splits)

lemma of_nat_64_eq_0: "n < 2 ^ 64 \<Longrightarrow> (of_nat n :: 64 word) = 0 \<longleftrightarrow> n = 0"
  by (auto simp: word_of_nat_eq_0_iff dest: dvd_imp_le)

text \<open>
  \<open>sendInLoop\<close> while the connection is up, when the direct write (if there is one) does not fail:
  the message joins the stream, and nothing else of the connection changes.
\<close>

lemma sendInLoop_facts:
  assumes "in_loop k tid c w" and "conn_inv c w" and "points_to data msg"
    and "conn_state (conns w c) \<in> {kConnected, kDisconnecting}"
    and "\<not> isWriting (chan_of c w) \<Longrightarrow>
      \<exists>n \<le> length msg. k_write k (sock_log w) (conn_fd (conns w c)) msg = Inr n"
  shows "\<exists>w' b evs. sendInLoop k tid c data (of_nat (length msg)) w = Inr w' \<and>
    conns w' = (conns w)(c := (conns w c)\<lparr>outputBuffer := b\<rparr>) \<and> in_loop k tid c w' \<and> conn_inv c w' \<and>
    out_stream c w' = out_stream c w @ msg \<and> strings w' = strings w \<and>
    sock_log w' = sock_log w @ evs \<and> (\<forall>e \<in> set evs. \<exists>d. e = Wrote (conn_fd (conns w c)) d) \<and>
    (isWriting (chan_of c w) \<longrightarrow> evs = [])"
proof -
  let ?conn = "conns w c" and ?fd = "conn_fd (conns w c)"
  have wf: "buf_wf (outputBuffer ?conn)" "buf_wf (inputBuffer ?conn)"
    and watch: "isWriting (chan_of c w) \<longleftrightarrow> readable (outputBuffer ?conn) \<noteq> []"
    using assms(2,4) unfolding conn_inv_def by blast+
  have up: "conn_state ?conn \<noteq> kDisconnected" using assms(4) by auto
  note len = points_to_length[OF assms(3)]
  show ?thesis
  proof (cases "isWriting (chan_of c w)")
    case True
    have eq: "sendInLoop k tid c data (of_nat (length msg)) w =
        (if 0 < (of_nat (length msg) :: 64 word) then keep_rest k tid c data 0 (of_nat (length msg)) w else Inr w)"
      using True up by (simp add: sendInLoop_def)
    show ?thesis
    proof (cases "msg = []")
      case True
      with eq assms(1,2) show ?thesis by (intro exI[of _ w] exI[of _ "outputBuffer ?conn"] exI[of _ "[]"]) simp
    next
      case False
      with len have pos: "0 < (of_nat (length msg) :: 64 word)" by (simp add: word_gt_0 of_nat_64_eq_0)
      from keep_rest_facts[OF assms(1) wf(1) assms(3), of 0]
      obtain w' b where w': "keep_rest k tid c data 0 (of_nat (length msg)) w = Inr w'"
        "conns w' = (conns w)(c := ?conn\<lparr>outputBuffer := b\<rparr>)" "buf_wf b"
        "readable b = readable (outputBuffer ?conn) @ msg" "sock_log w' = sock_log w"
        "strings w' = strings w" "isWriting (chan_of c w')" "in_loop k tid c w'" by auto
      with False wf show ?thesis
        by (intro exI[of _ w'] exI[of _ b] exI[of _ "[]"]) (simp add: eq pos conn_inv_def out_stream_def True)
    qed
  next
    case False
    with assms(5) obtain n where n: "n \<le> length msg" "k_write k (sock_log w) ?fd msg = Inr n" by blast
    have idle: "readable (outputBuffer ?conn) = []" "readableBytes (outputBuffer ?conn) = 0"
      using False watch wf(1) by (simp_all add: readableBytes_0)
    define w1 where "w1 = (if (of_nat (length msg - n) :: 64 word) = 0 \<and> writeCompleteCallback_set ?conn
      then conn_queueInLoop tid c (WriteComplete c) (log_sock (Wrote ?fd (take n msg)) w)
      else log_sock (Wrote ?fd (take n msg)) w)"
    have w1: "conns w1 = conns w" "sock_log w1 = sock_log w @ [Wrote ?fd (take n msg)]" "strings w1 = strings w"
      "chan_of c w1 = chan_of c w" by (simp_all add: w1_def)
    have in1: "in_loop k tid c w1"
      unfolding w1_def using in_loop_same[OF assms(1), of "log_sock (Wrote ?fd (take n msg)) w"]
      by (simp add: in_loop_queue)
    have eq: "sendInLoop k tid c data (of_nat (length msg)) w =
        (if 0 < (of_nat (length msg - n) :: 64 word)
         then keep_rest k tid c data (of_nat n) (of_nat (length msg - n)) w1 else Inr w1)"
      using False up idle direct_write_eq[where tid = tid, OF assms(3) n(2,1)]
      by (simp add: sendInLoop_def w1_def)
    show ?thesis
    proof (cases "n = length msg")
      case True
      with eq have "sendInLoop k tid c data (of_nat (length msg)) w = Inr w1" by simp
      then show ?thesis
        using in1 assms(2) True idle w1
        by (intro exI[of _ w1] exI[of _ "outputBuffer ?conn"] exI[of _ "[Wrote ?fd (take n msg)]"])
          (simp add: conn_inv_def out_stream_def False)
    next
      case rest: False
      have "length msg - n < 2 ^ 64" "length msg - n \<noteq> 0" using len n(1) rest by auto
      then have "(of_nat (length msg - n) :: 64 word) \<noteq> 0" by (subst of_nat_64_eq_0)
      then have pos: "0 < (of_nat (length msg - n) :: 64 word)" by (simp only: word_gt_0)
      from keep_rest_facts[OF in1 _ assms(3) n(1)] wf(1)
      obtain w' b where w': "keep_rest k tid c data (of_nat n) (of_nat (length msg - n)) w1 = Inr w'"
        "conns w' = (conns w)(c := ?conn\<lparr>outputBuffer := b\<rparr>)" "buf_wf b" "readable b = drop n msg"
        "sock_log w' = sock_log w @ [Wrote ?fd (take n msg)]"
        "strings w' = strings w" "isWriting (chan_of c w')" "in_loop k tid c w'"
        by (auto simp: w1 idle)
      have "sendInLoop k tid c data (of_nat (length msg)) w = Inr w'"
        using eq pos w'(1) by (simp only: if_True)
      with w' rest wf n(1) idle show ?thesis
        by (intro exI[of _ w'] exI[of _ b] exI[of _ "[Wrote ?fd (take n msg)]"])
          (simp add: conn_inv_def out_stream_def False)
    qed
  qed
qed

text \<open>
  \<open>handleWrite\<close> while the connection is up: it moves bytes from the buffer to the kernel, stops
  watching when the buffer is empty, and then completes a shutdown that was waiting for that.
\<close>

lemma handleWrite_facts:
  assumes "in_loop k tid c w" and "conn_inv c w"
    and "conn_state (conns w c) \<in> {kConnected, kDisconnecting}" and "isWriting (chan_of c w)"
    and "k_write k (sock_log w) (conn_fd (conns w c)) (readable (outputBuffer (conns w c))) = Inr n"
    and "n \<le> length (readable (outputBuffer (conns w c)))"
  shows "\<exists>w' b. handleWrite k tid c w = Inr w' \<and>
    conns w' = (conns w)(c := (conns w c)\<lparr>outputBuffer := b\<rparr>) \<and> in_loop k tid c w' \<and> conn_inv c w' \<and>
    readable b = drop n (readable (outputBuffer (conns w c))) \<and> strings w' = strings w \<and>
    sock_log w' = sock_log w @ Wrote (conn_fd (conns w c)) (take n (readable (outputBuffer (conns w c)))) #
      (if n = length (readable (outputBuffer (conns w c))) \<and> conn_state (conns w c) = kDisconnecting
       then [ShutWr (conn_fd (conns w c))] else [])"
proof -
  let ?conn = "conns w c" and ?fd = "conn_fd (conns w c)" and ?out = "outputBuffer (conns w c)"
  have wf: "buf_wf ?out" "buf_wf (inputBuffer ?conn)" and ne: "readable ?out \<noteq> []"
    using assms(2,3,4) unfolding conn_inv_def by blast+
  let ?w1 = "log_sock (Wrote ?fd (take n (readable ?out))) w"
  have in1: "in_loop k tid c ?w1" by (rule in_loop_same[OF assms(1)]) simp_all
  have start: "handleWrite k tid c w =
      (if 0 < n then
        let out = retrieve n ?out; w = set_conn c (?conn\<lparr>outputBuffer := out\<rparr>) ?w1 in
        if readableBytes out = 0
        then bindR (conn_channel_op disableWriting k tid c w) (\<lambda>w.
          let w = (if writeCompleteCallback_set ?conn then conn_queueInLoop tid c (WriteComplete c) w else w) in
          if conn_state (conns w c) = kDisconnecting then Inr (shutdownInLoop c w) else Inr w)
        else Inr w
       else Inr ?w1)"
    using assms(4,5) by (simp add: handleWrite_def writeFd_def Let_def)
  show ?thesis
  proof (cases "n = 0")
    case True
    with start have "handleWrite k tid c w = Inr ?w1" by simp
    with in1 assms(2) True ne show ?thesis
      by (intro exI[of _ ?w1] exI[of _ ?out]) (simp add: conn_inv_def)
  next
    case False
    let ?b = "retrieve n ?out"
    define w2 where "w2 = set_conn c (?conn\<lparr>outputBuffer := ?b\<rparr>) ?w1"
    have in2: "in_loop k tid c w2" using in_loop_set_out[OF in1, of ?b] by (simp add: w2_def)
    have b: "buf_wf ?b" "readable ?b = drop n (readable ?out)"
      using wf(1) by (simp_all add: buf_wf_retrieve readable_retrieve)
    have empty: "readableBytes ?b = 0 \<longleftrightarrow> n = length (readable ?out)"
      using b assms(6) by (auto simp: readableBytes_0)
    show ?thesis
    proof (cases "n = length (readable ?out)")
      case False
      with start \<open>n \<noteq> 0\<close> empty have "handleWrite k tid c w = Inr w2" by (simp add: Let_def w2_def)
      moreover have "isWriting (chan_of c w2)" using assms(4) by (simp add: w2_def chan_of_def loop_of_def)
      ultimately show ?thesis
        using in2 b wf assms(6) False by (intro exI[of _ w2] exI[of _ ?b]) (auto simp: w2_def conn_inv_def)
    next
      case True
      let ?w3 = "events_set (chan_events (chan_of c w2) AND NOT kWriteEvent) c w2"
      define w4 where "w4 = (if writeCompleteCallback_set ?conn then conn_queueInLoop tid c (WriteComplete c) ?w3 else ?w3)"
      have in4: "in_loop k tid c w4"
        using in_loop_events_set[OF in2] by (simp add: w4_def in_loop_queue)
      have w4: "conns w4 = (conns w)(c := ?conn\<lparr>outputBuffer := ?b\<rparr>)" "strings w4 = strings w"
        "sock_log w4 = sock_log w @ [Wrote ?fd (take n (readable ?out))]"
        "\<not> isWriting (chan_of c w4)"
        by (simp_all add: w4_def w2_def isWriting_def)
      have eq: "handleWrite k tid c w =
          (if conn_state ?conn = kDisconnecting then Inr (shutdownInLoop c w4) else Inr w4)"
        unfolding start Let_def w2_def[symmetric] conn_updates(2)[OF in2] bindR_simps w4_def[symmetric]
        using \<open>n \<noteq> 0\<close> empty True w4(1) by simp
      have inv4: "conn_inv c w4" using w4 b wf True by (simp add: conn_inv_def)
      show ?thesis
      proof (cases "conn_state ?conn = kDisconnecting")
        case False
        with eq in4 inv4 w4 b True show ?thesis by (intro exI[of _ w4] exI[of _ ?b]) simp
      next
        case shut: True
        let ?w5 = "log_sock (ShutWr ?fd) w4"
        have "handleWrite k tid c w = Inr ?w5" using eq shut w4 by (simp add: shutdownInLoop_def)
        moreover have "in_loop k tid c ?w5" by (rule in_loop_same[OF in4]) simp_all
        ultimately show ?thesis
          using inv4 w4 b True shut by (intro exI[of _ ?w5] exI[of _ ?b]) (simp add: conn_inv_def)
      qed
    qed
  qed
qed

section \<open>A connection used from its loop\<close>

text \<open>A temporary \<open>std::string\<close> lives at \<open>addr\<close> during a call.\<close>

definition with_string ::
  "nat \<Rightarrow> string \<Rightarrow> ('z world_scheme \<Rightarrow> 'z world_scheme outcome) \<Rightarrow> 'z world_scheme \<Rightarrow> 'z world_scheme outcome" where
  "with_string addr s f w =
     bindR (f (w\<lparr>strings := (strings w)(addr \<mapsto> s)\<rparr>)) (\<lambda>w. Inr (w\<lparr>strings := (strings w)(addr := None)\<rparr>))"

datatype conn_op = OpSend nat string | OpSendBuffer buffer | OpShutdown | OpWritable

fun conn_do :: "kernel \<Rightarrow> nat \<Rightarrow> nat \<Rightarrow> conn_op \<Rightarrow> 'z world_scheme \<Rightarrow> 'z world_scheme outcome" where
  "conn_do k tid c (OpSend addr s) w = with_string addr s (send_string k tid c addr) w"
| "conn_do k tid c (OpSendBuffer b) w = bindR (send_buffer k tid c b w) (\<lambda>(b, w). Inr w)"
| "conn_do k tid c OpShutdown w = shutdown tid c w"
| "conn_do k tid c OpWritable w = handleWrite k tid c w"

text \<open>The bytes handed to \<open>send\<close> before the first \<open>shutdown\<close>.\<close>

fun submitted :: "conn_op list \<Rightarrow> string" where
  "submitted [] = []"
| "submitted (OpSend addr s # ops) = s @ submitted ops"
| "submitted (OpSendBuffer b # ops) = readable b @ submitted ops"
| "submitted (OpShutdown # ops) = []"
| "submitted (OpWritable # ops) = submitted ops"

fun op_fits :: "conn_op \<Rightarrow> bool" where
  "op_fits (OpSend addr s) = (length s < 2 ^ 64)"
| "op_fits (OpSendBuffer b) = (buf_wf b \<and> length (bytes b) < 2 ^ 64)"
| "op_fits _ = True"

text \<open>write(2) takes some prefix of the data; here it never fails.\<close>

definition takes_prefix :: "kernel \<Rightarrow> bool" where
  "takes_prefix k \<longleftrightarrow> (\<forall>log fd d. \<exists>n \<le> length d. k_write k log fd d = Inr n)"

text \<open>
  The socket calls since \<open>log0\<close>: writes, and the half-close last, once a shutdown was asked for and
  everything was written.
\<close>

definition wrote_only :: "int \<Rightarrow> sock_event list \<Rightarrow> bool" where
  "wrote_only fd evs \<longleftrightarrow> (\<forall>e \<in> set evs. \<exists>d. e = Wrote fd d)"

definition calls_ok :: "sock_event list \<Rightarrow> nat \<Rightarrow> 'z world_scheme \<Rightarrow> bool" where
  "calls_ok log0 c w \<longleftrightarrow>
     (\<exists>evs. wrote_only (conn_fd (conns w c)) evs \<and>
       sock_log w = log0 @ evs @
         (if conn_state (conns w c) = kDisconnecting \<and> \<not> isWriting (chan_of c w)
          then [ShutWr (conn_fd (conns w c))] else []))"

definition up :: "kernel \<Rightarrow> nat \<Rightarrow> nat \<Rightarrow> sock_event list \<Rightarrow> 'z world_scheme \<Rightarrow> bool" where
  "up k tid c log0 w \<longleftrightarrow>
     in_loop k tid c w \<and> conn_inv c w \<and> conn_state (conns w c) \<in> {kConnected, kDisconnecting} \<and>
     calls_ok log0 c w"

lemma strings_update_simps [simp]:
  "chan_of c (w\<lparr>strings := m\<rparr>) = chan_of c w" "loop_of c (w\<lparr>strings := m\<rparr>) = loop_of c w"
  "in_loop k tid c (w\<lparr>strings := m\<rparr>) \<longleftrightarrow> in_loop k tid c w" "conn_inv c (w\<lparr>strings := m\<rparr>) \<longleftrightarrow> conn_inv c w"
  "out_stream c (w\<lparr>strings := m\<rparr>) = out_stream c w" "calls_ok log0 c (w\<lparr>strings := m\<rparr>) \<longleftrightarrow> calls_ok log0 c w"
  by (simp_all add: chan_of_def loop_of_def in_loop_def conn_inv_def out_stream_def calls_ok_def)

lemma up_send:
  assumes "up k tid c log0 w" and "conn_state (conns w c) = kConnected" and "takes_prefix k"
    and "points_to data msg"
  shows "\<exists>w'. sendInLoop k tid c data (of_nat (length msg)) w = Inr w' \<and> up k tid c log0 w' \<and>
    conn_state (conns w' c) = kConnected \<and> conn_fd (conns w' c) = conn_fd (conns w c) \<and>
    out_stream c w' = out_stream c w @ msg"
proof -
  have u: "in_loop k tid c w" "conn_inv c w" "conn_state (conns w c) \<in> {kConnected, kDisconnecting}"
    "calls_ok log0 c w" using assms(1) by (simp_all add: up_def)
  have "\<exists>n \<le> length msg. k_write k (sock_log w) (conn_fd (conns w c)) msg = Inr n"
    using assms(3) by (simp add: takes_prefix_def)
  from sendInLoop_facts[OF u(1,2) assms(4) u(3) this] obtain w' b evs where
    w': "sendInLoop k tid c data (of_nat (length msg)) w = Inr w'"
      "conns w' = (conns w)(c := (conns w c)\<lparr>outputBuffer := b\<rparr>)" "in_loop k tid c w'" "conn_inv c w'"
      "out_stream c w' = out_stream c w @ msg" "sock_log w' = sock_log w @ evs"
      "wrote_only (conn_fd (conns w c)) evs" by (auto simp: wrote_only_def)
  from u(4) assms(2) obtain evs0 where "wrote_only (conn_fd (conns w c)) evs0" "sock_log w = log0 @ evs0"
    by (auto simp: calls_ok_def)
  then have "calls_ok log0 c w'"
    unfolding calls_ok_def using assms(2) w'(2,6,7)
    by (intro exI[of _ "evs0 @ evs"]) (auto simp: wrote_only_def)
  with w' u(3) assms(2) show ?thesis by (intro exI[of _ w']) (simp add: up_def)
qed

lemma up_writable:
  assumes "up k tid c log0 w" and "takes_prefix k"
  shows "\<exists>w'. handleWrite k tid c w = Inr w' \<and> up k tid c log0 w' \<and>
    conn_state (conns w' c) = conn_state (conns w c) \<and> conn_fd (conns w' c) = conn_fd (conns w c) \<and>
    out_stream c w' = out_stream c w"
proof (cases "isWriting (chan_of c w)")
  case False
  with assms(1) show ?thesis by (intro exI[of _ w]) (simp add: handleWrite_def)
next
  case True
  have u: "in_loop k tid c w" "conn_inv c w" "conn_state (conns w c) \<in> {kConnected, kDisconnecting}"
    "calls_ok log0 c w" using assms(1) by (simp_all add: up_def)
  let ?out = "readable (outputBuffer (conns w c))" and ?fd = "conn_fd (conns w c)"
  from assms(2) obtain n where n: "k_write k (sock_log w) ?fd ?out = Inr n" "n \<le> length ?out"
    unfolding takes_prefix_def by meson
  from handleWrite_facts[OF u(1-3) True n] obtain w' b where w': "handleWrite k tid c w = Inr w'"
    "conns w' = (conns w)(c := (conns w c)\<lparr>outputBuffer := b\<rparr>)" "in_loop k tid c w'" "conn_inv c w'"
    "readable b = drop n ?out"
    "sock_log w' = sock_log w @ Wrote ?fd (take n ?out) #
      (if n = length ?out \<and> conn_state (conns w c) = kDisconnecting then [ShutWr ?fd] else [])" by auto
  have watch: "isWriting (chan_of c w') \<longleftrightarrow> n \<noteq> length ?out"
    using w'(2,4,5) u(3) n(2) by (auto simp: conn_inv_def)
  from u(4) True obtain evs where evs: "wrote_only ?fd evs" "sock_log w = log0 @ evs"
    by (auto simp: calls_ok_def)
  have "calls_ok log0 c w'"
    unfolding calls_ok_def
    by (rule exI[of _ "evs @ [Wrote ?fd (take n ?out)]"]) (use evs w'(2,6) watch in \<open>auto simp: wrote_only_def\<close>)
  with w' u(3) show ?thesis by (intro exI[of _ w']) (simp add: up_def out_stream_def)
qed

lemma up_shutdown:
  assumes "up k tid c log0 w"
  shows "\<exists>w'. shutdown tid c w = Inr w' \<and> up k tid c log0 w' \<and>
    conn_state (conns w' c) = kDisconnecting \<and> conn_fd (conns w' c) = conn_fd (conns w c) \<and>
    out_stream c w' = out_stream c w"
proof (cases "conn_state (conns w c) = kConnected")
  case False
  with assms show ?thesis by (intro exI[of _ w]) (auto simp: shutdown_def up_def)
next
  case True
  let ?w1 = "setState kDisconnecting c w"
  have same: "chan_of c ?w1 = chan_of c w" "loop_of c ?w1 = loop_of c w" by (simp_all add: chan_of_def loop_of_def)
  have u: "in_loop k tid c w" "conn_inv c w" "calls_ok log0 c w" using assms by (simp_all add: up_def)
  have "isInLoopThread tid (get_loop (conn_loop (conns w c)) ?w1)"
    using u(1) by (simp add: isInLoopThread_def in_loop_def get_loop_def loop_of_def)
  then have eq: "shutdown tid c w = Inr (shutdownInLoop c ?w1)"
    using True by (simp add: shutdown_def conn_runInLoop_def in_world.runInLoop_in)
  have in1: "in_loop k tid c (shutdownInLoop c ?w1)"
    by (rule in_loop_same[OF u(1)]) (simp_all add: shutdownInLoop_def same)
  from u(3) True obtain evs where evs: "wrote_only (conn_fd (conns w c)) evs" "sock_log w = log0 @ evs"
    by (auto simp: calls_ok_def)
  have "calls_ok log0 c (shutdownInLoop c ?w1)"
    unfolding calls_ok_def by (rule exI[of _ evs]) (use evs in \<open>simp add: shutdownInLoop_def same\<close>)
  with eq in1 u(2) True show ?thesis
    by (intro exI[of _ "shutdownInLoop c ?w1"]) (auto simp: up_def conn_inv_def shutdownInLoop_def same out_stream_def)
qed

lemma up_strings [simp]: "up k tid c log0 (w\<lparr>strings := m\<rparr>) \<longleftrightarrow> up k tid c log0 w"
  by (simp add: up_def)

lemma up_in_loop_thread: "up k tid c log0 w \<Longrightarrow> isInLoopThread tid (loop_of c w)"
  by (simp add: up_def in_loop_def isInLoopThread_def)

text \<open>One operation, in the states that \<open>up\<close> covers.\<close>

lemma up_op:
  assumes "up k tid c log0 w" and "takes_prefix k" and "op_fits op"
  shows "\<exists>w'. conn_do k tid c op w = Inr w' \<and> up k tid c log0 w' \<and> conn_fd (conns w' c) = conn_fd (conns w c) \<and>
    conn_state (conns w' c) = (if op = OpShutdown then kDisconnecting else conn_state (conns w c)) \<and>
    out_stream c w' = out_stream c w @ (if conn_state (conns w c) = kConnected then submitted [op] else [])"
proof (cases op)
  case (OpSend addr s)
  show ?thesis
  proof (cases "conn_state (conns w c) = kConnected")
    case True
    let ?w1 = "w\<lparr>strings := (strings w)(addr \<mapsto> s)\<rparr>"
    have pt: "points_to (string_data s) s" using assms(3) OpSend by (intro points_to_string) simp
    have w1: "up k tid c log0 ?w1" "conn_state (conns ?w1 c) = kConnected" using assms(1) True by simp_all
    from up_send[OF w1 assms(2) pt] obtain w' where
      w': "sendInLoop k tid c (string_data s) (of_nat (length s)) ?w1 = Inr w'" "up k tid c log0 w'"
        "conn_state (conns w' c) = kConnected" "conn_fd (conns w' c) = conn_fd (conns w c)"
        "out_stream c w' = out_stream c w @ s" by auto
    then have "send_string k tid c addr ?w1 = Inr w'"
      using True up_in_loop_thread[OF assms(1)] by (simp add: send_string_def sendInLoop_ptr_def Let_def)
    with w' True OpSend show ?thesis by (simp add: with_string_def)
  qed (use assms(1) OpSend in \<open>auto simp: with_string_def send_string_def\<close>)
next
  case (OpSendBuffer b)
  show ?thesis
  proof (cases "conn_state (conns w c) = kConnected")
    case True
    have wf: "buf_wf b" "length (bytes b) < 2 ^ 64" using assms(3) OpSendBuffer by simp_all
    from up_send[OF assms(1) True assms(2) points_to_buffer[OF wf]] obtain w' where
      "sendInLoop k tid c (bytes b, peek b) (of_nat (readableBytes b)) w = Inr w'" "up k tid c log0 w'"
        "conn_state (conns w' c) = kConnected" "conn_fd (conns w' c) = conn_fd (conns w c)"
        "out_stream c w' = out_stream c w @ readable b" by (auto simp: length_readable[OF wf(1)])
    with True OpSendBuffer up_in_loop_thread[OF assms(1)] show ?thesis by (simp add: send_buffer_def)
  qed (use assms(1) OpSendBuffer in \<open>auto simp: send_buffer_def\<close>)
next
  case OpShutdown
  with up_shutdown[OF assms(1)] show ?thesis by auto
next
  case OpWritable
  with up_writable[OF assms(1,2)] show ?thesis by auto
qed

lemma submitted_Cons:
  "submitted (op # ops) = submitted [op] @ (if op = OpShutdown then [] else submitted ops)"
  by (cases op) simp_all

lemma up_run:
  assumes "up k tid c log0 w" and "takes_prefix k" and "\<forall>op \<in> set ops. op_fits op"
  shows "\<exists>w'. foldR (conn_do k tid c) ops w = Inr w' \<and> up k tid c log0 w' \<and>
    conn_fd (conns w' c) = conn_fd (conns w c) \<and>
    conn_state (conns w' c) = (if OpShutdown \<in> set ops then kDisconnecting else conn_state (conns w c)) \<and>
    out_stream c w' = out_stream c w @ (if conn_state (conns w c) = kConnected then submitted ops else [])"
  using assms
proof (induction ops arbitrary: w)
  case (Cons op ops)
  from up_op[OF Cons.prems(1,2), of op] Cons.prems(3) obtain w1 where
    w1: "conn_do k tid c op w = Inr w1" "up k tid c log0 w1" "conn_fd (conns w1 c) = conn_fd (conns w c)"
      "conn_state (conns w1 c) = (if op = OpShutdown then kDisconnecting else conn_state (conns w c))"
      "out_stream c w1 = out_stream c w @ (if conn_state (conns w c) = kConnected then submitted [op] else [])"
    by auto
  from Cons.IH[OF w1(2) Cons.prems(2)] Cons.prems(3) obtain w' where
    "foldR (conn_do k tid c) ops w1 = Inr w'" "up k tid c log0 w'" "conn_fd (conns w' c) = conn_fd (conns w1 c)"
    "conn_state (conns w' c) = (if OpShutdown \<in> set ops then kDisconnecting else conn_state (conns w1 c))"
    "out_stream c w' = out_stream c w1 @ (if conn_state (conns w1 c) = kConnected then submitted ops else [])"
    by auto
  with w1 show ?case
    by (intro exI[of _ w']) (simp only: foldR.simps bindR_simps, auto simp: submitted_Cons[of op ops])
qed simp

text \<open>Bytes that arrive are appended to the input buffer, and the message callback is called.\<close>

lemma handleRead_arrival:
  fixes w :: "'z world_scheme"
  assumes "in_loop k tid c w" and "conn_inv c w" and "conn_state (conns w c) = kConnected"
    and "messageCallback_set (conns w c)" and "k_read k (sock_log w) (conn_fd (conns w c)) = Inr d" and "d \<noteq> []"
  shows "\<exists>w1 b. handleRead k u tid c t w = on_message u c t w1 \<and>
    up k tid c (sock_log w @ [ReadData (conn_fd (conns w c)) d]) w1 \<and>
    conns w1 = (conns w)(c := (conns w c)\<lparr>inputBuffer := b\<rparr>) \<and> buf_wf b \<and>
    readable b = readable (inputBuffer (conns w c)) @ d \<and> out_stream c w1 = out_stream c w \<and>
    world.more w1 = world.more w"
proof -
  let ?conn = "conns w c" and ?fd = "conn_fd (conns w c)"
  have wf: "buf_wf (inputBuffer ?conn)" using assms(2) by (simp add: conn_inv_def)
  from readFd_facts[OF wf, of d] obtain b where b: "readFd (Inr d) (inputBuffer ?conn) = (int (length d), None, b)"
    "buf_wf b" "readable b = readable (inputBuffer ?conn) @ d"
    by (cases "readFd (Inr d) (inputBuffer ?conn)") (auto simp: readFd_def Let_def split: if_splits)
  let ?w1 = "set_conn c (?conn\<lparr>inputBuffer := b\<rparr>) (log_sock (ReadData ?fd d) w)"
  have same: "chan_of c ?w1 = chan_of c w" "loop_of c ?w1 = loop_of c w" by (simp_all add: chan_of_def loop_of_def)
  have "in_loop k tid c ?w1" by (rule in_loop_same[OF assms(1) same(2)]) simp_all
  moreover have "conn_inv c ?w1" using assms(2) b(2) by (simp add: conn_inv_def same)
  moreover have "calls_ok (sock_log w @ [ReadData ?fd d]) c ?w1"
    using assms(3) by (auto simp: calls_ok_def wrote_only_def)
  ultimately have "up k tid c (sock_log w @ [ReadData ?fd d]) ?w1" using assms(3) by (simp add: up_def)
  moreover have "handleRead k u tid c t w = on_message u c t ?w1"
    using assms(4-6) b(1) by (simp add: handleRead_def Let_def call_callback_def)
  ultimately show ?thesis
    using b by (intro exI[of _ ?w1] exI[of _ b]) (simp add: out_stream_def)
qed

text \<open>A string that is sent is never too long for the members, only for the stream: its length is a \<open>size_t\<close>.\<close>

lemma string_size:
  "points_to (string_data s) (take (length s mod 2 ^ 64) s)"
  "(of_nat (length s) :: 64 word) = of_nat (length (take (length s mod 2 ^ 64) s))"
proof -
  have len: "length (take (length s mod 2 ^ 64) s) = length s mod 2 ^ 64" by simp
  show "points_to (string_data s) (take (length s mod 2 ^ 64) s)" by (simp add: points_to_def string_data_def)
  show "(of_nat (length s) :: 64 word) = of_nat (length (take (length s mod 2 ^ 64) s))"
    unfolding len by (rule word_of_nat_eq_iff[THEN iffD2]) (simp add: take_bit_eq_mod)
qed

lemma up_string:
  assumes "up k tid c log0 w" and "takes_prefix k"
  shows "\<exists>w'. conn_do k tid c (OpSend addr s) w = Inr w' \<and> up k tid c log0 w' \<and> conn_state (conns w' c) = conn_state (conns w c)"
proof (cases "conn_state (conns w c) = kConnected")
  case True
  let ?w1 = "w\<lparr>strings := (strings w)(addr \<mapsto> s)\<rparr>"
  have w1: "up k tid c log0 ?w1" "conn_state (conns ?w1 c) = kConnected" using assms(1) True by simp_all
  from up_send[OF w1 assms(2) string_size(1)] obtain w' where
    w': "sendInLoop k tid c (string_data s) (of_nat (length s)) ?w1 = Inr w'" "up k tid c log0 w'"
      "conn_state (conns w' c) = kConnected" unfolding string_size(2)[symmetric] by auto
  then have "send_string k tid c addr ?w1 = Inr w'"
    using True up_in_loop_thread[OF assms(1)] by (simp add: send_string_def sendInLoop_ptr_def Let_def)
  with w' True show ?thesis by (simp add: with_string_def)
qed (use assms(1) in \<open>auto simp: with_string_def send_string_def\<close>)

section \<open>Properties\<close>

text \<open>C4: a connection delivers what it is given, in order, and half-closes last. Take a connection that
  is up and in its loop's thread, and any sequence of sends of strings and buffers, of writability
  events and of shutdowns, with a kernel whose \<open>write\<close> takes some prefix of the data. No call faults;
  the bytes the kernel took, followed by the bytes in the output buffer, are the earlier stream
  followed by everything sent before the first shutdown; the connection makes only writes, except for
  one \<open>shutdown(SHUT_WR)\<close>, which is its last socket call and is there exactly when a shutdown was asked
  for and the output buffer is empty.\<close>

theorem connection_delivers:
  assumes "in_loop k tid c w" and "conn_inv c w" and "conn_state (conns w c) = kConnected"
    and "takes_prefix k" and "\<forall>op \<in> set ops. op_fits op"
  shows "\<exists>w' evs. foldR (conn_do k tid c) ops w = Inr w' \<and> out_stream c w' = out_stream c w @ submitted ops \<and>
    wrote_only (conn_fd (conns w c)) evs \<and>
    sock_log w' = sock_log w @ evs @
      (if OpShutdown \<in> set ops \<and> readable (outputBuffer (conns w' c)) = []
       then [ShutWr (conn_fd (conns w c))] else [])"
proof -
  have "up k tid c (sock_log w) w"
    using assms(1-3) by (auto simp: up_def calls_ok_def wrote_only_def)
  from up_run[OF this assms(4,5)] obtain w' where w': "foldR (conn_do k tid c) ops w = Inr w'"
    "up k tid c (sock_log w) w'" "conn_fd (conns w' c) = conn_fd (conns w c)"
    "conn_state (conns w' c) = (if OpShutdown \<in> set ops then kDisconnecting else kConnected)"
    "out_stream c w' = out_stream c w @ submitted ops" using assms(3) by auto
  moreover have "isWriting (chan_of c w') \<longleftrightarrow> readable (outputBuffer (conns w' c)) \<noteq> []"
    using w'(2) unfolding up_def conn_inv_def by blast
  ultimately show ?thesis by (auto simp: up_def calls_ok_def split: if_splits)
qed

text \<open>A connection on the loop 1, whose thread is 7, and a kernel that takes two bytes at a time.\<close>

definition demo_conn :: tcp_connection where
  "demo_conn = \<lparr>conn_loop = 1, conn_name = ''c'', conn_state = kConnected, reading = True, conn_fd = 5,
     conn_channel = 5, localAddr = \<lparr>sin_family = 2, sin_port = 0, sin_addr = (127, 0, 0, 1)\<rparr>,
     peerAddr = \<lparr>sin_family = 2, sin_port = 0, sin_addr = (127, 0, 0, 1)\<rparr>,
     connectionCallback_set = True, messageCallback_set = True, writeCompleteCallback_set = False,
     closeCallback_set = True, highWaterMarkCallback_set = False, highWaterMark = kHighWaterMark,
     inputBuffer = new_buffer 16, outputBuffer = new_buffer 16\<rparr>"

definition demo_world :: world where
  "demo_world = \<lparr>loops = (\<lambda>_. demo_loop), conns = (\<lambda>_. demo_conn), sock_log = [], strings = Map.empty\<rparr>"

definition demo_kernel :: kernel where
  "demo_kernel = \<lparr>k_ctl = (\<lambda>_ _ _. 0), k_write = (\<lambda>log fd d. Inr (min 2 (length d))),
     k_read = (\<lambda>_ _. Inr [])\<rparr>"

text \<open>User code whose callbacks leave the world alone.\<close>

definition quiet_user :: "'w user_code" where
  "quiet_user = \<lparr>on_connection = (\<lambda>c. Inr), on_message = (\<lambda>c t. Inr), on_writeComplete = (\<lambda>c. Inr),
     on_highWaterMark = (\<lambda>c n. Inr), on_close = (\<lambda>c. Inr)\<rparr>"

lemma demo_world_facts:
  "in_loop demo_kernel 7 0 demo_world" "conn_inv 0 demo_world" "conn_state (conns demo_world 0) = kConnected"
  "takes_prefix demo_kernel" "conn_fd (conns demo_world 0) = 5" "out_stream 0 demo_world = []"
  "sock_log demo_world = []" "\<not> isWriting (chan_of 0 demo_world)"
  "outputBuffer (conns demo_world 0) = new_buffer 16"
proof -
  have "accepts_legal (\<lambda>_ _. 0)" by (simp add: accepts_legal_def)
  moreover have "threadId (demo_loop :: task event_loop) = 7" by (simp add: demo_loop_def)
  ultimately show "in_loop demo_kernel 7 0 demo_world"
    using demo_loop_ok by (auto simp: in_loop_def loop_of_def demo_world_def demo_conn_def demo_kernel_def)
  show nw: "\<not> isWriting (chan_of 0 demo_world)"
    by (simp add: isWriting_def chan_of_def loop_of_def demo_world_def demo_loop_def new_channel_def has_bits_def)
  show out: "outputBuffer (conns demo_world 0) = new_buffer 16"
    by (simp add: demo_world_def demo_conn_def)
  show "conn_inv 0 demo_world" using nw by (simp add: conn_inv_def out) (simp add: demo_world_def demo_conn_def)
  show "out_stream 0 demo_world = []" by (simp add: out_stream_def out) (simp add: demo_world_def)
  show "takes_prefix demo_kernel" unfolding takes_prefix_def demo_kernel_def
    by (auto intro!: exI[of _ "min 2 (length _)"])
qed (simp_all add: demo_world_def demo_conn_def)

theorem connection_delivers_witness:
  "\<exists>w'. foldR (conn_do demo_kernel 7 0) [OpSend 1 ''hello'', OpShutdown, OpWritable] demo_world = Inr w' \<and>
     out_stream 0 w' = ''hello''"
proof -
  have "\<forall>op \<in> set [OpSend 1 ''hello'', OpShutdown, OpWritable]. op_fits op" by simp
  from connection_delivers[OF demo_world_facts(1-4) this] show ?thesis
    by (auto simp: demo_world_facts(6))
qed

text \<open>What a failed direct write does: the \<open>size_t\<close> is 2^64 - 1, and one byte more than all remains.\<close>

lemma sendInLoop_failed:
  assumes "points_to data m" and "length m + 1 < 2 ^ 64"
    and "conn_state (conns w c) \<noteq> kDisconnected" and "\<not> isWriting (chan_of c w)"
    and "readableBytes (outputBuffer (conns w c)) = 0"
    and "k_write k (sock_log w) (conn_fd (conns w c)) m = Inl e"
  shows "sendInLoop k tid c data (of_nat (length m)) w =
    keep_rest k tid c data (- 1) (of_nat (length m + 1)) (log_sock (WriteFailed (conn_fd (conns w c)) e) w)"
proof -
  have nz: "(of_nat (length m + 1) :: 64 word) \<noteq> 0" using assms(2) by (subst of_nat_64_eq_0) simp_all
  then have "(of_nat (length m) :: 64 word) \<noteq> - 1" by (auto simp: add_eq_0_iff)
  with mem_read_all[OF assms(1), of "length m"] assms(6)
  have "direct_write k tid c data (of_nat (length m)) w =
      Inr ((- 1, of_nat (length m + 1), False), log_sock (WriteFailed (conn_fd (conns w c)) e) w)"
    by (simp add: direct_write_def sys_write_def Let_def add.commute add_eq_0_iff)
  moreover have "0 < (of_nat (length m + 1) :: 64 word)" using nz by (simp only: word_gt_0)
  ultimately show ?thesis using assms(3-5) by (simp add: sendInLoop_def)
qed

lemma mem_read_before_string:
  assumes "length s + 1 < 2 ^ 64"
  shows "mem_read (string_data s) (- 1) (of_nat (length s + 1)) = Inl OutOfBounds"
proof -
  have "unat (- 1 :: 64 word) = 2 ^ 64 - 1" by (simp add: unsigned_minus_1_eq_mask mask_eq_exp_minus_1)
  moreover have "unat (1 + of_nat (length s) :: 64 word) = length s + 1"
    using assms by (simp add: unat_of_nat take_bit_nat_eq_self flip: of_nat_Suc)
  ultimately show ?thesis
    using assms by (simp add: mem_read_def string_data_def bindR_def require_def Let_def)
qed

lemma mem_read_before_buffer:
  assumes "0 < p"
  shows "mem_read (block, p) (- 1) n = mem_read (block, p - 1) (of_nat 0) n"
proof -
  have "(of_nat p :: 64 word) + - 1 = of_nat (p - 1)" using assms by (simp add: of_nat_diff)
  then show ?thesis unfolding mem_read_def prod.case Let_def by simp
qed

lemma points_to_before:
  assumes "buf_wf b" and "length (bytes b) < 2 ^ 64"
  shows "points_to (bytes b, peek b - 1) (bytes b ! (peek b - 1) # readable b)" "0 < peek b"
proof -
  have pk: "8 \<le> peek b" "peek b + length (readable b) \<le> length (bytes b)"
    using assms(1) length_readable[OF assms(1)] by (auto simp: buf_wf_def kCheapPretend_def buf_sizes)
  then show "0 < peek b" by linarith
  have "drop (peek b - 1) (bytes b) = bytes b ! (peek b - 1) # drop (peek b) (bytes b)"
    using pk Cons_nth_drop_Suc[of "peek b - 1" "bytes b"] by simp
  moreover have "take (length (readable b)) (drop (peek b) (bytes b)) = readable b"
    using length_readable[OF assms(1)] by (simp add: readable_def)
  ultimately show "points_to (bytes b, peek b - 1) (bytes b ! (peek b - 1) # readable b)"
    using pk assms(2) by (simp add: points_to_def)
qed

text \<open>C36: a failed direct write is not noticed, because \<open>nwrote\<close> is a \<open>size_t\<close> and \<open>nwrote >= 0\<close> always
  holds. On an idle connection whose \<open>write\<close> fails, whatever the errno (also the harmless
  EWOULDBLOCK, and also EPIPE), \<open>sendInLoop\<close> reads one byte in front of the data: for a string that is
  outside of it, and for a Buffer the byte before its readable part joins the stream in front of the
  message.\<close>

theorem write_error_unnoticed:
  assumes "in_loop k tid c w" and "conn_inv c w" and "conn_state (conns w c) \<in> {kConnected, kDisconnecting}"
    and "\<not> isWriting (chan_of c w)"
    and "\<And>d. k_write k (sock_log w) (conn_fd (conns w c)) d = Inl e"
    and "length s + 1 < 2 ^ 64" and "buf_wf b" and "length (bytes b) < 2 ^ 64"
  shows "sendInLoop_string k tid c s w = Inl OutOfBounds \<and>
    (\<exists>w'. sendInLoop k tid c (bytes b, peek b) (of_nat (readableBytes b)) w = Inr w' \<and>
      out_stream c w' = out_stream c w @ [bytes b ! (peek b - 1)] @ readable b)"
proof
  let ?w1 = "log_sock (WriteFailed (conn_fd (conns w c)) e) w"
  have wf: "buf_wf (outputBuffer (conns w c))" and idle: "readable (outputBuffer (conns w c)) = []"
    using assms(2,3,4) unfolding conn_inv_def by blast+
  have up: "conn_state (conns w c) \<noteq> kDisconnected" using assms(3) by auto
  note failed = sendInLoop_failed[OF _ _ up assms(4) _ assms(5)]
  have "keep_rest k tid c (string_data s) (- 1) (of_nat (length s + 1)) ?w1 = Inl OutOfBounds"
    unfolding keep_rest_def mem_read_before_string[OF assms(6)] by (simp add: Let_def)
  with failed[OF points_to_string[OF add_lessD1[OF assms(6)]] assms(6)] idle wf
  show "sendInLoop_string k tid c s w = Inl OutOfBounds"
    by (simp add: sendInLoop_string_def readableBytes_0)
  let ?m = "bytes b ! (peek b - 1) # readable b"
  note before = points_to_before[OF assms(7,8)]
  have len: "length (readable b) + 1 < 2 ^ 64" using points_to_length[OF before(1)] by simp
  have lm: "length ?m - 0 = length (readable b) + 1" by simp
  have in1: "in_loop k tid c ?w1" by (rule in_loop_same[OF assms(1)]) simp_all
  from keep_rest_facts[OF in1 _ before(1), of 0] wf obtain w' b' where
    "keep_rest k tid c (bytes b, peek b - 1) (of_nat 0) (of_nat (length ?m - 0)) ?w1 = Inr w'"
    "conns w' = (conns w)(c := (conns w c)\<lparr>outputBuffer := b'\<rparr>)" "readable b' = ?m"
    "sock_log w' = sock_log ?w1" by (auto simp: idle)
  moreover have "sendInLoop k tid c (bytes b, peek b) (of_nat (length (readable b))) w =
      keep_rest k tid c (bytes b, peek b - 1) (of_nat 0) (of_nat (length ?m - 0)) ?w1"
    using failed[OF points_to_buffer[OF assms(7,8)] len] idle wf
    unfolding lm keep_rest_def mem_read_before_buffer[OF before(2)] by (simp add: readableBytes_0)
  ultimately show "\<exists>w'. sendInLoop k tid c (bytes b, peek b) (of_nat (readableBytes b)) w = Inr w' \<and>
      out_stream c w' = out_stream c w @ [bytes b ! (peek b - 1)] @ readable b"
    by (intro exI[of _ w']) (simp add: out_stream_def idle length_readable[OF assms(7)])
qed

theorem write_error_unnoticed_witness:
  "sendInLoop_string (demo_kernel\<lparr>k_write := \<lambda>_ _ _. Inl EWOULDBLOCK\<rparr>) 7 0 ''ok'' demo_world = Inl OutOfBounds"
proof -
  let ?k = "demo_kernel\<lparr>k_write := \<lambda>_ _ _. Inl EWOULDBLOCK\<rparr>"
  have "in_loop ?k 7 0 demo_world" using demo_world_facts(1) by (simp add: in_loop_def)
  moreover have "conn_state (conns demo_world 0) \<in> {kConnected, kDisconnecting}"
    by (simp add: demo_world_facts)
  ultimately show ?thesis
    using write_error_unnoticed[OF _ demo_world_facts(2) _ demo_world_facts(8),
        of ?k 7 EWOULDBLOCK "''ok''" "new_buffer 16"]
    by (simp add: new_buffer_def kCheapPretend_def buf_wf_def)
qed

text \<open>The first time the output backlog passes the high-water mark, a connection without a
  high-water callback is lost: \<open>sendInLoop\<close> tests the mark and not the callback, so it queues an empty
  function, and calling that throws. A connection as its constructor leaves it has a mark of 64 MB and
  no callback.\<close>

theorem high_water_empty_callback:
  assumes "in_loop k tid c w" and "conn_inv c w" and "points_to data msg" and "msg \<noteq> []"
    and "conn_state (conns w c) \<in> {kConnected, kDisconnecting}" and "isWriting (chan_of c w)"
    and "length (readable (outputBuffer (conns w c))) + length msg < 2 ^ 64"
    and "length (readable (outputBuffer (conns w c))) < unat (highWaterMark (conns w c))"
    and "unat (highWaterMark (conns w c)) \<le> length (readable (outputBuffer (conns w c))) + length msg"
    and "\<not> highWaterMarkCallback_set (conns w c)"
  shows "(\<exists>w' n. sendInLoop k tid c data (of_nat (length msg)) w = Inr w' \<and>
      pendingFunctors (loop_of c w') = pendingFunctors (loop_of c w) @ [ConnTask (HighWaterMark c False n)] \<and>
      conn_exec k u tid (HighWaterMark c False n) w' = Inl BadFunctionCall) \<and>
    (\<forall>w''. new_tcp_connection d ptr (Some lid) name fd local peer w = Inr w'' \<longrightarrow>
      highWaterMark (conns w'' d) = 64 * 1024 * 1024 \<and> \<not> highWaterMarkCallback_set (conns w'' d))"
proof
  let ?old = "length (readable (outputBuffer (conns w c)))"
  let ?conn = "conns w c"
  let ?b = "buf_append msg (outputBuffer ?conn)"
  define w1 where "w1 = conn_queueInLoop tid c (HighWaterMark c False (of_nat ?old + of_nat (length msg))) w"
  define w2 where "w2 = set_conn c (?conn\<lparr>outputBuffer := ?b\<rparr>) w1"
  have wf: "buf_wf (outputBuffer ?conn)" using assms(2) by (simp add: conn_inv_def)
  have sum: "unat (of_nat ?old + of_nat (length msg) :: 64 word) = ?old + length msg"
    and old: "unat (of_nat ?old :: 64 word) = ?old"
    using assms(7) by (simp_all flip: of_nat_add add: unat_of_nat take_bit_nat_eq_self)
  have mark: "highWaterMark ?conn \<le> of_nat ?old + of_nat (length msg)" "of_nat ?old < highWaterMark ?conn"
    using assms(8,9) by (simp_all add: word_le_nat_alt word_less_nat_alt sum old)
  then have "highWaterMark ?conn \<noteq> 0" by auto
  moreover have "chan_of c w2 = chan_of c w" by (simp add: w2_def w1_def chan_of_def loop_of_def)
  ultimately have keep: "keep_rest k tid c data 0 (of_nat (length msg)) w = Inr w2"
    using mark assms(6,10) mem_read_all[OF assms(3), of "length msg"] wf
    by (simp add: keep_rest_def Let_def length_readable[symmetric] w2_def w1_def)
  have "(of_nat (length msg) :: 64 word) \<noteq> 0" using assms(4,7) by (subst of_nat_64_eq_0) simp_all
  then have "0 < (of_nat (length msg) :: 64 word)" by (simp only: word_gt_0)
  moreover have "conn_state ?conn \<noteq> kDisconnected" using assms(5) by auto
  ultimately have "sendInLoop k tid c data (of_nat (length msg)) w = Inr w2"
    using keep assms(6) by (simp add: sendInLoop_def)
  then show "\<exists>w' n. sendInLoop k tid c data (of_nat (length msg)) w = Inr w' \<and>
      pendingFunctors (loop_of c w') = pendingFunctors (loop_of c w) @ [ConnTask (HighWaterMark c False n)] \<and>
      conn_exec k u tid (HighWaterMark c False n) w' = Inl BadFunctionCall"
    by (intro exI[of _ w2] exI[of _ "of_nat ?old + of_nat (length msg)"])
      (simp add: w2_def w1_def loop_of_def call_callback_def)
qed (auto simp: new_tcp_connection_def Let_def kHighWaterMark_def)

text \<open>The demonstration connection with \<open>hello\<close> waiting in its output buffer.\<close>

lemma demo_backlog:
  obtains w :: world where "in_loop demo_kernel 7 0 w" "conn_inv 0 w" "isWriting (chan_of 0 w)"
    "readable (outputBuffer (conns w 0)) = ''hello''" "conn_state (conns w 0) = kConnected"
    "highWaterMark (conns w 0) = 6" "\<not> highWaterMarkCallback_set (conns w 0)"
    "conn_fd (conns w 0) = 5" "sock_log w = []"
proof -
  have pt: "points_to (string_data ''hello'') ''hello''" by (rule points_to_string) simp
  have "buf_wf (outputBuffer (conns demo_world 0))" by (simp add: demo_world_facts)
  from keep_rest_facts[OF demo_world_facts(1) this pt, of 0] obtain w :: world and b where
    w: "conns w = (conns demo_world)(0 := (conns demo_world 0)\<lparr>outputBuffer := b\<rparr>)" "buf_wf b"
      "readable b = ''hello''" "sock_log w = []" "isWriting (chan_of 0 w)" "in_loop demo_kernel 7 0 w"
    by (auto simp: demo_world_facts)
  let ?w = "setHighWaterMarkCallback False 6 0 w"
  have same: "loop_of 0 ?w = loop_of 0 w" "chan_of 0 ?w = chan_of 0 w"
    by (simp_all add: chan_of_def loop_of_def setHighWaterMarkCallback_def)
  have "in_loop demo_kernel 7 0 ?w"
    by (rule in_loop_same[OF w(6) same(1)]) (simp_all add: setHighWaterMarkCallback_def)
  moreover have "conn_inv 0 ?w"
    using w demo_world_facts(2) unfolding conn_inv_def same by (simp add: setHighWaterMarkCallback_def)
  moreover have "isWriting (chan_of 0 ?w)" unfolding same by (rule w(5))
  ultimately show thesis
    using w by (intro that[of ?w]) (simp_all add: setHighWaterMarkCallback_def demo_world_facts)
qed

theorem high_water_empty_callback_witness:
  "\<exists>w' n. conn_exec demo_kernel u 7 (HighWaterMark 0 False n) (w' :: world) = Inl BadFunctionCall \<and>
     ConnTask (HighWaterMark 0 False n) \<in> set (pendingFunctors (loop_of 0 w'))"
proof -
  obtain w :: world where w: "in_loop demo_kernel 7 0 w" "conn_inv 0 w" "isWriting (chan_of 0 w)"
    "readable (outputBuffer (conns w 0)) = ''hello''" "conn_state (conns w 0) = kConnected"
    "highWaterMark (conns w 0) = 6" "\<not> highWaterMarkCallback_set (conns w 0)"
    "conn_fd (conns w 0) = 5" "sock_log w = []"
    by (rule demo_backlog)
  have pt: "points_to (string_data ''x'') ''x''" by (rule points_to_string) simp
  have st: "conn_state (conns w 0) \<in> {kConnected, kDisconnecting}" by (simp add: w)
  from high_water_empty_callback[OF w(1,2) pt _ st w(3) _ _ _ w(7), of u]
  show ?thesis by (fastforce simp: w(4,6))
qed

text \<open>\<open>shutdown\<close> does not stop a send that is already queued. \<open>sendInLoop\<close> gives up only in the state
  kDisconnected, so on a connection that was shut down and has half-closed its socket, a queued message
  still goes to \<open>write\<close>, after the \<open>shutdown(SHUT_WR)\<close>.\<close>

theorem send_after_shutdown:
  assumes "in_loop k tid c w" and "conn_inv c w" and "conn_state (conns w c) = kConnected"
    and "\<not> isWriting (chan_of c w)" and "length s < 2 ^ 64" and "s \<noteq> []"
    and "\<And>log. k_write k log (conn_fd (conns w c)) s = Inr (length s)"
  shows "\<exists>w1 w2. shutdown tid c w = Inr w1 \<and> conn_state (conns w1 c) = kDisconnecting \<and>
    conn_exec k u tid (SendInLoop c s) w1 = Inr w2 \<and>
    sock_log w2 = sock_log w @ [ShutWr (conn_fd (conns w c)), Wrote (conn_fd (conns w c)) s]"
proof -
  let ?fd = "conn_fd (conns w c)"
  have "isInLoopThread tid (get_loop (conn_loop (conns w c)) (setState kDisconnecting c w))"
    using assms(1) by (simp add: isInLoopThread_def in_loop_def get_loop_def loop_of_def)
  then have shut: "shutdown tid c w = Inr (shutdownInLoop c (setState kDisconnecting c w))"
    using assms(3) by (simp add: shutdown_def conn_runInLoop_def in_world.runInLoop_in)
  define w1 where "w1 = log_sock (ShutWr ?fd) (setState kDisconnecting c w)"
  have same: "chan_of c w1 = chan_of c w" "loop_of c w1 = loop_of c w"
    by (simp_all add: w1_def chan_of_def loop_of_def)
  have w1: "shutdownInLoop c (setState kDisconnecting c w) = w1"
    using assms(4) by (simp add: shutdownInLoop_def w1_def) (simp add: chan_of_def loop_of_def)
  have idle: "readableBytes (outputBuffer (conns w c)) = 0"
    using assms(2-4) by (auto simp: conn_inv_def readableBytes_0)
  have pt: "points_to (string_data s) s" by (rule points_to_string[OF assms(5)])
  have "k_write k (sock_log w1) (conn_fd (conns w1 c)) s = Inr (length s)"
    using assms(7) by (simp add: w1_def)
  note dw = direct_write_eq[OF pt this order_refl, where tid = tid]
  define w2 where "w2 = (if writeCompleteCallback_set (conns w1 c)
    then conn_queueInLoop tid c (WriteComplete c) (log_sock (Wrote ?fd s) w1) else log_sock (Wrote ?fd s) w1)"
  have "direct_write k tid c (string_data s) (of_nat (length s)) w1 = Inr ((of_nat (length s), 0, False), w2)"
    using dw by (simp add: w2_def) (simp add: w1_def)
  then have "conn_exec k u tid (SendInLoop c s) w1 = Inr w2"
    using assms(4) idle by (simp add: sendInLoop_string_def sendInLoop_def same) (simp add: w1_def)
  moreover have "sock_log w2 = sock_log w @ [ShutWr ?fd, Wrote ?fd s]" by (simp add: w2_def w1_def)
  ultimately show ?thesis using shut w1 by (intro exI[of _ w1] exI[of _ w2]) (simp add: w1_def)
qed

theorem send_after_shutdown_witness:
  "\<exists>w1 w2. shutdown 7 0 demo_world = Inr w1 \<and>
     conn_exec (demo_kernel\<lparr>k_write := \<lambda>_ _ d. Inr (length d)\<rparr>) u 7 (SendInLoop 0 ''late'') w1 = Inr w2 \<and>
     sock_log w2 = [ShutWr 5, Wrote 5 ''late'']"
proof -
  let ?k = "demo_kernel\<lparr>k_write := \<lambda>_ _ d. Inr (length d)\<rparr>"
  have i: "in_loop ?k 7 0 demo_world" using demo_world_facts(1) by (simp add: in_loop_def)
  from send_after_shutdown[OF i demo_world_facts(2,3,8), of "''late''" u] show ?thesis
    by (auto simp: demo_world_facts)
qed

text \<open>\<open>send\<close> from another thread. A string is not copied: only its address and length are queued, and
  if the caller's string is gone when the loop runs the functor, that reads freed memory. The bytes of a
  Buffer are copied, the buffer is emptied, and the loop later sends exactly these bytes.\<close>

theorem cross_thread_send:
  assumes "conn_state (conns w c) = kConnected" and "\<not> isInLoopThread tid (loop_of c w)"
    and "strings w addr = Some s" and "buf_wf b"
  shows "(\<exists>w1. send_string k tid c addr w = Inr w1 \<and>
      pendingFunctors (loop_of c w1) = pendingFunctors (loop_of c w) @ [ConnTask (SendInLoopPtr c addr (of_nat (length s)))] \<and>
      (\<forall>w2. strings w2 addr = None \<longrightarrow>
        conn_exec k u tid' (SendInLoopPtr c addr (of_nat (length s))) w2 = Inl OutOfBounds)) \<and>
    (\<exists>w1. send_buffer k tid c b w = Inr (retrieveAll b, w1) \<and>
      pendingFunctors (loop_of c w1) = pendingFunctors (loop_of c w) @ [ConnTask (SendInLoop c (readable b))] \<and>
      (\<forall>w2. conn_exec k u tid' (SendInLoop c (readable b)) w2 = sendInLoop_string k tid' c (readable b) w2))"
proof -
  have out: "\<not> isInLoopThread tid (get_loop (conn_loop (conns w c)) w)"
    using assms(2) by (simp add: get_loop_def loop_of_def)
  have run: "conn_runInLoop tid c t f w = Inr (conn_queueInLoop tid c t w)" for t f
    by (simp add: conn_runInLoop_def in_world.runInLoop_out[OF out] conn_queueInLoop_def get_loop_def loop_of_def)
  have pend: "pendingFunctors (loop_of c (conn_queueInLoop tid c t w)) = pendingFunctors (loop_of c w) @ [ConnTask t]" for t
    by (simp add: loop_of_def)
  show ?thesis
    using assms by (simp add: send_string_def send_buffer_def run pend retrieveAllAsString_eq Let_def sendInLoop_ptr_def)
qed

theorem cross_thread_send_witness:
  "\<exists>w1. send_string demo_kernel 8 0 1 (demo_world\<lparr>strings := [1 \<mapsto> ''hi'']\<rparr>) = Inr w1 \<and>
     conn_exec demo_kernel quiet_user 7 (SendInLoopPtr 0 1 2) (w1\<lparr>strings := Map.empty\<rparr>) = Inl OutOfBounds"
proof -
  let ?w = "demo_world\<lparr>strings := [1 \<mapsto> ''hi'']\<rparr>"
  have a: "conn_state (conns ?w 0) = kConnected" "\<not> isInLoopThread 8 (loop_of 0 ?w)" "strings ?w 1 = Some ''hi''"
    by (simp_all add: demo_world_facts)
      (simp add: isInLoopThread_def loop_of_def demo_world_def demo_conn_def demo_loop_def)
  from cross_thread_send[OF a buf_wf_new[of 1], of demo_kernel "quiet_user :: world user_code" 7] obtain w1 where
    "send_string demo_kernel 8 0 1 ?w = Inr w1"
    "\<And>w2 :: world. strings w2 1 = None \<Longrightarrow> conn_exec demo_kernel quiet_user 7 (SendInLoopPtr 0 1 2) w2 = Inl OutOfBounds"
    by auto
  then show ?thesis by (intro exI[of _ w1]) simp
qed

section \<open>What the operations leave alone\<close>

text \<open>Names, callbacks and the rest of the world stay, and buffers stay well-formed.\<close>

definition bufs_wf :: "tcp_connection \<Rightarrow> bool" where
  "bufs_wf conn \<longleftrightarrow> buf_wf (inputBuffer conn) \<and> buf_wf (outputBuffer conn)"

definition conn_frame :: "'z world_scheme \<Rightarrow> 'z world_scheme \<Rightarrow> bool" where
  "conn_frame w w' \<longleftrightarrow>
     world.more w' = world.more w \<and>
     (\<forall>c. conn_name (conns w' c) = conn_name (conns w c) \<and>
       closeCallback_set (conns w' c) = closeCallback_set (conns w c) \<and>
       messageCallback_set (conns w' c) = messageCallback_set (conns w c) \<and>
       (bufs_wf (conns w c) \<longrightarrow> bufs_wf (conns w' c)))"

named_theorems frame_intros

lemma conn_frame_refl [frame_intros, simp]: "conn_frame w w"
  by (simp add: conn_frame_def)

lemma conn_frame_trans: "conn_frame w w' \<Longrightarrow> conn_frame w' w'' \<Longrightarrow> conn_frame w w''"
  by (auto simp: conn_frame_def)

lemma conn_frame_prims [frame_intros]:
  "conn_frame w w' \<Longrightarrow> conn_frame w (put_loop lid l w')"
  "conn_frame w w' \<Longrightarrow> conn_frame w (log_sock e w')"
  "conn_frame w w' \<Longrightarrow> conn_frame w (conn_queueInLoop tid c t w')"
  "conn_frame w w' \<Longrightarrow> conn_frame w (setState st c w')"
  "conn_frame w w' \<Longrightarrow> conn_frame w (w'\<lparr>strings := m\<rparr>)"
  "conn_frame w w' \<Longrightarrow> conn_frame w (shutdownInLoop c w')"
  "conn_frame w w' \<Longrightarrow> conn_frame w (snd (sys_write k fd d w'))"
  by (auto simp: conn_frame_def bufs_wf_def shutdownInLoop_def sys_write_def split: sum.split)

lemma conn_frame_set_out [frame_intros]:
  "conn_frame w w' \<Longrightarrow> (buf_wf (outputBuffer (conns w' c)) \<Longrightarrow> buf_wf b) \<Longrightarrow>
     conn_frame w (set_conn c ((conns w' c)\<lparr>outputBuffer := b\<rparr>) w')"
  by (auto simp: conn_frame_def bufs_wf_def)

lemma conn_frame_set_in [frame_intros]:
  "conn_frame w w' \<Longrightarrow> (buf_wf (inputBuffer (conns w' c)) \<Longrightarrow> buf_wf b) \<Longrightarrow>
     conn_frame w (set_conn c ((conns w' c)\<lparr>inputBuffer := b\<rparr>) w')"
  by (auto simp: conn_frame_def bufs_wf_def)

lemma conn_channel_op_frame: "conn_channel_op f k tid c w = Inr w' \<Longrightarrow> conn_frame w w'"
  by (auto simp: conn_channel_op_def on_loop_def Let_def bindR_eq_Inr intro: frame_intros)

lemma keep_rest_frame:
  assumes "keep_rest k tid c data nwrote remaining w = Inr w'"
  shows "conn_frame w w'"
proof -
  let ?conn = "conns w c"
  define w1 where "w1 = (let oldLen = of_nat (readableBytes (outputBuffer ?conn)) in
    if highWaterMark ?conn \<le> oldLen + remaining \<and> oldLen < highWaterMark ?conn \<and> highWaterMark ?conn \<noteq> 0
    then conn_queueInLoop tid c (HighWaterMark c (highWaterMarkCallback_set ?conn) (oldLen + remaining)) w else w)"
  have f1: "conn_frame w w1" "conns w1 = conns w" by (simp_all add: w1_def Let_def frame_intros)
  from assms obtain rest where "mem_read data nwrote remaining = Inr rest" and w':
    "(let w2 = set_conn c (?conn\<lparr>outputBuffer := buf_append rest (outputBuffer ?conn)\<rparr>) w1 in
      if \<not> isWriting (chan_of c w2) then conn_channel_op enableWriting k tid c w2 else Inr w2) = Inr w'"
    by (auto simp: keep_rest_def Let_def bindR_eq_Inr w1_def)
  let ?w2 = "set_conn c (?conn\<lparr>outputBuffer := buf_append rest (outputBuffer ?conn)\<rparr>) w1"
  have "conn_frame w ?w2"
    using conn_frame_set_out[OF f1(1), of c "buf_append rest (outputBuffer ?conn)"]
    by (simp add: f1(2) buf_wf_append)
  moreover have "?w2 = w' \<or> conn_frame ?w2 w'"
    using w' by (auto simp: Let_def split: if_splits dest: conn_channel_op_frame)
  ultimately show ?thesis by (auto intro: conn_frame_trans)
qed

lemma sendInLoop_frame:
  assumes "sendInLoop k tid c data len w = Inr w'"
  shows "conn_frame w w'"
proof (cases "conn_state (conns w c) = kDisconnected")
  case True
  with assms show ?thesis by (simp add: sendInLoop_def)
next
  case False
  with assms obtain nwrote remaining fe w1 where
    d: "(if \<not> isWriting (chan_of c w) \<and> readableBytes (outputBuffer (conns w c)) = 0
         then direct_write k tid c data len w else Inr ((0, len, False), w)) = Inr ((nwrote, remaining, fe), w1)"
    and r: "(if \<not> fe \<and> 0 < remaining then keep_rest k tid c data nwrote remaining w1 else Inr w1) = Inr w'"
    by (auto simp: sendInLoop_def bindR_eq_Inr)
  have "conn_frame w w1"
    using d by (auto simp: direct_write_def bindR_eq_Inr Let_def case_prod_unfold sys_write_def
        split: if_splits sum.splits intro!: frame_intros)
  with r show ?thesis by (auto split: if_splits dest: keep_rest_frame intro: conn_frame_trans)
qed

lemma handleWrite_frame:
  assumes "handleWrite k tid c w = Inr w'"
  shows "conn_frame w w'"
proof (cases "isWriting (chan_of c w)")
  case False
  with assms show ?thesis by (simp add: handleWrite_def)
next
  case True
  let ?conn = "conns w c"
  obtain n e s where wf: "writeFd (k_write k (sock_log w) (conn_fd ?conn) (readable (outputBuffer ?conn))) (outputBuffer ?conn) = (n, e, s)"
    by (metis surj_pair)
  define w1 where "w1 = log_sock (case e of Some e \<Rightarrow> WriteFailed (conn_fd ?conn) e | None \<Rightarrow> Wrote (conn_fd ?conn) s) w"
  define w2 where "w2 = set_conn c (?conn\<lparr>outputBuffer := retrieve (nat n) (outputBuffer ?conn)\<rparr>) w1"
  have f1: "conn_frame w w1" "conns w1 = conns w" by (simp_all add: w1_def frame_intros)
  have f2: "conn_frame w w2"
    using conn_frame_set_out[OF f1(1), of c "retrieve (nat n) (outputBuffer ?conn)"]
    by (simp add: w2_def f1(2) buf_wf_retrieve)
  have "w' = w1 \<or> w' = w2 \<or> (\<exists>w3. conn_channel_op disableWriting k tid c w2 = Inr w3 \<and> conn_frame w3 w')"
    using assms True wf
    by (auto simp: handleWrite_def Let_def bindR_eq_Inr w1_def[symmetric] w2_def[symmetric]
        split: if_splits intro!: frame_intros)
  with f1(1) f2 show ?thesis by (auto dest!: conn_channel_op_frame intro: conn_frame_trans)
qed

text \<open>The three steps of a connection's life, for callbacks that leave the world alone.\<close>

lemma chan_of_events_set_fd [simp]:
  "chan_fd (chan_of c (events_set ev c w)) = chan_fd (chan_of c w)"
  by (simp add: chan_of_def loop_of_def events_set_def updated_fields)

lemma events_set_watch:
  assumes "in_loop k tid c (events_set ev c w)"
  shows "ev \<noteq> kNoneEvent \<Longrightarrow> interest (ctl_log (loop_of c (events_set ev c w))) (chan_fd (chan_of c w)) = Some ev"
    and "chan_index (chan_of c w) = kAdded \<Longrightarrow> ev = kNoneEvent \<Longrightarrow>
      interest (ctl_log (loop_of c (events_set ev c w))) (chan_fd (chan_of c w)) = None"
    and "ev \<noteq> kNoneEvent \<Longrightarrow> chan_index (chan_of c (events_set ev c w)) = kAdded"
proof -
  have l: "loop_of c (events_set ev c w) = updated (conn_channel (conns w c)) ev (loop_of c w)"
    by (simp add: loop_of_def events_set_def)
  have "loop_ok (updated (conn_channel (conns w c)) ev (loop_of c w))"
    using assms by (simp add: in_loop_def l)
  note watch = updated_watch[OF this]
  show "ev \<noteq> kNoneEvent \<Longrightarrow> interest (ctl_log (loop_of c (events_set ev c w))) (chan_fd (chan_of c w)) = Some ev"
    using watch(1) by (simp add: l chan_of_def)
  show "chan_index (chan_of c w) = kAdded \<Longrightarrow> ev = kNoneEvent \<Longrightarrow>
      interest (ctl_log (loop_of c (events_set ev c w))) (chan_fd (chan_of c w)) = None"
    using watch(2) unfolding l chan_of_def by simp
  show "ev \<noteq> kNoneEvent \<Longrightarrow> chan_index (chan_of c (events_set ev c w)) = kAdded"
    using watch(3) by (simp add: l chan_of_def)
qed

lemma connectEstablished_facts:
  assumes "in_loop k tid c w" and "chan_events (chan_of c w) = kNoneEvent"
    and "connectionCallback_set (conns w c)"
  shows "\<exists>w1. connectEstablished k u tid c w = on_connection u c w1 \<and> in_loop k tid c w1 \<and>
    world.more w1 = world.more w \<and> sock_log w1 = sock_log w \<and>
    conns w1 = (conns w)(c := (conns w c)\<lparr>conn_state := kConnected\<rparr>) \<and>
    chan_events (chan_of c w1) = kReadEvent \<and> chan_index (chan_of c w1) = kAdded \<and>
    chan_fd (chan_of c w1) = chan_fd (chan_of c w) \<and> chan_tie (chan_of c w1) = Some c \<and>
    interest (ctl_log (loop_of c w1)) (chan_fd (chan_of c w)) = Some kReadEvent"
proof -
  let ?ptr = "conn_channel (conns w c)"
  define wt where "wt = put_loop (conn_loop (conns w c)) (channel_tie c ?ptr (loop_of c w)) (setState kConnected c w)"
  have wt: "loop_of c wt = channel_tie c ?ptr (loop_of c w)"
    "conns wt = (conns w)(c := (conns w c)\<lparr>conn_state := kConnected\<rparr>)"
    by (simp_all add: wt_def loop_of_def)
  have ch: "chan_of c wt = (chan_of c w)\<lparr>chan_tie := Some c\<rparr>"
    by (simp add: chan_of_def wt channel_tie_def)
  have int: "in_loop k tid c wt" using assms(1) by (simp add: in_loop_def wt)
  let ?w1 = "events_set kReadEvent c wt"
  have in1: "in_loop k tid c ?w1" by (rule in_loop_events_set[OF int])
  have none: "kReadEvent \<noteq> kNoneEvent" by (simp add: event_bits)
  have "conn_channel_op enableReading k tid c wt = Inr ?w1"
    using conn_updates(3)[OF int] assms(2) by (simp add: ch kNoneEvent_def)
  then have "connectEstablished k u tid c w = on_connection u c ?w1"
    using assms(3) by (simp add: connectEstablished_def conn_channel_op_def[of "\<lambda>_ _ ptr l. Inr (channel_tie c ptr l)"]
        on_loop_def Let_def call_callback_def wt(2) flip: loop_of_def wt_def)
  moreover have "chan_tie (chan_of c ?w1) = Some c"
    by (simp add: chan_of_def loop_of_def events_set_def updated_fields(5) wt(2)) (simp add: wt_def channel_tie_def)
  moreover have "world.more wt = world.more w" "sock_log wt = sock_log w" by (simp_all add: wt_def)
  ultimately show ?thesis
    using in1 events_set_watch(1,3)[OF in1 none] wt(2) by (intro exI[of _ ?w1]) (simp add: ch)
qed

lemma handleClose_facts:
  assumes "in_loop k tid c w" and "chan_index (chan_of c w) = kAdded"
    and "connectionCallback_set (conns w c)"
  shows "\<exists>w2. handleClose k u tid c w =
      bindR (on_connection u c w2) (\<lambda>w. call_callback (closeCallback_set (conns w c)) (on_close u c) w) \<and>
    in_loop k tid c w2 \<and> world.more w2 = world.more w \<and> sock_log w2 = sock_log w \<and>
    conns w2 = (conns w)(c := (conns w c)\<lparr>conn_state := kDisconnected\<rparr>) \<and>
    chan_events (chan_of c w2) = kNoneEvent \<and> chan_fd (chan_of c w2) = chan_fd (chan_of c w) \<and>
    interest (ctl_log (loop_of c w2)) (chan_fd (chan_of c w)) = None"
proof -
  let ?wd = "setState kDisconnected c w"
  let ?w2 = "events_set kNoneEvent c ?wd"
  have same: "loop_of c ?wd = loop_of c w" "chan_of c ?wd = chan_of c w"
    by (simp_all add: loop_of_def chan_of_def)
  have ind: "in_loop k tid c ?wd" by (rule in_loop_same[OF assms(1) same(1)]) simp_all
  have in2: "in_loop k tid c ?w2" by (rule in_loop_events_set[OF ind])
  have "handleClose k u tid c w =
      bindR (on_connection u c ?w2) (\<lambda>w. call_callback (closeCallback_set (conns w c)) (on_close u c) w)"
    using conn_updates(4)[OF ind] assms(3) by (simp add: handleClose_def call_callback_def kNoneEvent_def)
  with in2 events_set_watch(2)[OF in2] assms(2) same show ?thesis by (intro exI[of _ ?w2]) simp
qed

lemma connectDestroyed_facts:
  assumes "in_loop k tid c w" and "conn_state (conns w c) \<noteq> kConnected"
  shows "if chan_events (chan_of c w) = kNoneEvent
    then \<exists>w3. connectDestroyed k u tid c w = Inr w3 \<and> loop_ok (loop_of c w3) \<and> conns w3 = conns w \<and>
      channels (loop_of c w3) (chan_fd (chan_of c w)) = None
    else connectDestroyed k u tid c w = Inl AssertFailed"
proof -
  let ?ptr = "conn_channel (conns w c)"
  let ?w3 = "put_loop (conn_loop (conns w c)) (removed ?ptr (loop_of c w)) w"
  from assms(1) obtain S where S: "loop_ok (loop_of c w)" "owns S (loop_of c w)" "?ptr \<in> S"
    by (auto simp: in_loop_def)
  have eq: "connectDestroyed k u tid c w =
      (if chan_events (chan_of c w) = kNoneEvent then Inr ?w3 else Inl AssertFailed)"
    using channel_remove_step(1)[OF S] assms(2)
    by (simp add: connectDestroyed_def conn_channel_op_def on_loop_def Let_def loop_of_def chan_of_def)
  show ?thesis
    using eq channel_remove_step(2)[OF S]
    by (auto simp: chan_of_def loop_of_def removed_fields(8) intro!: exI[of _ ?w3])
qed

text \<open>C31: the life of a connection. Established, a fresh connection is kConnected, its channel is tied to
  it and its descriptor is watched for reading; closed by \<open>handleClose\<close>, it is kDisconnected and not
  watched any more; destroyed after that, its channel has left the poller. But a connection that is
  destroyed while it waits in kDisconnecting, as the server's destructor may do, fails the assertion of
  \<open>Channel::remove\<close>: \<open>connectDestroyed\<close> disables the events only in kConnected.\<close>

theorem connection_lifecycle:
  assumes "in_loop k tid c w" and "conn_state (conns w c) = kConnecting"
    and "chan_events (chan_of c w) = kNoneEvent"
    and "connectionCallback_set (conns w c)" and "closeCallback_set (conns w c)"
    and "\<And>w. on_connection u c w = Inr w" and "\<And>w. on_close u c w = Inr w"
  shows "\<exists>w1 w2 w3. connectEstablished k u tid c w = Inr w1 \<and>
    conn_state (conns w1 c) = kConnected \<and> chan_events (chan_of c w1) = kReadEvent \<and>
    chan_tie (chan_of c w1) = Some c \<and>
    interest (ctl_log (loop_of c w1)) (chan_fd (chan_of c w)) = Some kReadEvent \<and>
    connectDestroyed k u tid c (setState kDisconnecting c w1) = Inl AssertFailed \<and>
    handleClose k u tid c w1 = Inr w2 \<and> conn_state (conns w2 c) = kDisconnected \<and>
    interest (ctl_log (loop_of c w2)) (chan_fd (chan_of c w)) = None \<and>
    connectDestroyed k u tid c w2 = Inr w3 \<and> channels (loop_of c w3) (chan_fd (chan_of c w)) = None \<and>
    loop_ok (loop_of c w3)"
proof -
  from connectEstablished_facts[OF assms(1,3,4), of u, unfolded assms(6)] obtain w1 where w1:
    "connectEstablished k u tid c w = Inr w1" "in_loop k tid c w1"
    "conns w1 = (conns w)(c := (conns w c)\<lparr>conn_state := kConnected\<rparr>)"
    "chan_events (chan_of c w1) = kReadEvent" "chan_index (chan_of c w1) = kAdded"
    "chan_fd (chan_of c w1) = chan_fd (chan_of c w)" "chan_tie (chan_of c w1) = Some c"
    "interest (ctl_log (loop_of c w1)) (chan_fd (chan_of c w)) = Some kReadEvent" by blast
  let ?wd = "setState kDisconnecting c w1"
  have same: "loop_of c ?wd = loop_of c w1" "chan_of c ?wd = chan_of c w1"
    by (simp_all add: loop_of_def chan_of_def)
  have "in_loop k tid c ?wd" by (rule in_loop_same[OF w1(2) same(1)]) simp_all
  from connectDestroyed_facts[OF this, of u]
  have early: "connectDestroyed k u tid c ?wd = Inl AssertFailed"
    by (simp add: same w1(4)) (simp add: event_bits)
  from handleClose_facts[OF w1(2,5), of u] assms(4-7) obtain w2 where w2:
    "handleClose k u tid c w1 = Inr w2" "in_loop k tid c w2"
    "conns w2 = (conns w1)(c := (conns w1 c)\<lparr>conn_state := kDisconnected\<rparr>)"
    "chan_events (chan_of c w2) = kNoneEvent" "chan_fd (chan_of c w2) = chan_fd (chan_of c w1)"
    "interest (ctl_log (loop_of c w2)) (chan_fd (chan_of c w1)) = None" by (auto simp: w1(3) call_callback_def)
  from connectDestroyed_facts[OF w2(2), of u] w2(3,4) obtain w3 where
    "connectDestroyed k u tid c w2 = Inr w3" "loop_ok (loop_of c w3)"
    "channels (loop_of c w3) (chan_fd (chan_of c w2)) = None" by auto
  with w1 w2 early show ?thesis by (intro exI[of _ w1] exI[of _ w2] exI[of _ w3]) simp
qed

theorem connection_lifecycle_witness:
  "\<exists>w1. connectEstablished demo_kernel quiet_user 7 0
       (set_conn 0 (demo_conn\<lparr>conn_state := kConnecting\<rparr>) demo_world) = Inr w1 \<and>
     connectDestroyed demo_kernel quiet_user 7 0 (setState kDisconnecting 0 w1) = Inl AssertFailed"
proof -
  let ?w = "set_conn 0 (demo_conn\<lparr>conn_state := kConnecting\<rparr>) demo_world"
  have same: "loop_of 0 ?w = loop_of 0 demo_world" by (simp add: loop_of_def demo_world_def demo_conn_def)
  have i: "in_loop demo_kernel 7 0 ?w"
    by (rule in_loop_same[OF demo_world_facts(1) same]) (simp_all add: demo_world_def demo_conn_def)
  have "chan_events (chan_of 0 ?w) = kNoneEvent"
    by (simp add: chan_of_def loop_of_def demo_conn_def) (simp add: demo_world_def demo_loop_def new_channel_def kNoneEvent_def)
  from connection_lifecycle[OF i _ this, of quiet_user] show ?thesis
    by (auto simp: demo_conn_def quiet_user_def)
qed

end
