(* ===== verification/Thread_Pool.thy ===== *)
theory Thread_Pool
  imports Tcp_Connection
begin

text \<open>
  \<open>Thread\<close> (mymuduo/src/Thread.cc), \<open>EventLoopThread\<close> (EventLoopThread.cc) and
  \<open>EventLoopThreadPool\<close> (EventLoopThreadPool.cc): the threads that run the loops, and the round robin
  that picks one. A loop is its address.
\<close>

section \<open>Thread\<close>

record thread =
  th_started :: bool
  joined :: bool
  th_tid :: nat
  th_name :: string

text \<open>The constructor numbers the threads in \<open>numCreated\<close>; \<open>thread_\<close> is null until \<open>start\<close>.\<close>

definition setDefaultName :: "int \<Rightarrow> string \<Rightarrow> string" where
  "setDefaultName num name = (if name = [] then snprintf 32 (''Thread'' @ show_int num) else name)"

definition new_thread :: "string \<Rightarrow> int \<Rightarrow> thread \<times> int" where
  "new_thread name numCreated =
     (let num = numCreated + 1
      in (\<lparr>th_started = False, joined = False, th_tid = 0, th_name = setDefaultName num name\<rparr>, num))"

text \<open>\<open>start\<close> returns after the new thread has published its id.\<close>

definition thread_start :: "nat \<Rightarrow> thread \<Rightarrow> thread" where
  "thread_start new_tid t = t\<lparr>th_started := True, th_tid := new_tid\<rparr>"

definition thread_join :: "thread \<Rightarrow> thread outcome" where
  "thread_join t =
     (let t = t\<lparr>joined := True\<rparr> in bindR (require NullDeref (th_started t)) (\<lambda>_. Inr t))"

text \<open>Whether the destructor detaches the thread.\<close>

definition thread_detaches :: "thread \<Rightarrow> bool" where
  "thread_detaches t \<longleftrightarrow> th_started t \<and> \<not> joined t"

section \<open>EventLoopThread\<close>

record event_loop_thread =
  elt_loop :: "nat option"
  exiting :: bool
  elt_thread :: thread

definition new_event_loop_thread :: "string \<Rightarrow> int \<Rightarrow> event_loop_thread \<times> int" where
  "new_event_loop_thread name numCreated =
     (let (t, num) = new_thread name numCreated in (\<lparr>elt_loop = None, exiting = False, elt_thread = t\<rparr>, num))"

text \<open>
  The new thread builds its loop, calls the init callback if there is one, and publishes the loop's
  address; \<open>startLoop\<close> waits for that. \<open>spawned\<close> are the thread id, the loop's address and the two
  descriptors the system gives the new thread.
\<close>

record spawned =
  sp_tid :: nat
  sp_loop :: nat
  sp_epollfd :: int
  sp_eventfd :: int

definition threadFunc_init ::
  "kernel \<Rightarrow> bool \<Rightarrow> (nat \<Rightarrow> 'z world_scheme \<Rightarrow> 'z world_scheme outcome) option \<Rightarrow> spawned \<Rightarrow>
   'z world_scheme \<Rightarrow> 'z world_scheme outcome" where
  "threadFunc_init k use_poll cb sp w =
     bindR (new_event_loop (k_ctl k (sp_loop sp)) use_poll (sp_epollfd sp) (sp_eventfd sp) False (sp_loop sp) (sp_tid sp)) (\<lambda>l.
     let w = put_loop (sp_loop sp) l w
     in case cb of Some f \<Rightarrow> f (sp_loop sp) w | None \<Rightarrow> Inr w)"

definition startLoop ::
  "kernel \<Rightarrow> bool \<Rightarrow> (nat \<Rightarrow> 'z world_scheme \<Rightarrow> 'z world_scheme outcome) option \<Rightarrow> spawned \<Rightarrow>
   event_loop_thread \<Rightarrow> 'z world_scheme \<Rightarrow> (nat \<times> event_loop_thread \<times> 'z world_scheme) outcome" where
  "startLoop k use_poll cb sp t w =
     (let t = t\<lparr>elt_thread := thread_start (sp_tid sp) (elt_thread t)\<rparr>
      in bindR (threadFunc_init k use_poll cb sp w) (\<lambda>w.
         Inr (sp_loop sp, t\<lparr>elt_loop := Some (sp_loop sp)\<rparr>, w)))"

text \<open>The end of \<open>threadFunc\<close>, when the loop has returned.\<close>

definition threadFunc_exit :: "event_loop_thread \<Rightarrow> event_loop_thread" where
  "threadFunc_exit t = t\<lparr>elt_loop := None\<rparr>"

text \<open>The destructor, called in the thread \<open>tid\<close>: \<open>if (!loop_)\<close> guards the call through \<open>loop_\<close>.\<close>

definition delete_event_loop_thread ::
  "nat \<Rightarrow> event_loop_thread \<Rightarrow> 'z world_scheme \<Rightarrow> (event_loop_thread \<times> 'z world_scheme) outcome" where
  "delete_event_loop_thread tid t w =
     (let t = t\<lparr>exiting := True\<rparr>
      in if elt_loop t = None
         then case elt_loop t of
             None \<Rightarrow> Inl NullDeref
           | Some lid \<Rightarrow>
               let w = put_loop lid (loop_quit tid (loops w lid)) w
               in bindR (thread_join (elt_thread t)) (\<lambda>th. Inr (t\<lparr>elt_thread := th\<rparr>, w))
         else Inr (t, w))"

section \<open>EventLoopThreadPool\<close>

record thread_pool =
  baseLoop :: nat
  pool_started :: bool
  numThreads :: int
  next_loop :: int
  pool_name :: string
  pool_threads :: "event_loop_thread list"
  pool_loops :: "nat list"

definition new_thread_pool :: "nat \<Rightarrow> string \<Rightarrow> thread_pool" where
  "new_thread_pool base name =
     \<lparr>baseLoop = base, pool_started = False, numThreads = 0, next_loop = 0, pool_name = name,
      pool_threads = [], pool_loops = []\<rparr>"

definition setThreadNum :: "int \<Rightarrow> thread_pool \<Rightarrow> thread_pool" where
  "setThreadNum n p = p\<lparr>numThreads := n\<rparr>"

text \<open>One pass of the loop in \<open>start\<close>, for the number \<open>i\<close>.\<close>

definition pool_spawn ::
  "kernel \<Rightarrow> bool \<Rightarrow> (nat \<Rightarrow> 'z world_scheme \<Rightarrow> 'z world_scheme outcome) option \<Rightarrow> (nat \<Rightarrow> spawned) \<Rightarrow> nat \<Rightarrow>
   thread_pool \<times> int \<times> 'z world_scheme \<Rightarrow> (thread_pool \<times> int \<times> 'z world_scheme) outcome" where
  "pool_spawn k use_poll cb spawn i =
     (\<lambda>(p, numCreated, w).
       let (t, numCreated) = new_event_loop_thread (snprintf (length (pool_name p) + 32) (pool_name p @ show_nat i)) numCreated
       in bindR (startLoop k use_poll cb (spawn i) t w) (\<lambda>(lid, t, w).
          Inr (p\<lparr>pool_threads := pool_threads p @ [t], pool_loops := pool_loops p @ [lid]\<rparr>, numCreated, w)))"

definition pool_start ::
  "kernel \<Rightarrow> bool \<Rightarrow> (nat \<Rightarrow> 'z world_scheme \<Rightarrow> 'z world_scheme outcome) option \<Rightarrow> (nat \<Rightarrow> spawned) \<Rightarrow>
   thread_pool \<times> int \<times> 'z world_scheme \<Rightarrow> (thread_pool \<times> int \<times> 'z world_scheme) outcome" where
  "pool_start k use_poll cb spawn st =
     (let (p, numCreated, w) = st; p = p\<lparr>pool_started := True\<rparr>
      in bindR (foldR (pool_spawn k use_poll cb spawn) [0..<nat (numThreads p)] (p, numCreated, w)) (\<lambda>(p, numCreated, w).
         if numThreads p = 0
         then case cb of
             None \<Rightarrow> Inl BadFunctionCall
           | Some f \<Rightarrow> bindR (f (baseLoop p) w) (\<lambda>w. Inr (p, numCreated, w))
         else Inr (p, numCreated, w)))"

text \<open>\<open>getNextLoop\<close>; \<open>next_ >= loops_.size()\<close> compares as unsigned numbers, and \<open>next_\<close> is never negative.\<close>

definition getNextLoop :: "thread_pool \<Rightarrow> (nat \<times> thread_pool) outcome" where
  "getNextLoop p =
     (if pool_loops p \<noteq> []
      then bindR (require OutOfBounds (0 \<le> next_loop p \<and> nat (next_loop p) < length (pool_loops p))) (\<lambda>_.
        let loop = pool_loops p ! nat (next_loop p);
            n = next_loop p + 1;
            n = (if int (length (pool_loops p)) \<le> n then 0 else n)
        in Inr (loop, p\<lparr>next_loop := n\<rparr>))
      else Inr (baseLoop p, p))"

definition getAllLoops :: "thread_pool \<Rightarrow> nat list" where
  "getAllLoops p = (if pool_loops p = [] then [baseLoop p] else pool_loops p)"

section \<open>Lemmas\<close>

definition pool_wf :: "thread_pool \<Rightarrow> bool" where
  "pool_wf p \<longleftrightarrow> 0 \<le> next_loop p \<and> (pool_loops p \<noteq> [] \<longrightarrow> next_loop p < int (length (pool_loops p)))"

lemma pool_wf_new [simp]: "pool_wf (new_thread_pool base name)"
  by (simp add: pool_wf_def new_thread_pool_def)

lemma getNextLoop_step:
  assumes "pool_wf p"
  shows "getNextLoop p =
    Inr (getAllLoops p ! nat (next_loop p mod int (length (getAllLoops p))),
      if pool_loops p = [] then p
      else p\<lparr>next_loop := (next_loop p + 1) mod int (length (pool_loops p))\<rparr>)"
proof (cases "pool_loops p = []")
  case True
  then show ?thesis by (simp add: getNextLoop_def getAllLoops_def)
next
  case False
  with assms have n: "0 \<le> next_loop p" "next_loop p < int (length (pool_loops p))" by (simp_all add: pool_wf_def)
  then have "(next_loop p + 1) mod int (length (pool_loops p)) =
      (if int (length (pool_loops p)) \<le> next_loop p + 1 then 0 else next_loop p + 1)"
    by (auto simp: not_le) (metis add.commute mod_self zle_add1_eq_le order_antisym zless_imp_add1_zle)
  with n False show ?thesis
    by (simp add: getNextLoop_def getAllLoops_def Let_def nat_less_iff)
qed

text \<open>The loops that \<open>n\<close> calls pick, one after the other.\<close>

fun pick_loops :: "nat \<Rightarrow> thread_pool \<Rightarrow> (nat list \<times> thread_pool) outcome" where
  "pick_loops 0 p = Inr ([], p)"
| "pick_loops (Suc n) p =
     bindR (getNextLoop p) (\<lambda>(lid, p). bindR (pick_loops n p) (\<lambda>(lids, p). Inr (lid # lids, p)))"

text \<open>Connections are dealt to the loops in turn. From any well-formed pool the i-th call of
  \<open>getNextLoop\<close> returns the loop that many places after the current one, wrapping around; a pool
  without threads always returns the base loop. No call is out of bounds.\<close>

theorem getNextLoop_round_robin:
  assumes "pool_wf p"
  shows "\<exists>p'. pick_loops n p =
      Inr (map (\<lambda>i. getAllLoops p ! ((nat (next_loop p) + i) mod length (getAllLoops p))) [0..<n], p') \<and>
    pool_wf p' \<and> pool_loops p' = pool_loops p"
  using assms
proof (induction n arbitrary: p)
  case (Suc n)
  let ?ls = "getAllLoops p" and ?k = "nat (next_loop p)"
  let ?p1 = "if pool_loops p = [] then p
      else p\<lparr>next_loop := (next_loop p + 1) mod int (length (pool_loops p))\<rparr>"
  have m: "0 < length ?ls" by (simp add: getAllLoops_def)
  have wf1: "pool_wf ?p1" using Suc.prems by (auto simp: pool_wf_def)
  have all1: "getAllLoops ?p1 = ?ls" "pool_loops ?p1 = pool_loops p" by (simp_all add: getAllLoops_def)
  have pos: "0 \<le> next_loop p" using Suc.prems by (simp add: pool_wf_def)
  have idx: "(nat (next_loop ?p1) + i) mod length ?ls = (?k + Suc i) mod length ?ls" for i
  proof (cases "pool_loops p = []")
    case True
    then show ?thesis by (simp add: getAllLoops_def)
  next
    case False
    then have "nat (next_loop ?p1) = (?k + 1) mod length ?ls"
      using pos by (simp add: getAllLoops_def nat_mod_distrib nat_add_distrib)
    then show ?thesis by (simp add: mod_add_left_eq)
  qed
  have first: "?ls ! nat (next_loop p mod int (length ?ls)) = ?ls ! (?k mod length ?ls)"
    using pos by (simp add: nat_mod_distrib)
  from Suc.IH[OF wf1] obtain p' where p': "pick_loops n ?p1 =
      Inr (map (\<lambda>i. ?ls ! ((?k + Suc i) mod length ?ls)) [0..<n], p')" "pool_wf p'" "pool_loops p' = pool_loops p"
    unfolding all1 idx by auto
  have "map (\<lambda>i. ?ls ! ((?k + i) mod length ?ls)) [0..<Suc n] =
      ?ls ! (?k mod length ?ls) # map (\<lambda>i. ?ls ! ((?k + Suc i) mod length ?ls)) [0..<n]"
    by (simp add: upt_conv_Cons map_Suc_upt[symmetric] del: upt_Suc)
  with p' getNextLoop_step[OF Suc.prems] first show ?case by (intro exI[of _ p']) simp
qed simp

theorem getNextLoop_round_robin_witness:
  "\<exists>p'. pick_loops 4 ((new_thread_pool 1 ''pool'')\<lparr>pool_loops := [11, 12, 13]\<rparr>) = Inr ([11, 12, 13, 11], p')"
proof -
  let ?p = "(new_thread_pool 1 ''pool'')\<lparr>pool_loops := [11, 12, 13]\<rparr>"
  have "pool_wf ?p" by (simp add: pool_wf_def new_thread_pool_def)
  from getNextLoop_round_robin[OF this, of 4] show ?thesis
    by (auto simp: getAllLoops_def new_thread_pool_def upt_rec)
qed

text \<open>A pool without threads cannot be started without an init callback: \<open>start\<close> calls it without
  asking whether it is empty, although its default argument is. And the destructor of an
  \<open>EventLoopThread\<close> has its test the wrong way round: while the loop runs it neither quits nor joins it,
  and once the loop has returned it calls \<open>quit\<close> through the null pointer.\<close>

theorem pool_start_and_thread_end:
  "(numThreads p = 0 \<longrightarrow> pool_start k use_poll None spawn (p, n, w) = Inl BadFunctionCall) \<and>
   (elt_loop t = Some lid \<longrightarrow> delete_event_loop_thread tid t w = Inr (t\<lparr>exiting := True\<rparr>, w)) \<and>
   delete_event_loop_thread tid (threadFunc_exit t) w = Inl NullDeref"
  by (simp add: pool_start_def delete_event_loop_thread_def threadFunc_exit_def)

theorem pool_start_and_thread_end_witness:
  "pool_start demo_kernel False None (\<lambda>i. \<lparr>sp_tid = 8, sp_loop = 2, sp_epollfd = 3, sp_eventfd = 4\<rparr>)
     (new_thread_pool 1 ''p'', 0, demo_world) = Inl BadFunctionCall"
  using pool_start_and_thread_end[of "new_thread_pool 1 ''p''" demo_kernel False
      "\<lambda>i. \<lparr>sp_tid = 8, sp_loop = 2, sp_epollfd = 3, sp_eventfd = 4\<rparr>" 0 demo_world "fst (new_event_loop_thread ''t'' 0)" 0 0]
  by (simp add: new_thread_pool_def)

section \<open>Starting a pool\<close>

lemma startLoop_facts:
  assumes "accepts_legal (k_ctl k (sp_loop sp))" and "0 \<le> sp_epollfd sp" and "0 \<le> sp_eventfd sp"
  shows "\<exists>l t'. startLoop k False None sp t w = Inr (sp_loop sp, t', put_loop (sp_loop sp) l w) \<and>
    loop_ok l \<and> threadId l = sp_tid sp \<and> loop_id l = sp_loop sp \<and> elt_loop t' = Some (sp_loop sp) \<and>
    interest (ctl_log l) = [sp_eventfd sp \<mapsto> kReadEvent] \<and> pendingFunctors l = [] \<and> owns {wakeup_ptr} l"
proof -
  from new_event_loop_facts[OF assms, of "sp_loop sp" "sp_tid sp"] obtain l :: "task event_loop" where
    "new_event_loop (k_ctl k (sp_loop sp)) False (sp_epollfd sp) (sp_eventfd sp) False (sp_loop sp) (sp_tid sp) = Inr l"
    "loop_ok l" "interest (ctl_log l) = [sp_eventfd sp \<mapsto> kReadEvent]" "pendingFunctors l = []"
    "threadId l = sp_tid sp" "loop_id l = sp_loop sp" "owns {wakeup_ptr} l" by blast
  then show ?thesis
    by (intro exI[of _ l] exI[of _ "t\<lparr>elt_loop := Some (sp_loop sp), elt_thread := thread_start (sp_tid sp) (elt_thread t)\<rparr>"])
      (simp add: startLoop_def threadFunc_init_def Let_def)
qed

text \<open>A loop as a new thread leaves it: nothing to call, and no channel but the one it is woken by.\<close>

definition idle_loop :: "nat \<Rightarrow> task event_loop \<Rightarrow> bool" where
  "idle_loop lid l \<longleftrightarrow> loop_id l = lid \<and> pendingFunctors l = [] \<and> owns {wakeup_ptr} l"

lemma pool_spawn_all:
  assumes "\<And>lid. accepts_legal (k_ctl k lid)" and "\<And>i. 0 \<le> sp_epollfd (spawn i) \<and> 0 \<le> sp_eventfd (spawn i)"
    and "inj (\<lambda>i. sp_loop (spawn i))"
  shows "\<exists>p' m' w'. foldR (pool_spawn k False None spawn) [0..<n] (p, m, w) = Inr (p', m', w') \<and>
    pool_loops p' = pool_loops p @ map (\<lambda>i. sp_loop (spawn i)) [0..<n] \<and>
    numThreads p' = numThreads p \<and> next_loop p' = next_loop p \<and> pool_started p' = pool_started p \<and>
    baseLoop p' = baseLoop p \<and> world.more w' = world.more w \<and> conns w' = conns w \<and> sock_log w' = sock_log w \<and>
    (\<forall>lid. lid \<notin> (\<lambda>i. sp_loop (spawn i)) ` {..<n} \<longrightarrow> loops w' lid = loops w lid) \<and>
    (\<forall>i < n. loop_ok (loops w' (sp_loop (spawn i))) \<and> threadId (loops w' (sp_loop (spawn i))) = sp_tid (spawn i) \<and>
      interest (ctl_log (loops w' (sp_loop (spawn i)))) = [sp_eventfd (spawn i) \<mapsto> kReadEvent] \<and>
      idle_loop (sp_loop (spawn i)) (loops w' (sp_loop (spawn i))))"
proof (induction n)
  case (Suc n)
  then obtain p1 m1 w1 where IH: "foldR (pool_spawn k False None spawn) [0..<n] (p, m, w) = Inr (p1, m1, w1)"
    "pool_loops p1 = pool_loops p @ map (\<lambda>i. sp_loop (spawn i)) [0..<n]"
    "numThreads p1 = numThreads p" "next_loop p1 = next_loop p" "pool_started p1 = pool_started p" "baseLoop p1 = baseLoop p"
    "world.more w1 = world.more w" "conns w1 = conns w" "sock_log w1 = sock_log w"
    "\<forall>lid. lid \<notin> (\<lambda>i. sp_loop (spawn i)) ` {..<n} \<longrightarrow> loops w1 lid = loops w lid"
    "\<forall>i < n. loop_ok (loops w1 (sp_loop (spawn i))) \<and> threadId (loops w1 (sp_loop (spawn i))) = sp_tid (spawn i) \<and>
      interest (ctl_log (loops w1 (sp_loop (spawn i)))) = [sp_eventfd (spawn i) \<mapsto> kReadEvent] \<and>
      idle_loop (sp_loop (spawn i)) (loops w1 (sp_loop (spawn i)))" by blast
  obtain t num where t: "new_event_loop_thread (snprintf (length (pool_name p1) + 32) (pool_name p1 @ show_nat n)) m1 = (t, num)"
    by (metis surj_pair)
  from startLoop_facts[OF assms(1), of "spawn n" t w1] assms(2)[of n] obtain l t' where
    l: "startLoop k False None (spawn n) t w1 = Inr (sp_loop (spawn n), t', put_loop (sp_loop (spawn n)) l w1)"
      "loop_ok l" "threadId l = sp_tid (spawn n)" "interest (ctl_log l) = [sp_eventfd (spawn n) \<mapsto> kReadEvent]"
      "idle_loop (sp_loop (spawn n)) l" by (auto simp: idle_loop_def)
  have st: "pool_spawn k False None spawn n (p1, m1, w1) =
      Inr (p1\<lparr>pool_threads := pool_threads p1 @ [t'], pool_loops := pool_loops p1 @ [sp_loop (spawn n)]\<rparr>, num,
        put_loop (sp_loop (spawn n)) l w1)" by (simp add: pool_spawn_def t l(1))
  have other: "i < n \<Longrightarrow> sp_loop (spawn i) \<noteq> sp_loop (spawn n)" for i
    using assms(3) by (auto dest: injD)
  show ?case
    by (intro exI[of _ "p1\<lparr>pool_threads := pool_threads p1 @ [t'], pool_loops := pool_loops p1 @ [sp_loop (spawn n)]\<rparr>"]
        exI[of _ num] exI[of _ "put_loop (sp_loop (spawn n)) l w1"])
      (use IH l other in \<open>auto simp: foldR_append st less_Suc_eq lessThan_Suc\<close>)
qed simp

lemma pool_start_facts:
  assumes "\<And>lid. accepts_legal (k_ctl k lid)" and "\<And>i. 0 \<le> sp_epollfd (spawn i) \<and> 0 \<le> sp_eventfd (spawn i)"
    and "inj (\<lambda>i. sp_loop (spawn i))" and "0 < numThreads p" and "pool_loops p = []" and "next_loop p = 0"
  shows "\<exists>p' m' w'. pool_start k False None spawn (p, m, w) = Inr (p', m', w') \<and> pool_wf p' \<and> pool_started p' \<and>
    baseLoop p' = baseLoop p \<and> world.more w' = world.more w \<and> conns w' = conns w \<and> sock_log w' = sock_log w \<and>
    (\<forall>lid. lid \<notin> (\<lambda>i. sp_loop (spawn i)) ` {..<nat (numThreads p)} \<longrightarrow> loops w' lid = loops w lid) \<and>
    pool_loops p' = map (\<lambda>i. sp_loop (spawn i)) [0..<nat (numThreads p)] \<and>
    (\<forall>i < nat (numThreads p). loop_ok (loops w' (sp_loop (spawn i))) \<and>
      threadId (loops w' (sp_loop (spawn i))) = sp_tid (spawn i) \<and>
      interest (ctl_log (loops w' (sp_loop (spawn i)))) = [sp_eventfd (spawn i) \<mapsto> kReadEvent] \<and>
      idle_loop (sp_loop (spawn i)) (loops w' (sp_loop (spawn i))))"
proof -
  let ?n = "nat (numThreads p)"
  from pool_spawn_all[OF assms(1-3), of ?n "p\<lparr>pool_started := True\<rparr>" m w] obtain p' m' w' where
    w': "foldR (pool_spawn k False None spawn) [0..<?n] (p\<lparr>pool_started := True\<rparr>, m, w) = Inr (p', m', w')"
      "pool_loops p' = map (\<lambda>i. sp_loop (spawn i)) [0..<?n]" "numThreads p' = numThreads p" "next_loop p' = 0"
      "pool_started p'" "baseLoop p' = baseLoop p" "world.more w' = world.more w" "conns w' = conns w" "sock_log w' = sock_log w"
      "\<forall>lid. lid \<notin> (\<lambda>i. sp_loop (spawn i)) ` {..<?n} \<longrightarrow> loops w' lid = loops w lid"
      "\<forall>i < ?n. loop_ok (loops w' (sp_loop (spawn i))) \<and> threadId (loops w' (sp_loop (spawn i))) = sp_tid (spawn i) \<and>
        interest (ctl_log (loops w' (sp_loop (spawn i)))) = [sp_eventfd (spawn i) \<mapsto> kReadEvent] \<and>
        idle_loop (sp_loop (spawn i)) (loops w' (sp_loop (spawn i)))"
    using assms(5,6) by auto
  moreover have "pool_start k False None spawn (p, m, w) = Inr (p', m', w')"
    using w'(1,3) assms(4) by (simp add: pool_start_def)
  moreover have "pool_wf p'" using w'(2,4) assms(4) by (simp add: pool_wf_def)
  ultimately show ?thesis by blast
qed

text \<open>A pool with threads starts all of them. With kernels that accept legal \<open>epoll_ctl\<close> calls and
  descriptors for every thread, \<open>start\<close> does not fault, and afterwards the pool deals out exactly the new
  loops, in order; each runs in its own thread, with its channels in order, and watches its eventfd.\<close>

theorem pool_start_spawns:
  assumes "\<And>lid. accepts_legal (k_ctl k lid)" and "\<And>i. 0 \<le> sp_epollfd (spawn i) \<and> 0 \<le> sp_eventfd (spawn i)"
    and "inj (\<lambda>i. sp_loop (spawn i))" and "0 < numThreads p" and "pool_loops p = []" and "next_loop p = 0"
  shows "\<exists>p' m' w'. pool_start k False None spawn (p, m, w) = Inr (p', m', w') \<and> pool_wf p' \<and> pool_started p' \<and>
    pool_loops p' = map (\<lambda>i. sp_loop (spawn i)) [0..<nat (numThreads p)] \<and>
    (\<forall>i < nat (numThreads p). loop_ok (loops w' (sp_loop (spawn i))) \<and>
      threadId (loops w' (sp_loop (spawn i))) = sp_tid (spawn i) \<and>
      interest (ctl_log (loops w' (sp_loop (spawn i)))) = [sp_eventfd (spawn i) \<mapsto> kReadEvent])"
proof -
  from pool_start_facts[OF assms, of m w] show ?thesis
    by (elim exE conjE, intro exI conjI) (assumption | simp)+
qed

theorem pool_start_spawns_witness:
  "\<exists>p' m' w'. pool_start demo_kernel False None
       (\<lambda>i. \<lparr>sp_tid = 8 + i, sp_loop = 2 + i, sp_epollfd = 3, sp_eventfd = 4\<rparr>)
       (setThreadNum 2 (new_thread_pool 1 ''p''), 0, demo_world) = Inr (p', m', w') \<and> pool_loops p' = [2, 3]"
proof -
  let ?spawn = "\<lambda>i. \<lparr>sp_tid = 8 + i, sp_loop = 2 + i, sp_epollfd = 3, sp_eventfd = 4\<rparr>"
  have a: "accepts_legal (k_ctl demo_kernel lid)" for lid
    by (simp add: demo_kernel_def accepts_legal_def)
  have i: "inj (\<lambda>i. sp_loop (?spawn i))" by (simp add: inj_def)
  from pool_start_spawns[OF a _ i, of "setThreadNum 2 (new_thread_pool 1 ''p'')" 0 demo_world]
  show ?thesis by (fastforce simp: setThreadNum_def new_thread_pool_def upt_rec)
qed

end
