(* ===== verification/Tcp_Server.thy ===== *)
theory Tcp_Server
  imports Thread_Pool
begin

text \<open>
  \<open>Socket\<close> (mymuduo/src/Socket.cc), \<open>Acceptor\<close> (mymuduo/src/Acceptor.cc) and \<open>TcpServer\<close>
  (mymuduo/include/mymuduo/TcpServer.h, mymuduo/src/TcpServer.cc). The state of the server is the world of
  \<open>Tcp_Connection\<close> extended by the acceptor, the pool and the map of connections. A channel's
  callbacks are found by its owner, which the constructor that binds them records.
\<close>

section \<open>State\<close>

record acceptor =
  acc_loop :: nat
  acc_fd :: int
  acc_channel :: nat
  newConnectionCallback_set :: bool
  listenning :: bool

datatype owner = NoOwner | WakeupOwner | AcceptorOwner | ConnOwner nat

record server_world = world +
  chan_owner :: "nat \<Rightarrow> nat \<Rightarrow> owner"
  srv_loop :: nat
  srv_ipPort :: string
  srv_name :: string
  srv_acceptor :: acceptor
  srv_pool :: thread_pool
  srv_connectionCallback_set :: bool
  srv_messageCallback_set :: bool
  srv_writeCompleteCallback_set :: bool
  srv_threadInitCallback_set :: bool
  srv_started :: int
  nextConnId :: int
  connections :: "string \<rightharpoonup> nat"

datatype reuse_option = kNoReusePort | kReusePort

section \<open>Socket\<close>

definition socket_bindAddress :: "int \<Rightarrow> sockaddr_in \<Rightarrow> int \<Rightarrow> 'z world_scheme \<Rightarrow> 'z world_scheme outcome" where
  "socket_bindAddress fd addr rc w =
     (if rc \<noteq> 0 then Inl Aborted else Inr (log_sock (SockBind fd addr) w))"

definition socket_listen :: "int \<Rightarrow> int \<Rightarrow> 'z world_scheme \<Rightarrow> 'z world_scheme outcome" where
  "socket_listen fd rc w = (if rc \<noteq> 0 then Inl Aborted else Inr (log_sock (SockListen fd) w))"

text \<open>\<open>accept4\<close> answers a descriptor and the peer's address, or a negative number, which is fatal here.\<close>

definition socket_accept ::
  "int \<Rightarrow> int \<times> sockaddr_in \<Rightarrow> 'z world_scheme \<Rightarrow> (int \<times> sockaddr_in \<times> 'z world_scheme) outcome" where
  "socket_accept fd answer w =
     (let (connfd, addr) = answer in
      if 0 \<le> connfd then Inr (connfd, addr, log_sock (SockAccept fd connfd) w) else Inl Aborted)"

text \<open>The destructor.\<close>

definition delete_socket :: "int \<Rightarrow> 'z world_scheme \<Rightarrow> 'z world_scheme" where
  "delete_socket fd w = log_sock (SockClose fd) w"

definition socket_setReuseAddr :: "int \<Rightarrow> bool \<Rightarrow> 'z world_scheme \<Rightarrow> 'z world_scheme" where
  "socket_setReuseAddr fd on w = log_sock (SetSockOpt fd ''SO_REUSEADDR'' on) w"

definition socket_setReusePort :: "int \<Rightarrow> bool \<Rightarrow> 'z world_scheme \<Rightarrow> 'z world_scheme" where
  "socket_setReusePort fd on w = log_sock (SetSockOpt fd ''SO_REUSEPORT'' on) w"

definition socket_setKeepAlive :: "int \<Rightarrow> bool \<Rightarrow> 'z world_scheme \<Rightarrow> 'z world_scheme" where
  "socket_setKeepAlive fd on w = log_sock (SetSockOpt fd ''SO_KEEPALIVE'' on) w"

section \<open>Acceptor\<close>

definition createNoneBlockingOrDie :: "int \<Rightarrow> int outcome" where
  "createNoneBlockingOrDie sockfd = (if sockfd < 0 then Inl Aborted else Inr sockfd)"

text \<open>The constructor, with the channel at \<open>ptr\<close>; \<open>sockfd\<close> and \<open>rc\<close> are what \<open>socket\<close> and \<open>bind\<close> answer.\<close>

definition new_acceptor ::
  "nat \<Rightarrow> nat \<Rightarrow> sockaddr_in \<Rightarrow> bool \<Rightarrow> int \<Rightarrow> int \<Rightarrow> 'z world_scheme \<Rightarrow> (acceptor \<times> 'z world_scheme) outcome" where
  "new_acceptor lid ptr listenAddr reuseport sockfd rc w =
     bindR (createNoneBlockingOrDie sockfd) (\<lambda>fd.
     let w = put_loop lid (set_chan ptr (new_channel lid fd) (loops w lid)) w;
         w = socket_setKeepAlive fd True w;
         w = socket_setReuseAddr fd True w
     in bindR (socket_bindAddress fd listenAddr rc w) (\<lambda>w.
        Inr (\<lparr>acc_loop = lid, acc_fd = fd, acc_channel = ptr, newConnectionCallback_set = False,
              listenning = False\<rparr>, w)))"

definition delete_acceptor :: "kernel \<Rightarrow> nat \<Rightarrow> acceptor \<Rightarrow> 'z world_scheme \<Rightarrow> 'z world_scheme outcome" where
  "delete_acceptor k tid a w =
     (let lid = acc_loop a; kc = k_ctl k lid in
      bindR (on_loop lid (disableAll kc tid (acc_channel a)) w) (\<lambda>w.
      bindR (on_loop lid (channel_remove kc (acc_channel a)) w) (\<lambda>w.
      Inr (delete_socket (acc_fd a) w))))"

definition acceptor_listen ::
  "kernel \<Rightarrow> int \<Rightarrow> nat \<Rightarrow> acceptor \<Rightarrow> 'z world_scheme \<Rightarrow> (acceptor \<times> 'z world_scheme) outcome" where
  "acceptor_listen k rc tid a w =
     (let lid = acc_loop a in
      bindR (assertInLoopThread tid (loops w lid)) (\<lambda>_.
      let a = a\<lparr>listenning := True\<rparr> in
      bindR (socket_listen (acc_fd a) rc w) (\<lambda>w.
      bindR (on_loop lid (enableReading (k_ctl k lid) tid (acc_channel a)) w) (\<lambda>w. Inr (a, w)))))"

text \<open>\<open>handleRead\<close>, with the callback when there is one.\<close>

definition acceptor_handleRead ::
  "(int \<Rightarrow> sockaddr_in \<Rightarrow> 'z world_scheme \<Rightarrow> 'z world_scheme outcome) option \<Rightarrow> acceptor \<Rightarrow> int \<times> sockaddr_in \<Rightarrow>
   nat \<Rightarrow> 'z world_scheme \<Rightarrow> 'z world_scheme outcome" where
  "acceptor_handleRead newConnectionCallback a answer tid w =
     bindR (assertInLoopThread tid (loops w (acc_loop a))) (\<lambda>_.
     bindR (socket_accept (acc_fd a) answer w) (\<lambda>(connfd, peer, w).
     case newConnectionCallback of
       Some f \<Rightarrow> f connfd peer w
     | None \<Rightarrow> Inr (log_sock (SockClose connfd) w)))"

section \<open>TcpServer\<close>

text \<open>
  The addresses and kernel answers that a new connection takes: where its object and its channel are
  put, and what \<open>getsockname\<close> returns (\<open>None\<close> on failure).
\<close>

record arrival =
  arr_conn :: nat
  arr_channel :: nat
  arr_local :: "sockaddr_in option"

definition CheckLoopNotNull :: "nat option \<Rightarrow> nat outcome" where
  "CheckLoopNotNull loop = (case loop of None \<Rightarrow> Inl Aborted | Some lid \<Rightarrow> Inr lid)"

text \<open>The constructor puts the server's members into the world \<open>w\<close> of its base loop.\<close>

definition new_tcp_server ::
  "nat option \<Rightarrow> nat \<Rightarrow> sockaddr_in \<Rightarrow> string \<Rightarrow> reuse_option \<Rightarrow> int \<Rightarrow> int \<Rightarrow> world \<Rightarrow> server_world outcome" where
  "new_tcp_server loop ptr listenAddr name option sockfd rc w =
     bindR (CheckLoopNotNull loop) (\<lambda>lid.
     bindR (toIPport listenAddr) (\<lambda>ipPort.
     bindR (new_acceptor lid ptr listenAddr (option = kReusePort) sockfd rc w) (\<lambda>(a, w).
     Inr \<lparr>loops = loops w, conns = conns w, sock_log = sock_log w, strings = strings w,
          chan_owner = (\<lambda>l p. if l = lid \<and> p = ptr then AcceptorOwner
                             else if p = wakeup_ptr then WakeupOwner else NoOwner),
          srv_loop = lid, srv_ipPort = ipPort, srv_name = name,
          srv_acceptor = a\<lparr>newConnectionCallback_set := True\<rparr>, srv_pool = new_thread_pool lid name,
          srv_connectionCallback_set = False, srv_messageCallback_set = False,
          srv_writeCompleteCallback_set = False, srv_threadInitCallback_set = False,
          srv_started = 0, nextConnId = 1, connections = Map.empty\<rparr>)))"

definition server_setThreadNum :: "int \<Rightarrow> 'z server_world_scheme \<Rightarrow> 'z server_world_scheme" where
  "server_setThreadNum n w = w\<lparr>srv_pool := setThreadNum n (srv_pool w)\<rparr>"

definition server_setConnectionCallback :: "bool \<Rightarrow> 'z server_world_scheme \<Rightarrow> 'z server_world_scheme" where
  "server_setConnectionCallback cb w = w\<lparr>srv_connectionCallback_set := cb\<rparr>"

definition server_setMessageCallback :: "bool \<Rightarrow> 'z server_world_scheme \<Rightarrow> 'z server_world_scheme" where
  "server_setMessageCallback cb w = w\<lparr>srv_messageCallback_set := cb\<rparr>"

declare server_setConnectionCallback_def [simp] server_setMessageCallback_def [simp]

definition base_runInLoop ::
  "nat \<Rightarrow> task \<Rightarrow> ('z server_world_scheme \<Rightarrow> 'z server_world_scheme outcome) \<Rightarrow>
   'z server_world_scheme \<Rightarrow> 'z server_world_scheme outcome" where
  "base_runInLoop tid t run w = runInLoop (get_loop (srv_loop w)) (put_loop (srv_loop w)) (\<lambda>_. run) tid t w"

definition removeConnectionInLoop :: "nat \<Rightarrow> nat \<Rightarrow> 'z server_world_scheme \<Rightarrow> 'z server_world_scheme" where
  "removeConnectionInLoop tid c w =
     (let w = w\<lparr>connections := (connections w)(conn_name (conns w c) := None)\<rparr>
      in conn_queueInLoop tid c (ConnectDestroyed c) w)"

definition removeConnection ::
  "nat \<Rightarrow> nat \<Rightarrow> 'z server_world_scheme \<Rightarrow> 'z server_world_scheme outcome" where
  "removeConnection tid c w =
     base_runInLoop tid (RemoveConnectionInLoop c) (\<lambda>w. Inr (removeConnectionInLoop tid c w)) w"

text \<open>The callbacks of a connection of the server: the application's, and the server's own close callback.\<close>

definition server_user ::
  "'z server_world_scheme user_code \<Rightarrow> nat \<Rightarrow> 'z server_world_scheme user_code" where
  "server_user app tid = app\<lparr>on_close := removeConnection tid\<rparr>"

definition connection_name :: "'z server_world_scheme \<Rightarrow> string" where
  "connection_name w = srv_name w @ snprintf 64 (''-'' @ srv_ipPort w @ ''#'' @ show_int (nextConnId w))"

definition newConnection ::
  "kernel \<Rightarrow> 'z server_world_scheme user_code \<Rightarrow> arrival \<Rightarrow> nat \<Rightarrow> int \<Rightarrow> sockaddr_in \<Rightarrow>
   'z server_world_scheme \<Rightarrow> 'z server_world_scheme outcome" where
  "newConnection k app arr tid sockfd peer w =
     bindR (assertInLoopThread tid (loops w (srv_loop w))) (\<lambda>_.
     bindR (getNextLoop (srv_pool w)) (\<lambda>(ioLoop, pool).
     let connName = connection_name w;
         w = w\<lparr>srv_pool := pool, nextConnId := nextConnId w + 1\<rparr> in
     case arr_local arr of
       None \<Rightarrow> Inl Aborted
     | Some local \<Rightarrow>
         let c = arr_conn arr in
         bindR (new_tcp_connection c (arr_channel arr) (Some ioLoop) connName sockfd local peer w) (\<lambda>w.
         let w = w\<lparr>chan_owner := (chan_owner w)(ioLoop := (chan_owner w ioLoop)(arr_channel arr := ConnOwner c)),
                   connections := (connections w)(connName \<mapsto> c)\<rparr>;
             conn = conns w c;
             conn = setConnectionCallback (srv_connectionCallback_set w) conn;
             conn = setMessageCallback (srv_messageCallback_set w) conn;
             conn = setWriteCompleteCallback (srv_writeCompleteCallback_set w) conn;
             conn = setWriteCompleteCallback (srv_writeCompleteCallback_set w) conn;
             conn = setCloseCallback True conn;
             w = set_conn c conn w
         in conn_runInLoop tid c (ConnectEstablished c) (connectEstablished k (server_user app tid) tid c) w)))"

text \<open>The acceptor as a member of the server, with \<open>newConnection\<close> as its callback.\<close>

definition server_listen ::
  "kernel \<Rightarrow> int \<Rightarrow> nat \<Rightarrow> 'z server_world_scheme \<Rightarrow> 'z server_world_scheme outcome" where
  "server_listen k rc tid w =
     bindR (acceptor_listen k rc tid (srv_acceptor w) w) (\<lambda>(a, w). Inr (w\<lparr>srv_acceptor := a\<rparr>))"

definition server_accept ::
  "kernel \<Rightarrow> 'z server_world_scheme user_code \<Rightarrow> int \<times> sockaddr_in \<Rightarrow> arrival \<Rightarrow> nat \<Rightarrow>
   'z server_world_scheme \<Rightarrow> 'z server_world_scheme outcome" where
  "server_accept k app answer arr tid w =
     (let a = srv_acceptor w in
      acceptor_handleRead (if newConnectionCallback_set a then Some (newConnection k app arr tid) else None) a answer tid w)"

lemma server_accept_eq:
  "server_accept k app answer arr tid w =
     (let a = srv_acceptor w in
      bindR (assertInLoopThread tid (loops w (acc_loop a))) (\<lambda>_.
      bindR (socket_accept (acc_fd a) answer w) (\<lambda>(connfd, peer, w).
      if newConnectionCallback_set a then newConnection k app arr tid connfd peer w
      else Inr (log_sock (SockClose connfd) w))))"
  by (simp add: server_accept_def acceptor_handleRead_def Let_def)

lemma server_listen_eq:
  fixes w :: "'z server_world_scheme"
  shows "server_listen k rc tid w =
     (let a = srv_acceptor w; lid = acc_loop a in
      bindR (assertInLoopThread tid (loops w lid)) (\<lambda>_.
      let w = w\<lparr>srv_acceptor := a\<lparr>listenning := True\<rparr>\<rparr> in
      bindR (socket_listen (acc_fd a) rc w) (\<lambda>w.
      on_loop lid (enableReading (k_ctl k lid) tid (acc_channel a)) w)))"
  by (cases w) (simp add: server_listen_def acceptor_listen_def socket_listen_def on_loop_def put_loop_def log_sock_def
      Let_def bindR_assoc)

text \<open>\<open>start\<close>: \<open>spawn\<close> and \<open>numCreated\<close> are those of the pool, \<open>rc\<close> is what \<open>listen\<close> answers.\<close>

definition server_start ::
  "kernel \<Rightarrow> bool \<Rightarrow> (nat \<Rightarrow> 'z server_world_scheme \<Rightarrow> 'z server_world_scheme outcome) \<Rightarrow> (nat \<Rightarrow> spawned) \<Rightarrow>
   int \<Rightarrow> int \<Rightarrow> nat \<Rightarrow> 'z server_world_scheme \<Rightarrow> 'z server_world_scheme outcome" where
  "server_start k use_poll init spawn numCreated rc tid w =
     (let first = (srv_started w = 0); w = w\<lparr>srv_started := srv_started w + 1\<rparr> in
      if first
      then bindR (pool_start k use_poll (if srv_threadInitCallback_set w then Some init else None) spawn
                    (srv_pool w, numCreated, w)) (\<lambda>(pool, _, w).
           base_runInLoop tid AcceptorListen (server_listen k rc tid) (w\<lparr>srv_pool := pool\<rparr>))
      else Inr w)"

text \<open>
  The destructor: every connection of the map, in the order \<open>cs\<close> in which the map is walked, is
  destroyed in its loop.
\<close>

definition delete_tcp_server ::
  "kernel \<Rightarrow> 'z server_world_scheme user_code \<Rightarrow> nat list \<Rightarrow> nat \<Rightarrow> 'z server_world_scheme \<Rightarrow>
   'z server_world_scheme outcome" where
  "delete_tcp_server k app cs tid w =
     foldR (\<lambda>c w. conn_runInLoop tid c (ConnectDestroyed c) (connectDestroyed k (server_user app tid) tid c) w) cs w"

section \<open>The server's loops\<close>

text \<open>
  \<open>env\<close> gives the answers of \<open>accept4\<close> and the addresses of new objects, as functions of the state; it
  stands for the kernel and the allocator.
\<close>

record 'w environment =
  env_accept :: "'w \<Rightarrow> int \<times> sockaddr_in"
  env_arrival :: "'w \<Rightarrow> arrival"
  env_listen :: int

definition server_handlers ::
  "kernel \<Rightarrow> 'z server_world_scheme user_code \<Rightarrow> 'z server_world_scheme environment \<Rightarrow> nat \<Rightarrow> nat \<Rightarrow> nat \<Rightarrow>
   'z server_world_scheme handlers" where
  "server_handlers k app env tid lid ptr =
     (let u = server_user app tid in
      \<lparr>readCallback = Some (\<lambda>t w. case chan_owner w lid ptr of
          NoOwner \<Rightarrow> Inr w
        | WakeupOwner \<Rightarrow> Inr (put_loop lid (loop_handleRead (loops w lid)) w)
        | AcceptorOwner \<Rightarrow> server_accept k app (env_accept env w) (env_arrival env w) tid w
        | ConnOwner c \<Rightarrow> handleRead k u tid c t w),
       writeCallback = Some (\<lambda>w. case chan_owner w lid ptr of
          ConnOwner c \<Rightarrow> handleWrite k tid c w | _ \<Rightarrow> Inr w),
       closeCallback = Some (\<lambda>w. case chan_owner w lid ptr of
          ConnOwner c \<Rightarrow> handleClose k u tid c w | _ \<Rightarrow> Inr w),
       errorCallback = Some (\<lambda>w. case chan_owner w lid ptr of
          ConnOwner c \<Rightarrow> handleError c w | _ \<Rightarrow> Inr w)\<rparr>)"

fun server_exec ::
  "kernel \<Rightarrow> 'z server_world_scheme user_code \<Rightarrow> 'z server_world_scheme environment \<Rightarrow> nat \<Rightarrow> task \<Rightarrow>
   'z server_world_scheme \<Rightarrow> 'z server_world_scheme outcome" where
  "server_exec k app env tid (ConnTask t) w = conn_exec k (server_user app tid) tid t w"
| "server_exec k app env tid (RemoveConnectionInLoop c) w = Inr (removeConnectionInLoop tid c w)"
| "server_exec k app env tid AcceptorListen w = server_listen k (env_listen env) tid w"

text \<open>A run of the loop \<open>lid\<close>, in its thread \<open>tid\<close>; every connection object is kept alive by its owner.\<close>

definition server_run ::
  "kernel \<Rightarrow> 'z server_world_scheme user_code \<Rightarrow> 'z server_world_scheme environment \<Rightarrow> nat \<Rightarrow> nat \<Rightarrow>
   ((int + (32 word \<times> int) list) \<times> timestamp) list \<Rightarrow> 'z server_world_scheme \<Rightarrow> 'z server_world_scheme outcome" where
  "server_run k app env tid lid =
     loop_run (get_loop lid) (put_loop lid) (server_exec k app env tid) (\<lambda>w obj. True)
       (server_handlers k app env tid lid)"

section \<open>The map of connections\<close>

definition name_of :: "'z server_world_scheme \<Rightarrow> int \<Rightarrow> string" where
  "name_of w i = srv_name w @ snprintf 64 (''-'' @ srv_ipPort w @ ''#'' @ show_int i)"

text \<open>
  The invariant: every buffer of every connection is well-formed; and as long as the counter has not
  passed an \<open>int\<close>, each entry of the map carries its own connection's name, made from a number already
  used, and that connection will tell the server when it closes.
\<close>

definition entries_ok :: "'z server_world_scheme \<Rightarrow> bool" where
  "entries_ok w \<longleftrightarrow>
     (\<forall>name c. connections w name = Some c \<longrightarrow>
        conn_name (conns w c) = name \<and> closeCallback_set (conns w c) \<and> (\<exists>i \<in> {1..<nextConnId w}. name = name_of w i))"

definition server_inv :: "'z server_world_scheme \<Rightarrow> bool" where
  "server_inv w \<longleftrightarrow>
     (\<forall>c. bufs_wf (conns w c)) \<and> finite (dom (connections w)) \<and> length (srv_ipPort w) \<le> 21 \<and>
     1 \<le> nextConnId w \<and> (nextConnId w \<le> 2 ^ 31 \<longrightarrow> entries_ok w)"

text \<open>What the application and the environment have to keep: new objects get unused addresses.\<close>

definition app_keeps :: "'z server_world_scheme user_code \<Rightarrow> bool" where
  "app_keeps app \<longleftrightarrow>
     (\<forall>w w' c t n. server_inv w \<longrightarrow>
       (on_connection app c w = Inr w' \<longrightarrow> server_inv w') \<and> (on_message app c t w = Inr w' \<longrightarrow> server_inv w') \<and>
       (on_writeComplete app c w = Inr w' \<longrightarrow> server_inv w') \<and> (on_highWaterMark app c n w = Inr w' \<longrightarrow> server_inv w'))"

definition fresh_env :: "'z server_world_scheme environment \<Rightarrow> bool" where
  "fresh_env env \<longleftrightarrow>
     (\<forall>w. finite (dom (connections w)) \<longrightarrow> arr_conn (env_arrival env w) \<notin> ran (connections w))"

lemma same_server:
  fixes w w' :: "'z server_world_scheme"
  assumes "world.more w' = world.more w"
  shows "connections w' = connections w" "nextConnId w' = nextConnId w" "srv_name w' = srv_name w"
    "srv_ipPort w' = srv_ipPort w" "chan_owner w' = chan_owner w" "srv_loop w' = srv_loop w"
    "srv_acceptor w' = srv_acceptor w" "srv_pool w' = srv_pool w" "srv_started w' = srv_started w"
    "srv_connectionCallback_set w' = srv_connectionCallback_set w"
    "srv_messageCallback_set w' = srv_messageCallback_set w"
    "srv_writeCompleteCallback_set w' = srv_writeCompleteCallback_set w"
    "srv_threadInitCallback_set w' = srv_threadInitCallback_set w"
  using assms by (cases w; cases w'; simp)+

lemma server_inv_frame: "server_inv w \<Longrightarrow> conn_frame w w' \<Longrightarrow> server_inv w'"
  unfolding server_inv_def conn_frame_def entries_ok_def name_of_def
  by (auto simp: same_server[of w' w])

text \<open>Different numbers make different names.\<close>

lemma show_int_inject: "0 \<le> i \<Longrightarrow> 0 \<le> j \<Longrightarrow> show_int i = show_int j \<Longrightarrow> i = j"
  by (auto simp: show_int_def)

lemma name_of_inject:
  assumes "length (srv_ipPort w) \<le> 21" and "i \<in> {1..<2 ^ 31}" and "j \<in> {1..<2 ^ 31}" and "name_of w i = name_of w j"
  shows "i = j"
proof -
  have short: "length (show_int n) \<le> 10" if "n \<in> {1..<2 ^ 31}" for n
  proof -
    have "nat n < 10 ^ 10" using that by auto
    then have "length (show_nat (nat n)) \<le> 10" by (rule length_show_nat) simp
    with that show ?thesis by (simp add: show_int_def)
  qed
  have "snprintf 64 (''-'' @ srv_ipPort w @ ''#'' @ show_int n) = ''-'' @ srv_ipPort w @ ''#'' @ show_int n"
    if "n \<in> {1..<2 ^ 31}" for n
    by (rule snprintf_fits) (use short[OF that] assms(1) in simp)
  from this[OF assms(2)] this[OF assms(3)] assms(4) have "show_int i = show_int j"
    by (simp add: name_of_def)
  with assms(2,3) show ?thesis by (auto intro: show_int_inject)
qed

section \<open>Every step keeps the invariant\<close>

text \<open>
  The context in which the server's loop runs: an application and an environment that keep their side.
\<close>

locale server_setup =
  fixes k :: kernel
    and app :: "'z server_world_scheme user_code"
    and env :: "'z server_world_scheme environment"
    and tid :: nat
    and lid :: nat
  assumes app: "app_keeps app" and env: "fresh_env env"
begin

abbreviation "user \<equiv> server_user app tid"

lemma put_loop_inv: "server_inv w \<Longrightarrow> server_inv (put_loop i l w)"
  by (rule server_inv_frame, assumption) (rule conn_frame_prims(1)[OF conn_frame_refl])

lemma log_inv: "server_inv w \<Longrightarrow> server_inv (log_sock e w)"
  by (rule server_inv_frame, assumption) (rule conn_frame_prims(2)[OF conn_frame_refl])

lemma setState_inv: "server_inv w \<Longrightarrow> server_inv (setState st c w)"
  by (rule server_inv_frame, assumption) (rule conn_frame_prims(4)[OF conn_frame_refl])

lemma channel_op_inv: "server_inv w \<Longrightarrow> conn_channel_op f k tid' c w = Inr w' \<Longrightarrow> server_inv w'"
  by (rule server_inv_frame, assumption, rule conn_channel_op_frame)

lemma removeConnectionInLoop_inv: "server_inv w \<Longrightarrow> server_inv (removeConnectionInLoop tid' c w)"
proof -
  assume inv: "server_inv w"
  let ?w = "w\<lparr>connections := (connections w)(conn_name (conns w c) := None)\<rparr>"
  have "server_inv ?w" using inv by (auto simp: server_inv_def entries_ok_def name_of_def)
  moreover have "conn_frame ?w (conn_queueInLoop tid' c (ConnectDestroyed c) ?w)"
    by (rule conn_frame_prims(3)[OF conn_frame_refl])
  ultimately show ?thesis by (simp add: removeConnectionInLoop_def server_inv_frame)
qed

lemma removeConnection_inv: "server_inv w \<Longrightarrow> removeConnection tid' c w = Inr w' \<Longrightarrow> server_inv w'"
  by (cases "isInLoopThread tid' (get_loop (srv_loop w) w)")
    (auto simp: removeConnection_def base_runInLoop_def runInLoop_def removeConnectionInLoop_inv put_loop_inv)

lemma call_inv:
  "server_inv w \<Longrightarrow> call_callback b f w = Inr w' \<Longrightarrow> (\<And>w w'. server_inv w \<Longrightarrow> f w = Inr w' \<Longrightarrow> server_inv w') \<Longrightarrow>
     server_inv w'"
  by (cases b) (simp_all add: call_callback_def)

lemma user_inv:
  assumes "server_inv w"
  shows "on_connection user c w = Inr w' \<Longrightarrow> server_inv w'"
    and "on_message user c t w = Inr w' \<Longrightarrow> server_inv w'"
    and "on_highWaterMark user c n w = Inr w' \<Longrightarrow> server_inv w'"
    and "on_writeComplete user c w = Inr w' \<Longrightarrow> server_inv w'"
    and "on_close user c w = Inr w' \<Longrightarrow> server_inv w'"
proof -
  note keeps = app[unfolded app_keeps_def, rule_format, OF assms]
  show "on_connection user c w = Inr w' \<Longrightarrow> server_inv w'" using keeps[of c] by (simp add: server_user_def)
  show "on_message user c t w = Inr w' \<Longrightarrow> server_inv w'" using keeps[of c] by (simp add: server_user_def)
  show "on_highWaterMark user c n w = Inr w' \<Longrightarrow> server_inv w'" using keeps[of c] by (simp add: server_user_def)
  show "on_writeComplete user c w = Inr w' \<Longrightarrow> server_inv w'" using keeps[of c] by (simp add: server_user_def)
  show "on_close user c w = Inr w' \<Longrightarrow> server_inv w'"
    using removeConnection_inv[OF assms] by (simp add: server_user_def)
qed

lemma connectEstablished_inv:
  assumes "server_inv w" and "connectEstablished k user tid c w = Inr w'"
  shows "server_inv w'"
proof -
  from assms(2) obtain w1 w2 where
    1: "conn_channel_op (\<lambda>_ _ ptr l. Inr (channel_tie c ptr l)) k tid c (setState kConnected c w) = Inr w1"
    and 2: "conn_channel_op enableReading k tid c w1 = Inr w2"
    and 3: "call_callback (connectionCallback_set (conns w2 c)) (on_connection user c) w2 = Inr w'"
    by (auto simp: connectEstablished_def bindR_eq_Inr)
  have "server_inv w2" by (rule channel_op_inv[OF channel_op_inv[OF setState_inv[OF assms(1)] 1] 2])
  then show ?thesis by (rule call_inv[OF _ 3 user_inv(1)])
qed

lemma handleClose_inv:
  assumes "server_inv w" and "handleClose k user tid c w = Inr w'"
  shows "server_inv w'"
proof -
  from assms(2) obtain w1 w2 where
    1: "conn_channel_op disableAll k tid c (setState kDisconnected c w) = Inr w1"
    and 2: "call_callback (connectionCallback_set (conns w1 c)) (on_connection user c) w1 = Inr w2"
    and 3: "call_callback (closeCallback_set (conns w2 c)) (on_close user c) w2 = Inr w'"
    by (auto simp: handleClose_def bindR_eq_Inr)
  have i1: "server_inv w1" by (rule channel_op_inv[OF setState_inv[OF assms(1)] 1])
  have "server_inv w2" by (rule call_inv[OF i1 2 user_inv(1)])
  then show ?thesis by (rule call_inv[OF _ 3 user_inv(5)])
qed

lemma connectDestroyed_inv:
  assumes "server_inv w" and "connectDestroyed k user tid c w = Inr w'"
  shows "server_inv w'"
proof -
  from assms(2) obtain w1 where
    1: "(if conn_state (conns w c) = kConnected
         then bindR (conn_channel_op disableAll k tid c (setState kDisconnected c w)) (\<lambda>w.
           call_callback (connectionCallback_set (conns w c)) (on_connection user c) w)
         else Inr w) = Inr w1"
    and 2: "conn_channel_op (\<lambda>kc _. channel_remove kc) k tid c w1 = Inr w'"
    unfolding connectDestroyed_def bindR_eq_Inr by blast
  have "server_inv w1"
  proof (cases "conn_state (conns w c) = kConnected")
    case True
    with 1 obtain w0 where
      a: "conn_channel_op disableAll k tid c (setState kDisconnected c w) = Inr w0"
      and b: "call_callback (connectionCallback_set (conns w0 c)) (on_connection user c) w0 = Inr w1"
      by (auto simp: bindR_eq_Inr)
    have "server_inv w0" by (rule channel_op_inv[OF setState_inv[OF assms(1)] a])
    then show ?thesis by (rule call_inv[OF _ b user_inv(1)])
  qed (use 1 assms(1) in simp)
  then show ?thesis by (rule channel_op_inv[OF _ 2])
qed

lemma handleError_inv: "server_inv w \<Longrightarrow> handleError c w = Inr w' \<Longrightarrow> server_inv w'"
  by (auto simp: handleError_def intro: log_inv)

lemma handleRead_inv:
  assumes "server_inv w" and run: "handleRead k user tid c t w = Inr w'"
  shows "server_inv w'"
proof -
  let ?conn = "conns w c"
  let ?answer = "k_read k (sock_log w) (conn_fd ?conn)"
  obtain n e b where r: "readFd ?answer (inputBuffer ?conn) = (n, e, b)" by (metis surj_pair)
  define w1 where "w1 = log_sock (case ?answer of Inl e \<Rightarrow> ReadFailed (conn_fd ?conn) e
      | Inr d \<Rightarrow> ReadData (conn_fd ?conn) d) w"
  let ?w2 = "set_conn c (?conn\<lparr>inputBuffer := b\<rparr>) w1"
  have f1: "conn_frame w w1" "conns w1 = conns w"
    unfolding w1_def by (rule conn_frame_prims(2)[OF conn_frame_refl]) simp
  have "buf_wf (inputBuffer ?conn) \<Longrightarrow> buf_wf b"
    using buf_wf_readFd[of "inputBuffer ?conn" ?answer] by (simp add: r)
  then have "conn_frame w ?w2" using conn_frame_set_in[OF f1(1), of c b] by (simp add: f1(2))
  with assms(1) have i2: "server_inv ?w2" by (rule server_inv_frame)
  have eq: "handleRead k user tid c t w =
      (if 0 < n then call_callback (messageCallback_set ?conn) (on_message user c t) ?w2
       else if n = 0 then handleClose k user tid c ?w2 else handleError c ?w2)"
    by (simp add: handleRead_def Let_def r w1_def)
  consider "0 < n" | "n = 0" | "n < 0" by linarith
  then show ?thesis
  proof cases
    case 1
    with run eq have "call_callback (messageCallback_set ?conn) (on_message user c t) ?w2 = Inr w'" by simp
    then show ?thesis by (rule call_inv[OF i2 _ user_inv(2)])
  next
    case 2
    with run eq have "handleClose k user tid c ?w2 = Inr w'" by simp
    then show ?thesis by (rule handleClose_inv[OF i2])
  next
    case 3
    with run eq have "handleError c ?w2 = Inr w'" by simp
    then show ?thesis by (rule handleError_inv[OF i2])
  qed
qed

lemma handleWrite_inv: "server_inv w \<Longrightarrow> handleWrite k tid c w = Inr w' \<Longrightarrow> server_inv w'"
  by (rule server_inv_frame, assumption, rule handleWrite_frame)

lemma send_inv: "server_inv w \<Longrightarrow> sendInLoop k tid c data len w = Inr w' \<Longrightarrow> server_inv w'"
  by (rule server_inv_frame, assumption, rule sendInLoop_frame)

lemma conn_exec_inv:
  assumes inv: "server_inv w" and run: "conn_exec k user tid t w = Inr w'"
  shows "server_inv w'"
proof (cases t)
  case (SendInLoop c message)
  with run have "sendInLoop k tid c (string_data message) (of_nat (length message)) w = Inr w'"
    by (simp add: sendInLoop_string_def)
  then show ?thesis by (rule send_inv[OF inv])
next
  case (SendInLoopPtr c addr len)
  with run obtain s where "sendInLoop k tid c (string_data s) len w = Inr w'"
    by (auto simp: sendInLoop_ptr_def split: option.splits)
  then show ?thesis by (rule send_inv[OF inv])
next
  case (ShutdownInLoop c)
  with run have "w' = shutdownInLoop c w" by simp
  then show ?thesis using server_inv_frame[OF inv conn_frame_prims(6)[OF conn_frame_refl]] by simp
next
  case (WriteComplete c)
  with run have "on_writeComplete user c w = Inr w'" by simp
  then show ?thesis by (rule user_inv(4)[OF inv])
next
  case (HighWaterMark c present n)
  with run have "call_callback present (on_highWaterMark user c n) w = Inr w'" by simp
  then show ?thesis by (rule call_inv[OF inv _ user_inv(3)])
next
  case (ConnectEstablished c)
  with run have "connectEstablished k user tid c w = Inr w'" by simp
  then show ?thesis by (rule connectEstablished_inv[OF inv])
next
  case (ConnectDestroyed c)
  with run have "connectDestroyed k user tid c w = Inr w'" by simp
  then show ?thesis by (rule connectDestroyed_inv[OF inv])
qed

lemma newConnection_world:
  assumes "newConnection k app arr tid fd peer w = Inr w'"
  shows "\<exists>w2. conn_runInLoop tid (arr_conn arr) (ConnectEstablished (arr_conn arr))
      (connectEstablished k user tid (arr_conn arr)) w2 = Inr w' \<and>
    (\<exists>conn. conns w2 = (conns w)(arr_conn arr := conn) \<and> bufs_wf conn \<and>
      conn_name conn = connection_name w \<and> closeCallback_set conn) \<and>
    connections w2 = (connections w)(connection_name w \<mapsto> arr_conn arr) \<and>
    nextConnId w2 = nextConnId w + 1 \<and> srv_name w2 = srv_name w \<and> srv_ipPort w2 = srv_ipPort w"
proof -
  from assms obtain ioLoop pool loc where "assertInLoopThread tid (loops w (srv_loop w)) = Inr ()"
    and "getNextLoop (srv_pool w) = Inr (ioLoop, pool)" and "arr_local arr = Some loc"
    by (auto simp: newConnection_def bindR_eq_Inr Let_def split: option.splits)
  with assms show ?thesis
    by (auto simp: newConnection_def Let_def new_tcp_connection_def set_conn_def put_loop_def log_sock_def
        bufs_wf_def intro!: exI buf_wf_new)
qed

lemma newConnection_inv:
  assumes inv: "server_inv w" and new: "arr_conn arr \<notin> ran (connections w)"
    and run: "newConnection k app arr tid fd peer w = Inr w'"
  shows "server_inv w'"
proof -
  let ?c = "arr_conn arr"
  from newConnection_world[OF run] obtain w2 conn where
    run2: "conn_runInLoop tid ?c (ConnectEstablished ?c) (connectEstablished k user tid ?c) w2 = Inr w'"
    and w2: "conns w2 = (conns w)(?c := conn)" "bufs_wf conn" "conn_name conn = connection_name w"
      "closeCallback_set conn" "connections w2 = (connections w)(connection_name w \<mapsto> ?c)"
      "nextConnId w2 = nextConnId w + 1" "srv_name w2 = srv_name w" "srv_ipPort w2 = srv_ipPort w"
    by blast
  have names: "name_of w2 i = name_of w i" for i by (simp add: name_of_def w2)
  have last: "connection_name w = name_of w (nextConnId w)" by (simp add: connection_name_def name_of_def)
  have entries: "entries_ok w2" if "entries_ok w" and "1 \<le> nextConnId w"
    unfolding entries_ok_def
  proof (intro allI impI)
    fix nm d
    assume nm: "connections w2 nm = Some d"
    show "conn_name (conns w2 d) = nm \<and> closeCallback_set (conns w2 d) \<and>
      (\<exists>i \<in> {1..<nextConnId w2}. nm = name_of w2 i)"
    proof (cases "nm = connection_name w")
      case True
      with nm have "d = ?c" by (simp add: w2)
      with True that(2) show ?thesis by (auto simp: w2 names last intro!: bexI[of _ "nextConnId w"])
    next
      case False
      with nm have old: "connections w nm = Some d" by (simp add: w2)
      then have "d \<noteq> ?c" using new by (auto simp: ran_def)
      moreover have "conn_name (conns w d) = nm \<and> closeCallback_set (conns w d) \<and>
          (\<exists>i \<in> {1..<nextConnId w}. nm = name_of w i)"
        using that(1) old unfolding entries_ok_def by blast
      ultimately show ?thesis by (auto simp: w2 names)
    qed
  qed
  have "server_inv w2"
    using inv entries by (auto simp: server_inv_def w2)
  then show ?thesis
    using run2 connectEstablished_inv[of w2] put_loop_inv[of w2]
    by (auto simp: conn_runInLoop_def runInLoop_def split: if_splits)
qed

lemma server_accept_inv:
  assumes "server_inv w" and "arr_conn arr \<notin> ran (connections w)"
    and "server_accept k app answer arr tid w = Inr w'"
  shows "server_inv w'"
proof -
  from assms(3) obtain connfd peer w1 where
    acc: "socket_accept (acc_fd (srv_acceptor w)) answer w = Inr (connfd, peer, w1)"
    and run: "(if newConnectionCallback_set (srv_acceptor w) then newConnection k app arr tid connfd peer w1
      else Inr (log_sock (SockClose connfd) w1)) = Inr w'"
    by (auto simp: server_accept_eq Let_def bindR_eq_Inr)
  from acc have w1: "w1 = log_sock (SockAccept (acc_fd (srv_acceptor w)) connfd) w"
    by (auto simp: socket_accept_def split: prod.splits if_splits)
  have "world.more w1 = world.more w" by (simp add: w1)
  then have "connections w1 = connections w" by (rule same_server(1))
  moreover have "server_inv w1" unfolding w1 by (rule log_inv[OF assms(1)])
  ultimately have w1_facts: "server_inv w1" "connections w1 = connections w" by simp_all
  show ?thesis
  proof (cases "newConnectionCallback_set (srv_acceptor w)")
    case True
    with run have "newConnection k app arr tid connfd peer w1 = Inr w'" by simp
    then show ?thesis by (rule newConnection_inv[rotated 2]) (use w1_facts assms(2) in simp_all)
  next
    case False
    with run have "w' = log_sock (SockClose connfd) w1" by simp
    then show ?thesis using log_inv[OF w1_facts(1)] by simp
  qed
qed

lemma server_listen_inv: "server_inv w \<Longrightarrow> server_listen k' rc tid' w = Inr w' \<Longrightarrow> server_inv w'"
  by (auto simp: server_listen_eq Let_def bindR_eq_Inr socket_listen_def on_loop_def split: if_splits
      intro!: put_loop_inv log_inv) (auto simp: server_inv_def entries_ok_def name_of_def)

lemma server_exec_inv:
  assumes "server_inv w" and "server_exec k app env tid t w = Inr w'"
  shows "server_inv w'"
proof (cases t)
  case (ConnTask ct)
  with assms(2) have "conn_exec k user tid ct w = Inr w'" by simp
  then show ?thesis by (rule conn_exec_inv[OF assms(1)])
next
  case (RemoveConnectionInLoop c)
  with assms show ?thesis using removeConnectionInLoop_inv by auto
next
  case AcceptorListen
  with assms(2) have "server_listen k (env_listen env) tid w = Inr w'" by simp
  then show ?thesis by (rule server_listen_inv[OF assms(1)])
qed

lemma server_handlers_inv:
  assumes "server_inv w" and "handleEvent alive (server_handlers k app env tid i ptr) ch now w = Inr w'"
  shows "server_inv w'"
proof (rule handleEvent_invariant[where P = server_inv, OF assms(2,1)])
  fix f :: "timestamp \<Rightarrow> 'z server_world_scheme \<Rightarrow> 'z server_world_scheme outcome" and w w' :: "'z server_world_scheme"
  assume inv: "server_inv w"
  show "readCallback (server_handlers k app env tid i ptr) = Some f \<Longrightarrow> f now w = Inr w' \<Longrightarrow> server_inv w'"
  proof -
    assume f: "readCallback (server_handlers k app env tid i ptr) = Some f" and run: "f now w = Inr w'"
    have fresh: "arr_conn (env_arrival env w) \<notin> ran (connections w)"
      using env inv by (auto simp: fresh_env_def server_inv_def)
    show ?thesis
    proof (cases "chan_owner w i ptr")
      case NoOwner
      with f run inv show ?thesis by (auto simp: server_handlers_def Let_def)
    next
      case WakeupOwner
      with f run show ?thesis by (auto simp: server_handlers_def Let_def intro: put_loop_inv[OF inv])
    next
      case AcceptorOwner
      with f run have "server_accept k app (env_accept env w) (env_arrival env w) tid w = Inr w'"
        by (auto simp: server_handlers_def Let_def)
      then show ?thesis by (rule server_accept_inv[OF inv fresh])
    next
      case (ConnOwner c)
      with f run have "handleRead k user tid c now w = Inr w'" by (auto simp: server_handlers_def Let_def)
      then show ?thesis by (rule handleRead_inv[OF inv])
    qed
  qed
next
  fix f :: "'z server_world_scheme \<Rightarrow> 'z server_world_scheme outcome" and w w' :: "'z server_world_scheme"
  assume inv: "server_inv w"
  show "writeCallback (server_handlers k app env tid i ptr) = Some f \<Longrightarrow> f w = Inr w' \<Longrightarrow> server_inv w'"
    using handleWrite_inv[OF inv] inv
    by (cases "chan_owner w i ptr") (auto simp: server_handlers_def Let_def)
  show "closeCallback (server_handlers k app env tid i ptr) = Some f \<Longrightarrow> f w = Inr w' \<Longrightarrow> server_inv w'"
    using handleClose_inv[OF inv] inv
    by (cases "chan_owner w i ptr") (auto simp: server_handlers_def Let_def)
  show "errorCallback (server_handlers k app env tid i ptr) = Some f \<Longrightarrow> f w = Inr w' \<Longrightarrow> server_inv w'"
    using handleError_inv[OF inv] inv
    by (cases "chan_owner w i ptr") (auto simp: server_handlers_def Let_def)
qed

end

text \<open>So the server's loop is a client of the event loop that keeps the invariant.\<close>

sublocale server_setup \<subseteq> server_loop: loop_client "get_loop lid" "put_loop lid" "server_exec k app env tid"
  "\<lambda>w obj. True" "server_handlers k app env tid lid" server_inv
  by unfold_locales (auto intro: put_loop_inv server_exec_inv server_handlers_inv)

context server_setup
begin

lemma server_run_inv: "server_inv w \<Longrightarrow> server_run k app env tid lid eps w = Inr w' \<Longrightarrow> server_inv w'"
  unfolding server_run_def by (rule server_loop.loop_run_inv)

end

section \<open>Properties\<close>

lemma server_inv_named:
  assumes inv: "server_inv w'" and last: "nextConnId w' < 2 ^ 31"
  shows "(\<forall>nm c. connections w' nm = Some c \<longrightarrow> conn_name (conns w' c) = nm \<and> closeCallback_set (conns w' c)) \<and>
    inj_on (connections w') (dom (connections w')) \<and> connections w' (connection_name w') = None \<and>
    finite (dom (connections w'))"
proof -
  have ok: "entries_ok w'" using inv last by (simp add: server_inv_def)
  have entry: "conn_name (conns w' c) = nm" "closeCallback_set (conns w' c)"
    "\<exists>i \<in> {1..<nextConnId w'}. nm = name_of w' i" if "connections w' nm = Some c" for nm c
    using ok that unfolding entries_ok_def by blast+
  have "inj_on (connections w') (dom (connections w'))"
    by (rule inj_onI) (metis domD entry(1))
  moreover have "connections w' (connection_name w') = None"
  proof (rule ccontr)
    assume "connections w' (connection_name w') \<noteq> None"
    then obtain d where "connections w' (connection_name w') = Some d" by blast
    from entry(3)[OF this] obtain i where "i \<in> {1..<nextConnId w'}" "connection_name w' = name_of w' i" by blast
    then have i: "i \<in> {1..<nextConnId w'}" "name_of w' (nextConnId w') = name_of w' i"
      by (simp_all add: connection_name_def name_of_def)
    have "nextConnId w' = i"
      by (rule name_of_inject[OF _ _ _ i(2)]) (use inv i(1) last in \<open>auto simp: server_inv_def\<close>)
    with i(1) show False by simp
  qed
  ultimately show ?thesis using entry inv by (auto simp: server_inv_def)
qed

text \<open>The server's map of connections stays in order through every run of its loop. With an
  application that keeps the invariant and an allocator that does not hand out an address in use, and as
  long as the connection counter fits an \<open>int\<close>, after any answers of \<open>epoll_wait\<close>, accepts, reads, closes
  and queued functors: each entry is stored under its own connection's name, no connection has two
  entries, each would tell the server of its close, and the name that the next connection will get is
  not taken, so no entry is ever overwritten.\<close>

theorem server_connections_named:
  assumes "app_keeps app" and "fresh_env env" and "server_inv w"
    and "server_run k app env tid lid eps w = Inr w'" and "nextConnId w' < 2 ^ 31"
  shows "(\<forall>nm c. connections w' nm = Some c \<longrightarrow> conn_name (conns w' c) = nm \<and> closeCallback_set (conns w' c)) \<and>
    inj_on (connections w') (dom (connections w')) \<and> connections w' (connection_name w') = None \<and>
    finite (dom (connections w'))"
proof -
  have ctx: "server_setup app env" by (simp add: server_setup_def assms)
  have "server_inv w'" by (rule server_setup.server_run_inv[OF ctx assms(3,4)])
  then show ?thesis by (rule server_inv_named[OF _ assms(5)])
qed

section \<open>A new connection\<close>

lemma add_channel:
  assumes "loop_ok l" and "owns S l" and "ptr \<notin> S" and "fd \<notin> (\<lambda>q. chan_fd (chans l q)) ` S" and "loop_id l = lid"
  shows "loop_ok (set_chan ptr (new_channel lid fd) l)" "owns (insert ptr S) (set_chan ptr (new_channel lid fd) l)"
proof -
  have idx: "index_ok l" and inv: "legal (ctl_log l)" "interest (ctl_log l) = watched l"
    using assms(1) by (simp_all add: loop_ok_def poller_inv_def)
  have out: "channels l f \<noteq> Some ptr" for f using assms(2,3) by (auto simp: owns_def intro: ranI)
  have free: "channels l fd = None"
  proof (rule ccontr)
    assume "channels l fd \<noteq> None"
    then obtain q where q: "channels l fd = Some q" by blast
    then have "q \<in> S" using assms(2) by (auto simp: owns_def intro: ranI)
    moreover have "chan_fd (chans l q) = fd" using idx q by (simp add: index_ok_def)
    ultimately show False using assms(4) by blast
  qed
  have "index_ok (set_chan ptr (new_channel lid fd) l)"
    using idx out unfolding index_ok_def by (auto simp: new_channel_def index_defs)
  moreover have "watched (set_chan ptr (new_channel lid fd) l) = watched l"
    using out by (auto simp: watched_def fun_eq_iff split: option.split)
  ultimately show "loop_ok (set_chan ptr (new_channel lid fd) l)"
    using assms(1) inv by (auto simp: loop_ok_def poller_inv_def new_channel_def kNoneEvent_def)
  have "chan_fd (chans l q) \<noteq> fd" if "q \<in> S" for q using assms(4) that by auto
  then show "owns (insert ptr S) (set_chan ptr (new_channel lid fd) l)"
    using assms(2,3,5) by (auto simp: owns_def new_channel_def inj_on_def same_more(1)[of "set_chan ptr c l" l for c])
qed

text \<open>\<open>newConnection\<close> up to the point where the connection is handed to its loop.\<close>

lemma newConnection_step:
  assumes "isInLoopThread tid (loops w (srv_loop w))" and "getNextLoop (srv_pool w) = Inr (io, pool)"
    and "arr_local arr = Some loc"
  shows "\<exists>w2. newConnection k app arr tid fd peer w =
      conn_runInLoop tid (arr_conn arr) (ConnectEstablished (arr_conn arr))
        (connectEstablished k (server_user app tid) tid (arr_conn arr)) w2 \<and>
    (\<exists>conn. conns w2 = (conns w)(arr_conn arr := conn) \<and> bufs_wf conn \<and>
      conn_name conn = connection_name w \<and> conn_fd conn = fd \<and> conn_loop conn = io \<and>
      conn_channel conn = arr_channel arr \<and> conn_state conn = kConnecting \<and> closeCallback_set conn \<and>
      connectionCallback_set conn = srv_connectionCallback_set w \<and>
      messageCallback_set conn = srv_messageCallback_set w \<and>
      readable (outputBuffer conn) = [] \<and> readable (inputBuffer conn) = []) \<and>
    loops w2 = (loops w)(io := set_chan (arr_channel arr) (new_channel io fd) (loops w io)) \<and>
    connections w2 = (connections w)(connection_name w \<mapsto> arr_conn arr) \<and>
    nextConnId w2 = nextConnId w + 1 \<and> srv_name w2 = srv_name w \<and> srv_ipPort w2 = srv_ipPort w \<and>
    srv_pool w2 = pool \<and> srv_loop w2 = srv_loop w \<and> sock_log w2 = sock_log w @ [SetSockOpt fd ''SO_KEEPALIVE'' True] \<and>
    chan_owner w2 io (arr_channel arr) = ConnOwner (arr_conn arr)"
  using assms
  by (auto simp: newConnection_def assertInLoopThread_def Let_def new_tcp_connection_def set_conn_def put_loop_def log_sock_def
      bufs_wf_def intro!: exI)

lemma newConnection_facts:
  assumes "isInLoopThread tid (loops w (srv_loop w))" and "getNextLoop (srv_pool w) = Inr (io, pool)"
    and "arr_local arr = Some loc" and "loop_ok (loops w io)" and "owns S (loops w io)" and "loop_id (loops w io) = io"
    and "arr_channel arr \<notin> S" and "fd \<notin> (\<lambda>q. chan_fd (chans (loops w io) q)) ` S"
    and "accepts_legal (k_ctl k io)" and "srv_connectionCallback_set w"
  shows "\<exists>w1. newConnection k app arr tid fd peer w =
      (if threadId (loops w io) = tid then on_connection app (arr_conn arr) w1 else Inr w1) \<and>
    connections w1 = (connections w)(connection_name w \<mapsto> arr_conn arr) \<and> nextConnId w1 = nextConnId w + 1 \<and>
    conn_name (conns w1 (arr_conn arr)) = connection_name w \<and> conn_fd (conns w1 (arr_conn arr)) = fd \<and>
    (if threadId (loops w io) = tid
     then conn_state (conns w1 (arr_conn arr)) = kConnected \<and> in_loop k tid (arr_conn arr) w1 \<and>
       interest (ctl_log (loops w1 io)) fd = Some kReadEvent
     else conn_state (conns w1 (arr_conn arr)) = kConnecting \<and>
       pendingFunctors (loops w1 io) = pendingFunctors (loops w io) @ [ConnTask (ConnectEstablished (arr_conn arr))] \<and>
       ctl_log (loops w1 io) = ctl_log (loops w io))"
proof -
  let ?c = "arr_conn arr" and ?l = "set_chan (arr_channel arr) (new_channel io fd) (loops w io)"
  from newConnection_step[OF assms(1-3), of k app fd peer] obtain w2 conn where
    run: "newConnection k app arr tid fd peer w = conn_runInLoop tid ?c (ConnectEstablished ?c)
        (connectEstablished k (server_user app tid) tid ?c) w2"
    and w2: "conns w2 = (conns w)(?c := conn)" "conn_name conn = connection_name w" "conn_fd conn = fd" "conn_loop conn = io"
      "conn_channel conn = arr_channel arr" "conn_state conn = kConnecting" "connectionCallback_set conn"
      "loops w2 = (loops w)(io := ?l)" "connections w2 = (connections w)(connection_name w \<mapsto> ?c)"
      "nextConnId w2 = nextConnId w + 1"
    using assms(10) by auto
  have l2: "loop_of ?c w2 = ?l" "chan_of ?c w2 = new_channel io fd"
    by (simp_all add: loop_of_def chan_of_def w2)
  have thr: "threadId ?l = threadId (loops w io)" by (rule same_more(2)) simp
  show ?thesis
  proof (cases "threadId (loops w io) = tid")
    case True
    have "in_loop k tid ?c w2"
      using add_channel[OF assms(4,5,7,8,6)] assms(9) True thr unfolding in_loop_def l2 by (auto simp: w2)
    from connectEstablished_facts[OF this, of "server_user app tid"] w2(1,7) obtain w1 where
      w1: "connectEstablished k (server_user app tid) tid ?c w2 = on_connection (server_user app tid) ?c w1"
        "in_loop k tid ?c w1" "world.more w1 = world.more w2"
        "conns w1 = (conns w2)(?c := (conns w2 ?c)\<lparr>conn_state := kConnected\<rparr>)"
        "interest (ctl_log (loop_of ?c w1)) (chan_fd (chan_of ?c w2)) = Some kReadEvent"
      by (auto simp: l2 new_channel_def kNoneEvent_def)
    have "newConnection k app arr tid fd peer w = on_connection app ?c w1"
      using run w1(1) True thr
      by (simp add: conn_runInLoop_def runInLoop_def get_loop_def isInLoopThread_def w2 server_user_def)
    moreover have "interest (ctl_log (loops w1 io)) fd = Some kReadEvent"
      using w1(5) by (simp add: loop_of_def w1(4) w2 l2 new_channel_def)
    ultimately show ?thesis
      using True w1(2) same_server(1,2)[OF w1(3)] by (intro exI[of _ w1]) (simp add: w1(4) w2)
  next
    case False
    let ?w1 = "put_loop io (queueInLoop tid (ConnTask (ConnectEstablished ?c)) ?l) w2"
    have "newConnection k app arr tid fd peer w = Inr ?w1"
      using run False thr
      by (simp add: conn_runInLoop_def runInLoop_def get_loop_def isInLoopThread_def w2)
    moreover have "connections ?w1 = connections w2" "nextConnId ?w1 = nextConnId w2"
      by (rule same_server, simp)+
    moreover have "pendingFunctors ?l = pendingFunctors (loops w io)" by (rule same_more(9)) simp
    ultimately show ?thesis
      using False by (intro exI[of _ ?w1]) (simp add: w2)
  qed
qed

text \<open>C14: a new connection is registered, established and watched. The server's loop accepted \<open>fd\<close> and the pool
  chose the loop \<open>io\<close>: the connection's entry is in the map under a name of its own and the counter has moved on.
  If \<open>io\<close> runs in the same thread, the connection is kConnected and its descriptor is watched for
  reading before the application's callback is called; if it runs in another thread, the connection
  is left in kConnecting, unwatched, and \<open>connectEstablished\<close> is the last functor queued on \<open>io\<close>, which that
  thread will run.\<close>

theorem newConnection_established:
  assumes "isInLoopThread tid (loops w (srv_loop w))" and "getNextLoop (srv_pool w) = Inr (io, pool)"
    and "arr_local arr = Some loc" and "loop_ok (loops w io)" and "owns S (loops w io)" and "loop_id (loops w io) = io"
    and "arr_channel arr \<notin> S" and "fd \<notin> (\<lambda>q. chan_fd (chans (loops w io) q)) ` S"
    and "accepts_legal (k_ctl k io)" and "srv_connectionCallback_set w"
  shows "\<exists>w1. newConnection k app arr tid fd peer w =
      (if threadId (loops w io) = tid then on_connection app (arr_conn arr) w1 else Inr w1) \<and>
    connections w1 = (connections w)(connection_name w \<mapsto> arr_conn arr) \<and> nextConnId w1 = nextConnId w + 1 \<and>
    conn_name (conns w1 (arr_conn arr)) = connection_name w \<and> conn_fd (conns w1 (arr_conn arr)) = fd \<and>
    (if threadId (loops w io) = tid
     then conn_state (conns w1 (arr_conn arr)) = kConnected \<and> in_loop k tid (arr_conn arr) w1 \<and>
       interest (ctl_log (loops w1 io)) fd = Some kReadEvent
     else conn_state (conns w1 (arr_conn arr)) = kConnecting \<and>
       pendingFunctors (loops w1 io) = pendingFunctors (loops w io) @ [ConnTask (ConnectEstablished (arr_conn arr))] \<and>
       ctl_log (loops w1 io) = ctl_log (loops w io))"
  by (rule newConnection_facts[OF assms])

text \<open>A concrete server: it listens on descriptor 0 and serves everything in its base loop.\<close>

definition demo_server :: server_world where
  "demo_server = \<lparr>loops = (\<lambda>_. demo_loop\<lparr>
       chans := (\<lambda>ptr. new_channel 1 (int ptr))(0 := (new_channel 1 0)\<lparr>chan_events := kReadEvent, chan_index := kAdded, addedToLoop := True\<rparr>),
       channels := [0 \<mapsto> 0], ctl_log := [EpollCtl CTL_ADD 0 kReadEvent]\<rparr>),
     conns = (\<lambda>_. demo_conn), sock_log = [], strings = Map.empty,
     chan_owner = (\<lambda>l p. if p = 0 then AcceptorOwner else NoOwner), srv_loop = 1,
     srv_ipPort = ''127.0.0.1:80'', srv_name = ''web'',
     srv_acceptor = \<lparr>acc_loop = 1, acc_fd = 0, acc_channel = 0, newConnectionCallback_set = True, listenning = True\<rparr>,
     srv_pool = new_thread_pool 1 ''web'', srv_connectionCallback_set = True, srv_messageCallback_set = True,
     srv_writeCompleteCallback_set = False, srv_threadInitCallback_set = False, srv_started = 1,
     nextConnId = 1, connections = Map.empty\<rparr>"

definition demo_env :: "'z server_world_scheme environment" where
  "demo_env = \<lparr>env_accept = (\<lambda>w. (5, \<lparr>sin_family = 2, sin_port = 0, sin_addr = (127, 0, 0, 1)\<rparr>)),
     env_arrival = (\<lambda>w. \<lparr>arr_conn = Suc (Max (insert 0 (ran (connections w)))), arr_channel = 5,
       arr_local = Some \<lparr>sin_family = 2, sin_port = 0, sin_addr = (127, 0, 0, 1)\<rparr>\<rparr>),
     env_listen = 0\<rparr>"

lemma demo_server_facts:
  "server_inv demo_server" "fresh_env (demo_env :: 'z server_world_scheme environment)"
  "app_keeps (quiet_user :: 'z server_world_scheme user_code)"
proof -
  show "server_inv demo_server"
    by (simp add: server_inv_def demo_server_def entries_ok_def bufs_wf_def demo_conn_def)
  have "Suc (Max (insert 0 A)) \<notin> A" if "finite A" for A :: "nat set"
    using that by (metis Max_ge Suc_n_not_le_n finite_insert insertI2)
  then show "fresh_env (demo_env :: 'z server_world_scheme environment)"
    by (simp add: fresh_env_def demo_env_def finite_ran)
  show "app_keeps (quiet_user :: 'z server_world_scheme user_code)"
    by (simp add: app_keeps_def quiet_user_def)
qed

theorem server_connections_named_witness:
  "\<exists>w'. server_run demo_kernel quiet_user demo_env 7 1 [(Inr [(0x001, 0)], Timestamp 0)] demo_server = Inr w' \<and>
     connections w' (connection_name w') = None \<and> dom (connections w') = {''web-127.0.0.1:80#1''}"
proof -
  have "\<exists>w'. server_run demo_kernel quiet_user demo_env 7 1 [(Inr [(0x001, 0)], Timestamp 0)] demo_server = Inr w' \<and>
     nextConnId w' = 2 \<and> dom (connections w') = {''web-127.0.0.1:80#1''}"
    by (simp add: server_run_def loop_run_def loop_iteration_def poller_poll_def Let_def require_def
      get_loop_def put_loop_def demo_server_def demo_loop_def new_channel_def dispatch_def set_chan_def
      set_revents_def handleEvent_def handleEventWithGuard_def call_if_set_def has_bits_def event_bits
      server_handlers_def server_accept_eq assertInLoopThread_def isInLoopThread_def
      socket_accept_def demo_env_def log_sock_def newConnection_def getNextLoop_def new_thread_pool_def
      new_tcp_connection_def set_conn_def conn_runInLoop_def runInLoop_def connectEstablished_def setState_def
      conn_channel_op_def on_loop_def channel_tie_def enableReading_def set_events_def channel_update_def
      loop_updateChannel_def poller_updateChannel_def poller_update_def set_index_def index_defs connection_name_def snprintf_def
      show_int_def show_nat.simps digit_char_def char_of_def bit_iff_odd_drop_bit drop_bit_eq_div
      demo_kernel_def call_callback_def quiet_user_def server_user_def
      doPendingFunctors_def swap_pending_def set_calling_def)
  then show ?thesis
    using server_connections_named[OF demo_server_facts(3,2,1)] by fastforce
qed

theorem newConnection_established_witness:
  "\<exists>w1. newConnection demo_kernel quiet_user
       \<lparr>arr_conn = 1, arr_channel = 5, arr_local = Some \<lparr>sin_family = 2, sin_port = 0, sin_addr = (127, 0, 0, 1)\<rparr>\<rparr>
       7 5 \<lparr>sin_family = 2, sin_port = 0, sin_addr = (127, 0, 0, 1)\<rparr> demo_server = Inr w1 \<and>
     conn_state (conns w1 1) = kConnected \<and> interest (ctl_log (loops w1 1)) 5 = Some kReadEvent"
proof -
  let ?loc = "\<lparr>sin_family = 2, sin_port = 0, sin_addr = (127, 0, 0, 1)\<rparr>"
  let ?arr = "\<lparr>arr_conn = 1, arr_channel = 5, arr_local = Some ?loc\<rparr>"
  have a: "isInLoopThread 7 (loops demo_server (srv_loop demo_server))"
    by (simp add: demo_server_def isInLoopThread_def demo_loop_def)
  have b: "getNextLoop (srv_pool demo_server) = Inr (1, srv_pool demo_server)" "srv_connectionCallback_set demo_server"
    "accepts_legal (k_ctl demo_kernel 1)" "loop_id (loops demo_server 1) = 1" "threadId (loops demo_server 1) = 7"
    by (simp_all add: demo_server_def getNextLoop_def new_thread_pool_def demo_kernel_def accepts_legal_def demo_loop_def)
  have c: "loop_ok (loops demo_server 1)" "owns {0} (loops demo_server 1)"
    by (auto simp: demo_server_def loop_ok_def poller_inv_def index_ok_def owns_def demo_loop_def new_channel_def
      index_defs kNoneEvent_def watched_def fun_eq_iff legal_def interest_def)
  have d: "(5::int) \<notin> (\<lambda>q. chan_fd (chans (loops demo_server 1) q)) ` {0}"
    by (simp add: demo_server_def new_channel_def)
  from newConnection_established[OF a b(1) _ c b(4) _ d b(3,2), of ?arr ?loc quiet_user ?loc] show ?thesis
    by (auto simp: b quiet_user_def simp del: One_nat_def)
qed

lemma updated_more [simp]: "poller.more (updated ptr ev l) = poller.more l"
  by (simp add: updated_def after_update_def set_index_def Let_def touch_def)

text \<open>C13: a connection that closes leaves the server. Its descriptor is not watched any more at once. When the
  connection's thread is the server's, the entry is taken out of the map and \<open>connectDestroyed\<close> queued on
  the connection's loop; otherwise the removal is the last functor of the base loop, and the base thread
  does the same when it runs it. And \<open>connectDestroyed\<close>, run afterwards in the connection's loop, takes
  the channel out of the poller without a fault.\<close>

theorem server_close:
  assumes "in_loop k tid c w" and "chan_index (chan_of c w) = kAdded"
    and "connectionCallback_set (conns w c)" and "closeCallback_set (conns w c)"
    and "\<And>w. on_connection app c w = Inr w"
  shows "\<exists>w2. handleClose k (server_user app tid) tid c w = Inr w2 \<and> conn_state (conns w2 c) = kDisconnected \<and>
    interest (ctl_log (loop_of c w2)) (chan_fd (chan_of c w)) = None \<and>
    (if isInLoopThread tid (loops w (srv_loop w))
     then connections w2 = (connections w)(conn_name (conns w c) := None) \<and>
       pendingFunctors (loop_of c w2) = pendingFunctors (loop_of c w) @ [ConnTask (ConnectDestroyed c)]
     else connections w2 = connections w \<and>
       pendingFunctors (loops w2 (srv_loop w)) = pendingFunctors (loops w (srv_loop w)) @ [RemoveConnectionInLoop c] \<and>
       (\<exists>w3. server_exec k app env base (RemoveConnectionInLoop c) w2 = Inr w3 \<and>
         connections w3 = (connections w)(conn_name (conns w c) := None) \<and>
         pendingFunctors (loop_of c w3) = pendingFunctors (loop_of c w2) @ [ConnTask (ConnectDestroyed c)])) \<and>
    (\<exists>w4. server_exec k app env tid (ConnTask (ConnectDestroyed c)) w2 = Inr w4 \<and>
      channels (loop_of c w4) (chan_fd (chan_of c w)) = None \<and> loop_ok (loop_of c w4))"
proof -
  let ?wd = "setState kDisconnected c w" and ?lid = "conn_loop (conns w c)" and ?u = "server_user app tid"
  define w1 where "w1 = events_set kNoneEvent c ?wd"
  have same: "loop_of c ?wd = loop_of c w" "chan_of c ?wd = chan_of c w" by (simp_all add: loop_of_def chan_of_def)
  have ind: "in_loop k tid c ?wd" by (rule in_loop_same[OF assms(1) same(1)]) simp_all
  have in1: "in_loop k tid c w1" unfolding w1_def by (rule in_loop_events_set[OF ind])
  have none: "interest (ctl_log (loop_of c w1)) (chan_fd (chan_of c w)) = None"
    using events_set_watch(2)[OF in1[unfolded w1_def]] assms(2) same by (simp add: w1_def)
  have w1: "conns w1 = (conns w)(c := (conns w c)\<lparr>conn_state := kDisconnected\<rparr>)" "world.more w1 = world.more w"
    "chan_events (chan_of c w1) = kNoneEvent" "chan_fd (chan_of c w1) = chan_fd (chan_of c w)"
    "i \<noteq> ?lid \<Longrightarrow> loops w1 i = loops w i" for i
    by (simp_all add: w1_def same) (simp add: events_set_def)
  have more: "poller.more (loops w1 i) = poller.more (loops w i)" for i
    by (cases "i = ?lid") (simp_all add: w1_def events_set_def loop_of_def)
  have pend: "pendingFunctors (loops w1 i) = pendingFunctors (loops w i)" "threadId (loops w1 i) = threadId (loops w i)" for i
    by (rule same_more[OF more])+
  have srv: "srv_loop w1 = srv_loop w" "connections w1 = connections w" by (rule same_server[OF w1(2)])+
  have "handleClose k ?u tid c w = bindR (on_connection ?u c w1) (\<lambda>w.
      call_callback (closeCallback_set (conns w c)) (on_close ?u c) w)"
    using conn_updates(4)[OF ind] assms(3) by (simp add: handleClose_def call_callback_def kNoneEvent_def w1_def)
  then have run: "handleClose k ?u tid c w = removeConnection tid c w1"
    using assms(4,5) by (simp add: server_user_def call_callback_def w1(1))
  have destroy: "\<exists>w4. server_exec k app env tid (ConnTask (ConnectDestroyed c)) w2 = Inr w4 \<and>
      channels (loop_of c w4) (chan_fd (chan_of c w)) = None \<and> loop_ok (loop_of c w4)"
    if "in_loop k tid c w2" "conns w2 = conns w1" "chan_of c w2 = chan_of c w1" for w2 :: "'a server_world_scheme"
    using connectDestroyed_facts[OF that(1), of ?u] that w1 by auto
  show ?thesis
  proof (cases "isInLoopThread tid (loops w (srv_loop w))")
    case True
    let ?wm = "w1\<lparr>connections := (connections w1)(conn_name (conns w1 c) := None)\<rparr>"
    let ?w2 = "conn_queueInLoop tid c (ConnectDestroyed c) ?wm"
    have eq: "handleClose k ?u tid c w = Inr ?w2"
      using True by (simp add: run removeConnection_def base_runInLoop_def runInLoop_def get_loop_def srv
        isInLoopThread_def pend removeConnectionInLoop_def)
    have "in_loop k tid c ?wm" by (rule in_loop_same[OF in1]) (simp_all add: loop_of_def)
    then have in2: "in_loop k tid c ?w2" by (rule in_loop_queue)
    have "chan_of c ?w2 = chan_of c w1" by (simp add: chan_of_def loop_of_def)
    note d = destroy[OF in2 _ this]
    have "connections ?w2 = connections ?wm" by (rule same_server) simp
    moreover have "interest (ctl_log (loop_of c ?w2)) (chan_fd (chan_of c w)) = None"
      using none by (simp add: loop_of_def)
    ultimately show ?thesis using eq d True
      by (intro exI[of _ ?w2]) (simp add: w1 srv loop_of_def pend)
  next
    case False
    let ?b = "srv_loop w"
    let ?w2 = "put_loop ?b (queueInLoop tid (RemoveConnectionInLoop c) (loops w1 ?b)) w1"
    have "threadId (loops w ?lid) = tid" using assms(1) by (simp add: in_loop_def loop_of_def)
    with False have ne: "?lid \<noteq> ?b" by (auto simp: isInLoopThread_def)
    have eq: "handleClose k ?u tid c w = Inr ?w2"
      using False by (simp add: run removeConnection_def base_runInLoop_def runInLoop_def get_loop_def srv
        isInLoopThread_def pend)
    have l2: "loop_of c ?w2 = loop_of c w1" using ne by (simp add: loop_of_def w1)
    then have in2: "in_loop k tid c ?w2" by (rule in_loop_same[OF in1]) simp_all
    have "chan_of c ?w2 = chan_of c w1" by (simp add: chan_of_def l2)
    note d = destroy[OF in2 _ this]
    have srv2: "connections ?w2 = connections w1" by (rule same_server) simp
    let ?wm = "?w2\<lparr>connections := (connections ?w2)(conn_name (conns ?w2 c) := None)\<rparr>"
    have "connections (conn_queueInLoop base c (ConnectDestroyed c) ?wm) = connections ?wm"
      by (rule same_server) simp
    then have "\<exists>w3. server_exec k app env base (RemoveConnectionInLoop c) ?w2 = Inr w3 \<and>
         connections w3 = (connections w)(conn_name (conns w c) := None) \<and>
         pendingFunctors (loop_of c w3) = pendingFunctors (loop_of c ?w2) @ [ConnTask (ConnectDestroyed c)]"
      by (simp add: removeConnectionInLoop_def srv2 srv w1 loop_of_def)
    with eq d False none l2 show ?thesis
      by (intro exI[of _ ?w2]) (simp add: w1 srv srv2 pend)
  qed
qed

theorem server_close_witness:
  "\<exists>(w :: server_world) w2. conns w 0 = demo_conn \<and> handleClose demo_kernel (server_user quiet_user 7) 7 0 w = Inr w2 \<and>
     interest (ctl_log (loop_of 0 w)) 5 = Some kReadEvent \<and> interest (ctl_log (loop_of 0 w2)) 5 = None \<and>
     connections w2 = (connections w)(''c'' := None)"
proof -
  let ?w = "events_set kReadEvent 0 demo_server"
  have ch: "conn_channel (conns demo_server 0) = 5" "conn_loop (conns demo_server 0) = 1" "conns demo_server 0 = demo_conn"
    by (simp_all add: demo_server_def demo_conn_def)
  have "loop_ok (loops demo_server 1)" "owns {0, 5} (loops demo_server 1)"
    by (auto simp: demo_server_def loop_ok_def poller_inv_def index_ok_def owns_def demo_loop_def new_channel_def
      index_defs kNoneEvent_def watched_def fun_eq_iff legal_def interest_def)
  moreover have "threadId (loops demo_server 1) = 7" by (simp add: demo_server_def demo_loop_def)
  ultimately have i: "in_loop demo_kernel 7 0 demo_server"
    unfolding in_loop_def loop_of_def ch(1,2)
    by (auto simp: demo_kernel_def accepts_legal_def demo_conn_def)
  have iw: "in_loop demo_kernel 7 0 ?w" by (rule in_loop_events_set[OF i])
  have r: "kReadEvent \<noteq> kNoneEvent" by (simp add: event_bits)
  note watch = events_set_watch(1,3)[OF iw r]
  have fd: "chan_fd (chan_of 0 demo_server) = 5"
    unfolding chan_of_def loop_of_def ch(1,2) by (simp add: demo_server_def demo_loop_def new_channel_def)
  have "isInLoopThread 7 (loops ?w (srv_loop ?w))"
  proof -
    have "srv_loop ?w = 1" by (subst same_server(6)[where w = demo_server]) (simp_all add: demo_server_def)
    moreover have "threadId (loops ?w 1) = 7"
      using iw by (simp add: in_loop_def loop_of_def ch(2))
    ultimately show ?thesis by (simp add: isInLoopThread_def)
  qed
  with server_close[OF iw watch(2), of quiet_user demo_env 7] obtain w2 where
    "handleClose demo_kernel (server_user quiet_user 7) 7 0 ?w = Inr w2"
    "interest (ctl_log (loop_of 0 w2)) (chan_fd (chan_of 0 ?w)) = None"
    "connections w2 = (connections ?w)(conn_name (conns ?w 0) := None)"
    by (auto simp: ch(3) demo_conn_def quiet_user_def)
  with watch(1) fd show ?thesis
    by (intro exI[of _ ?w] exI[of _ w2]) (simp add: ch(3), simp add: demo_conn_def)
qed

section \<open>Starting the server\<close>

text \<open>The first \<open>start\<close>, in full.\<close>

lemma server_start_runs:
  fixes w :: "'z server_world_scheme"
  assumes "\<And>lid. accepts_legal (k_ctl k lid)" and "\<And>i. 0 \<le> sp_epollfd (spawn i) \<and> 0 \<le> sp_eventfd (spawn i)"
    and "inj (\<lambda>i. sp_loop (spawn i))" and "\<And>i. sp_loop (spawn i) \<noteq> srv_loop w"
    and "0 < numThreads (srv_pool w)" and "pool_loops (srv_pool w) = []" and "next_loop (srv_pool w) = 0"
    and "srv_started w = 0" and "\<not> srv_threadInitCallback_set w" and "acc_loop (srv_acceptor w) = srv_loop w"
    and "loop_ok (loops w (srv_loop w))" and "owns S (loops w (srv_loop w))" and "acc_channel (srv_acceptor w) \<in> S"
    and "chan_events (chans (loops w (srv_loop w)) (acc_channel (srv_acceptor w))) = kNoneEvent"
    and "threadId (loops w (srv_loop w)) = tid"
  shows "\<exists>w1 p. server_start k False init spawn m 0 tid w = Inr (put_loop (srv_loop w)
      (updated (acc_channel (srv_acceptor w)) kReadEvent (loops w (srv_loop w)))
      (log_sock (SockListen (acc_fd (srv_acceptor w)))
        (w1\<lparr>srv_pool := p, srv_acceptor := (srv_acceptor w)\<lparr>listenning := True\<rparr>\<rparr>))) \<and>
    world.more w1 = world.more (w\<lparr>srv_started := 1\<rparr>) \<and> sock_log w1 = sock_log w \<and> conns w1 = conns w \<and>
    loops w1 (srv_loop w) = loops w (srv_loop w) \<and> pool_wf p \<and>
    pool_loops p = map (\<lambda>i. sp_loop (spawn i)) [0..<nat (numThreads (srv_pool w))] \<and>
    baseLoop p = baseLoop (srv_pool w) \<and>
    (\<forall>i < nat (numThreads (srv_pool w)). loop_ok (loops w1 (sp_loop (spawn i))) \<and>
      threadId (loops w1 (sp_loop (spawn i))) = sp_tid (spawn i) \<and>
      idle_loop (sp_loop (spawn i)) (loops w1 (sp_loop (spawn i))))"
proof -
  let ?b = "srv_loop w" and ?a = "srv_acceptor w" and ?w0 = "w\<lparr>srv_started := 1\<rparr>"
  from pool_start_facts[OF assms(1-3,5-7), of m ?w0] obtain p m' w1 where
    p: "pool_start k False None spawn (srv_pool w, m, ?w0) = Inr (p, m', w1)" "pool_wf p"
      "pool_loops p = map (\<lambda>i. sp_loop (spawn i)) [0..<nat (numThreads (srv_pool w))]" "baseLoop p = baseLoop (srv_pool w)"
    and w1: "world.more w1 = world.more ?w0" "sock_log w1 = sock_log w" "conns w1 = conns w"
      "\<forall>lid. lid \<notin> (\<lambda>i. sp_loop (spawn i)) ` {..<nat (numThreads (srv_pool w))} \<longrightarrow> loops w1 lid = loops w lid"
      "\<forall>i < nat (numThreads (srv_pool w)). loop_ok (loops w1 (sp_loop (spawn i))) \<and>
        threadId (loops w1 (sp_loop (spawn i))) = sp_tid (spawn i) \<and>
        idle_loop (sp_loop (spawn i)) (loops w1 (sp_loop (spawn i)))"
    by (elim exE conjE) simp
  note srv = same_server[OF w1(1)]
  have "?b \<notin> (\<lambda>i. sp_loop (spawn i)) ` {..<nat (numThreads (srv_pool w))}" using assms(4) by (metis imageE)
  with w1(4) have base: "loops w1 ?b = loops w ?b" by blast
  define w2 where "w2 = log_sock (SockListen (acc_fd ?a)) (w1\<lparr>srv_pool := p, srv_acceptor := ?a\<lparr>listenning := True\<rparr>\<rparr>)"
  let ?ptr = "acc_channel ?a" and ?l = "updated (acc_channel ?a) kReadEvent (loops w ?b)"
  have l2: "loops w2 ?b = loops w ?b" by (simp add: w2_def base)
  note step = channel_update_step[OF assms(11-13,1,15)]
  have on: "enableReading (k_ctl k ?b) tid ?ptr (loops w2 ?b) = Inr ?l"
    using assms(14) by (simp add: l2 enableReading_def step(1) kNoneEvent_def)
  have "server_start k False init spawn m 0 tid w = Inr (put_loop ?b ?l w2)"
    using assms(8,9,10,15) p(1) on
    by (simp add: server_start_def base_runInLoop_def runInLoop_def get_loop_def isInLoopThread_def srv base
        server_listen_eq assertInLoopThread_def require_def socket_listen_def on_loop_def Let_def w2_def)
  with p w1 base show ?thesis unfolding w2_def by blast
qed

text \<open>A server with threads starts once. With kernels that accept legal \<open>epoll_ctl\<close> calls, enough descriptors
  and a successful \<open>listen\<close>, the first \<open>start\<close>, in the base loop's thread, starts every thread of the pool, which
  then deals out the new loops, and leaves the acceptor listening with its descriptor watched for
  reading in the base loop; another \<open>start\<close> only counts.\<close>

theorem server_start_listens:
  assumes "\<And>lid. accepts_legal (k_ctl k lid)" and "\<And>i. 0 \<le> sp_epollfd (spawn i) \<and> 0 \<le> sp_eventfd (spawn i)"
    and "inj (\<lambda>i. sp_loop (spawn i))" and "\<And>i. sp_loop (spawn i) \<noteq> srv_loop w"
    and "0 < numThreads (srv_pool w)" and "pool_loops (srv_pool w) = []" and "next_loop (srv_pool w) = 0"
    and "srv_started w = 0" and "\<not> srv_threadInitCallback_set w" and "acc_loop (srv_acceptor w) = srv_loop w"
    and "loop_ok (loops w (srv_loop w))" and "owns S (loops w (srv_loop w))" and "acc_channel (srv_acceptor w) \<in> S"
    and "chan_events (chans (loops w (srv_loop w)) (acc_channel (srv_acceptor w))) = kNoneEvent"
    and "threadId (loops w (srv_loop w)) = tid"
  shows "\<exists>w'. server_start k False init spawn m 0 tid w = Inr w' \<and> listenning (srv_acceptor w') \<and>
    sock_log w' = sock_log w @ [SockListen (acc_fd (srv_acceptor w))] \<and>
    interest (ctl_log (loops w' (srv_loop w))) (chan_fd (chans (loops w (srv_loop w)) (acc_channel (srv_acceptor w)))) =
      Some kReadEvent \<and>
    getAllLoops (srv_pool w') = map (\<lambda>i. sp_loop (spawn i)) [0..<nat (numThreads (srv_pool w))] \<and>
    connections w' = connections w \<and>
    server_start k False init spawn m 0 tid w' = Inr (w'\<lparr>srv_started := 2\<rparr>)"
proof -
  let ?b = "srv_loop w" and ?a = "srv_acceptor w" and ?ptr = "acc_channel (srv_acceptor w)"
  let ?l = "updated ?ptr kReadEvent (loops w ?b)"
  from server_start_runs[OF assms, of init m] obtain w1 p where
    w3: "server_start k False init spawn m 0 tid w = Inr (put_loop ?b ?l
        (log_sock (SockListen (acc_fd ?a)) (w1\<lparr>srv_pool := p, srv_acceptor := ?a\<lparr>listenning := True\<rparr>\<rparr>)))"
      (is "_ = Inr ?w3")
    and w1: "world.more w1 = world.more (w\<lparr>srv_started := 1\<rparr>)" "sock_log w1 = sock_log w"
      "pool_loops p = map (\<lambda>i. sp_loop (spawn i)) [0..<nat (numThreads (srv_pool w))]"
    by (elim exE conjE)
  note srv = same_server[OF w1(1)]
  note step = channel_update_step[OF assms(11-13,1,15)]
  have "kReadEvent \<noteq> kNoneEvent" by (simp add: event_bits)
  then have watch: "interest (ctl_log ?l) (chan_fd (chans (loops w ?b) ?ptr)) = Some kReadEvent"
    by (rule updated_watch(1)[OF step(2)])
  have "world.more ?w3 = world.more (w1\<lparr>srv_pool := p, srv_acceptor := ?a\<lparr>listenning := True\<rparr>\<rparr>)" by simp
  note srv3 = same_server[OF this]
  have "getAllLoops p = map (\<lambda>i. sp_loop (spawn i)) [0..<nat (numThreads (srv_pool w))]"
    using w1(3) assms(5) by (simp add: getAllLoops_def)
  with w3 watch show ?thesis
    by (intro exI[of _ ?w3]) (simp add: srv3 srv w1(2) server_start_def)
qed

theorem server_start_listens_witness:
  "\<exists>w'. server_start demo_kernel False (\<lambda>_. Inr)
       (\<lambda>i. \<lparr>sp_tid = 8 + i, sp_loop = 2 + i, sp_epollfd = 3, sp_eventfd = 4\<rparr>) 0 0 7
       (server_setThreadNum 2 (demo_server\<lparr>loops := \<lambda>_. demo_loop, srv_started := 0\<rparr>)) = Inr w' \<and>
     interest (ctl_log (loops w' 1)) 0 = Some kReadEvent \<and> getAllLoops (srv_pool w') = [2, 3]"
proof -
  let ?spawn = "\<lambda>i::nat. \<lparr>sp_tid = 8 + i, sp_loop = 2 + i, sp_epollfd = 3, sp_eventfd = 4\<rparr>"
  let ?w = "server_setThreadNum 2 (demo_server\<lparr>loops := \<lambda>_. demo_loop, srv_started := 0\<rparr>)"
  have a: "accepts_legal (k_ctl demo_kernel lid)" for lid by (simp add: demo_kernel_def accepts_legal_def)
  have i: "inj (\<lambda>i. sp_loop (?spawn i))" by (simp add: inj_def)
  have w: "loops ?w = (\<lambda>_. demo_loop)" "srv_loop ?w = 1" "numThreads (srv_pool ?w) = 2" "pool_loops (srv_pool ?w) = []"
    "next_loop (srv_pool ?w) = 0" "srv_started ?w = 0" "\<not> srv_threadInitCallback_set ?w"
    "acc_loop (srv_acceptor ?w) = 1" "acc_channel (srv_acceptor ?w) = 0"
    by (simp_all add: server_setThreadNum_def setThreadNum_def demo_server_def new_thread_pool_def)
  have l: "chan_events (chans demo_loop 0) = kNoneEvent" "chan_fd (chans demo_loop 0) = 0" "threadId (demo_loop :: task event_loop) = 7"
    by (simp_all add: demo_loop_def new_channel_def kNoneEvent_def)
  from demo_loop_ok have ok: "loop_ok (demo_loop :: task event_loop)" "owns {0, 5} (demo_loop :: task event_loop)" .
  have "\<exists>w'. server_start demo_kernel False (\<lambda>_. Inr) ?spawn 0 0 7 ?w = Inr w' \<and> listenning (srv_acceptor w') \<and>
    sock_log w' = sock_log ?w @ [SockListen (acc_fd (srv_acceptor ?w))] \<and>
    interest (ctl_log (loops w' (srv_loop ?w))) (chan_fd (chans (loops ?w (srv_loop ?w)) (acc_channel (srv_acceptor ?w)))) =
      Some kReadEvent \<and>
    getAllLoops (srv_pool w') = map (\<lambda>i. sp_loop (?spawn i)) [0..<nat (numThreads (srv_pool ?w))] \<and>
    connections w' = connections ?w \<and>
    server_start demo_kernel False (\<lambda>_. Inr) ?spawn 0 0 7 w' = Inr (w'\<lparr>srv_started := 2\<rparr>)"
    by (rule server_start_listens[OF a _ i, where S = "{0, 5}"]) (simp_all add: w l ok)
  then show ?thesis unfolding w l by (fastforce simp: upt_rec)
qed

text \<open>The option to reuse the port changes nothing: the acceptor does not look at it.\<close>

lemma reuse_port_ignored:
  "new_tcp_server loop ptr addr name kReusePort sockfd rc w = new_tcp_server loop ptr addr name kNoReusePort sockfd rc w"
  by (simp add: new_tcp_server_def new_acceptor_def)

text \<open>An \<open>accept\<close> that fails, for want of descriptors say, ends the program.\<close>

lemma accept_failure_aborts:
  "isInLoopThread tid (loops w (acc_loop (srv_acceptor w))) \<Longrightarrow> fst answer < 0 \<Longrightarrow>
     server_accept k app answer arr tid w = Inl Aborted"
  by (simp add: server_accept_eq assertInLoopThread_def socket_accept_def case_prod_unfold)

end
