(* ===== verification/Conn_Acts.thy ===== *)
theory Conn_Acts
  imports Tcp_Connection
begin

text \<open>
  What the members of a connection that its own thread calls may do to the world: \<open>conn_acts tid c w w'\<close>
  is the closure of the elementary actions on the connection \<open>c\<close>. Every other connection, every other
  channel and the rest of the world stay, which the theory of the server's threads builds on.
\<close>

section \<open>Elementary actions\<close>

fun own_call :: "int \<Rightarrow> sock_event \<Rightarrow> bool" where
  "own_call fd (Wrote f d) \<longleftrightarrow> f = fd"
| "own_call fd (WriteFailed f e) \<longleftrightarrow> f = fd"
| "own_call fd (ShutWr f) \<longleftrightarrow> f = fd"
| "own_call fd (GetSoError f) \<longleftrightarrow> f = fd"
| "own_call fd _ \<longleftrightarrow> False"

text \<open>A connection that was established and has not been closed.\<close>

definition is_up :: "nat \<Rightarrow> 'z world_scheme \<Rightarrow> bool" where
  "is_up c w \<longleftrightarrow> conn_state (conns w c) \<in> {kConnected, kDisconnecting}"

text \<open>The functors a connection queues for its callbacks.\<close>

definition notice_of :: "nat \<Rightarrow> tcp_connection \<Rightarrow> conn_task \<Rightarrow> bool" where
  "notice_of c conn t \<longleftrightarrow>
     t = WriteComplete c \<and> writeCompleteCallback_set conn \<or> (\<exists>n. t = HighWaterMark c (highWaterMarkCallback_set conn) n)"

inductive conn_acts :: "nat \<Rightarrow> nat \<Rightarrow> 'z world_scheme \<Rightarrow> 'z world_scheme \<Rightarrow> bool" for tid c where
  acts_refl: "conn_acts tid c w w"
| acts_log: "conn_acts tid c w w' \<Longrightarrow> own_call (conn_fd (conns w' c)) e \<Longrightarrow> conn_acts tid c w (log_sock e w')"
| acts_in: "conn_acts tid c w w' \<Longrightarrow> conn_acts tid c w (set_conn c ((conns w' c)\<lparr>inputBuffer := b\<rparr>) w')"
| acts_out: "conn_acts tid c w w' \<Longrightarrow> conn_acts tid c w (set_conn c ((conns w' c)\<lparr>outputBuffer := b\<rparr>) w')"
| acts_queue: "conn_acts tid c w w' \<Longrightarrow> notice_of c (conns w' c) t \<Longrightarrow> conn_acts tid c w (conn_queueInLoop tid c t w')"
| acts_events: "conn_acts tid c w w' \<Longrightarrow> is_up c w' \<Longrightarrow> conn_acts tid c w (events_set ev c w')"
| acts_halfclose: "conn_acts tid c w w' \<Longrightarrow> conn_state (conns w' c) = kConnected \<Longrightarrow>
    conn_acts tid c w (setState kDisconnecting c w')"
| acts_strings: "conn_acts tid c w w' \<Longrightarrow> conn_acts tid c w (w'\<lparr>strings := m\<rparr>)"

lemma conn_acts_trans: "conn_acts tid c w' w'' \<Longrightarrow> conn_acts tid c w w' \<Longrightarrow> conn_acts tid c w w''"
  by (induction rule: conn_acts.induct) (auto intro: conn_acts.intros)

lemma acts_in_loop: "conn_acts tid c w w' \<Longrightarrow> in_loop k tid c w \<Longrightarrow> in_loop k tid c w'"
proof (induction rule: conn_acts.induct)
  case (acts_in w w' b)
  then show ?case by (auto intro: in_loop_same[where w = w'] simp: loop_of_def)
next
  case (acts_halfclose w w')
  then show ?case by (auto intro: in_loop_same[where w = w'] simp: loop_of_def)
next
  case (acts_log w w' e)
  then show ?case by (auto intro: in_loop_same[where w = w'])
qed (simp_all add: in_loop_set_out in_loop_queue in_loop_events_set)

text \<open>What stays: the rest of the world, and of the connection all but its state and its buffers.\<close>

definition same_identity :: "tcp_connection \<Rightarrow> tcp_connection \<Rightarrow> bool" where
  "same_identity conn conn' \<longleftrightarrow>
     conn_loop conn' = conn_loop conn \<and> conn_name conn' = conn_name conn \<and> conn_fd conn' = conn_fd conn \<and>
     conn_channel conn' = conn_channel conn \<and> connectionCallback_set conn' = connectionCallback_set conn \<and>
     messageCallback_set conn' = messageCallback_set conn \<and> closeCallback_set conn' = closeCallback_set conn \<and>
     writeCompleteCallback_set conn' = writeCompleteCallback_set conn \<and>
     highWaterMarkCallback_set conn' = highWaterMarkCallback_set conn"

lemma same_identity_refl [simp]: "same_identity conn conn"
  by (simp add: same_identity_def)

lemma acts_state:
  "conn_acts tid c w w' \<Longrightarrow> conn_state (conns w' c) = conn_state (conns w c) \<or>
     conn_state (conns w c) = kConnected \<and> conn_state (conns w' c) = kDisconnecting"
  by (induction rule: conn_acts.induct) auto

lemma acts_frame:
  "conn_acts tid c w w' \<Longrightarrow> world.more w' = world.more w \<and> same_identity (conns w c) (conns w' c) \<and>
     (\<forall>d. d \<noteq> c \<longrightarrow> conns w' d = conns w d)"
  by (induction rule: conn_acts.induct) (auto simp: same_identity_def)

section \<open>The members\<close>

lemma notice_intros: "highWaterMarkCallback_set conn = b \<Longrightarrow> notice_of c conn (HighWaterMark c b n)"
  "writeCompleteCallback_set conn \<Longrightarrow> notice_of c conn (WriteComplete c)"
  by (auto simp: notice_of_def)

lemma keep_rest_acts:
  assumes "keep_rest k tid c data nwrote remaining w = Inr w'" and "in_loop k tid c w" and "is_up c w"
  shows "conn_acts tid c w w'"
proof -
  let ?conn = "conns w c"
  define w1 where "w1 = (let oldLen = of_nat (readableBytes (outputBuffer ?conn)) in
    if highWaterMark ?conn \<le> oldLen + remaining \<and> oldLen < highWaterMark ?conn \<and> highWaterMark ?conn \<noteq> 0
    then conn_queueInLoop tid c (HighWaterMark c (highWaterMarkCallback_set ?conn) (oldLen + remaining)) w else w)"
  have w1: "conn_acts tid c w w1" "conns w1 = conns w"
    by (auto simp: w1_def Let_def intro!: acts_queue acts_refl notice_intros)
  from assms(1) obtain rest where w':
    "(let w2 = set_conn c (?conn\<lparr>outputBuffer := buf_append rest (outputBuffer ?conn)\<rparr>) w1 in
      if \<not> isWriting (chan_of c w2) then conn_channel_op enableWriting k tid c w2 else Inr w2) = Inr w'"
    by (auto simp: keep_rest_def Let_def bindR_eq_Inr w1_def)
  let ?w2 = "set_conn c (?conn\<lparr>outputBuffer := buf_append rest (outputBuffer ?conn)\<rparr>) w1"
  have a2: "conn_acts tid c w ?w2" using acts_out[OF w1(1)] by (simp add: w1(2))
  have "is_up c ?w2" using assms(3) by (simp add: is_up_def)
  then show ?thesis
    using w' conn_updates(1)[OF acts_in_loop[OF a2 assms(2)]] a2
    by (auto simp: Let_def split: if_splits intro: acts_events)
qed

lemma direct_write_acts:
  assumes "direct_write k tid c data len w = Inr (r, w')"
  shows "conn_acts tid c w w'"
proof -
  let ?fd = "conn_fd (conns w c)"
  have log: "conn_acts tid c w (log_sock (Wrote ?fd d) w)" "conn_acts tid c w (log_sock (WriteFailed ?fd e) w)" for d e
    by (auto intro: acts_log acts_refl)
  show ?thesis
    using assms log
    by (auto simp: direct_write_def bindR_eq_Inr Let_def case_prod_unfold sys_write_def
        split: if_splits sum.splits intro!: acts_queue notice_intros)
qed

lemma sendInLoop_acts:
  assumes "sendInLoop k tid c data len w = Inr w'" and "in_loop k tid c w" and "conn_state (conns w c) \<noteq> kConnecting"
  shows "conn_acts tid c w w'"
proof (cases "conn_state (conns w c) = kDisconnected")
  case True
  with assms(1) show ?thesis by (simp add: sendInLoop_def acts_refl)
next
  case False
  with assms(3) have up: "is_up c w" by (cases "conn_state (conns w c)") (auto simp: is_up_def)
  from False assms(1) obtain nwrote remaining fe w1 where
    d: "(if \<not> isWriting (chan_of c w) \<and> readableBytes (outputBuffer (conns w c)) = 0
         then direct_write k tid c data len w else Inr ((0, len, False), w)) = Inr ((nwrote, remaining, fe), w1)"
    and r: "(if \<not> fe \<and> 0 < remaining then keep_rest k tid c data nwrote remaining w1 else Inr w1) = Inr w'"
    by (auto simp: sendInLoop_def bindR_eq_Inr)
  have a1: "conn_acts tid c w w1"
    using d by (auto split: if_splits intro: acts_refl dest: direct_write_acts)
  have "conns w1 = conns w"
    using d by (auto simp: direct_write_def bindR_eq_Inr Let_def case_prod_unfold sys_write_def
        split: if_splits sum.splits)
  with up have "is_up c w1" by (simp add: is_up_def)
  note rest = keep_rest_acts[OF _ acts_in_loop[OF a1 assms(2)] this]
  show ?thesis
  proof (cases "\<not> fe \<and> 0 < remaining")
    case True
    with r rest show ?thesis by (intro conn_acts_trans[OF _ a1]) simp
  qed (use r a1 in \<open>auto split: if_splits\<close>)
qed

lemma shutdownInLoop_acts: "conn_acts tid c w w' \<Longrightarrow> conn_acts tid c w (shutdownInLoop c w')"
  by (auto simp: shutdownInLoop_def intro: acts_log)

lemma handleWrite_acts:
  assumes "handleWrite k tid c w = Inr w'" and "in_loop k tid c w" and "isWriting (chan_of c w) \<Longrightarrow> is_up c w"
  shows "conn_acts tid c w w'"
proof (cases "isWriting (chan_of c w)")
  case False
  with assms show ?thesis by (simp add: handleWrite_def acts_refl)
next
  case True
  let ?conn = "conns w c"
  obtain n e s where wf: "writeFd (k_write k (sock_log w) (conn_fd ?conn) (readable (outputBuffer ?conn))) (outputBuffer ?conn) = (n, e, s)"
    by (metis surj_pair)
  define w1 where "w1 = log_sock (case e of Some e \<Rightarrow> WriteFailed (conn_fd ?conn) e | None \<Rightarrow> Wrote (conn_fd ?conn) s) w"
  define w2 where "w2 = set_conn c (?conn\<lparr>outputBuffer := retrieve (nat n) (outputBuffer ?conn)\<rparr>) w1"
  have a1: "conn_acts tid c w w1" "conns w1 = conns w"
    by (auto simp: w1_def split: option.split intro!: acts_log acts_refl)
  have a2: "conn_acts tid c w w2" using acts_out[OF a1(1)] by (simp add: w2_def a1(2))
  have up2: "is_up c w2" using assms(3)[OF True] by (simp add: is_up_def w2_def)
  define w3 where "w3 = events_set (chan_events (chan_of c w2) AND NOT kWriteEvent) c w2"
  have op: "conn_channel_op disableWriting k tid c w2 = Inr w3"
    using conn_updates(2)[OF acts_in_loop[OF a2 assms(2)]] by (simp add: w3_def)
  have a3: "conn_acts tid c w w3" unfolding w3_def by (rule acts_events[OF a2 up2])
  have "writeCompleteCallback_set (conns w3 c) = writeCompleteCallback_set ?conn" by (simp add: w3_def w2_def)
  then have a4: "writeCompleteCallback_set ?conn \<Longrightarrow> conn_acts tid c w (conn_queueInLoop tid c (WriteComplete c) w3)"
    by (auto intro: acts_queue[OF a3] notice_intros)
  show ?thesis
    using assms(1) True wf a1(1) a2 a3 a4 op
    by (auto simp: handleWrite_def Let_def w1_def[symmetric] w2_def[symmetric]
        split: if_splits intro!: shutdownInLoop_acts)
qed

lemma handleError_acts: "handleError c w = Inr w' \<Longrightarrow> conn_acts tid c w w'"
  by (auto simp: handleError_def intro: acts_log acts_refl)

text \<open>The members that an application calls on a connection of its own loop.\<close>

lemma send_string_acts:
  assumes "send_string k tid c addr w = Inr w'" and "in_loop k tid c w"
  shows "conn_acts tid c w w'"
proof -
  have "isInLoopThread tid (loop_of c w)" using assms(2) by (simp add: in_loop_def isInLoopThread_def)
  then show ?thesis
    using assms by (auto simp: send_string_def sendInLoop_ptr_def Let_def acts_refl
        split: if_splits option.splits intro: sendInLoop_acts)
qed

lemma conn_do_acts:
  assumes "conn_do k tid c op w = Inr w'" and "in_loop k tid c w" and "isWriting (chan_of c w) \<Longrightarrow> is_up c w"
  shows "conn_acts tid c w w'"
proof -
  have thr: "isInLoopThread tid (loop_of c w)" using assms(2) by (simp add: in_loop_def isInLoopThread_def)
  show ?thesis
  proof (cases op)
    case (OpSend addr s)
    let ?w = "w\<lparr>strings := (strings w)(addr \<mapsto> s)\<rparr>"
    from assms(1) OpSend obtain w1 where w1: "send_string k tid c addr ?w = Inr w1"
      "w' = w1\<lparr>strings := (strings w1)(addr := None)\<rparr>" by (auto simp: with_string_def bindR_eq_Inr)
    have "conn_acts tid c w ?w" by (rule acts_strings[OF acts_refl])
    moreover have "conn_acts tid c ?w w1" using send_string_acts[OF w1(1)] assms(2) by simp
    ultimately show ?thesis unfolding w1(2) by (blast intro: acts_strings conn_acts_trans)
  next
    case (OpSendBuffer b)
    with assms(1,2) thr show ?thesis
      by (auto simp: bindR_eq_Inr send_buffer_def acts_refl split: if_splits intro: sendInLoop_acts)
  next
    case OpShutdown
    let ?w = "setState kDisconnecting c w"
    have "isInLoopThread tid (loop_of c ?w)" using thr by (simp add: loop_of_def)
    with assms(1) OpShutdown show ?thesis
      by (auto simp: shutdown_def conn_runInLoop_def runInLoop_def get_loop_def loop_of_def acts_refl
          split: if_splits intro!: shutdownInLoop_acts acts_halfclose)
  next
    case OpWritable
    with assms show ?thesis by (auto intro: handleWrite_acts)
  qed
qed

text \<open>A connection that is not kConnected ignores what the application asks for.\<close>

lemma conn_do_ignored:
  assumes "conn_state (conns w c) \<noteq> kConnected" and "op \<noteq> OpWritable"
  shows "\<exists>m. conn_do k tid c op w = Inr (w\<lparr>strings := m\<rparr>)"
proof (cases op)
  case (OpSend addr s)
  with assms(1) show ?thesis by (auto simp: with_string_def send_string_def)
next
  case (OpSendBuffer b)
  with assms(1) show ?thesis by (auto simp: send_buffer_def intro: exI[of _ "strings w"])
next
  case OpShutdown
  with assms(1) show ?thesis by (auto simp: shutdown_def intro: exI[of _ "strings w"])
qed (use assms(2) in simp)

lemma conn_dos_ignored:
  "conn_state (conns w c) \<noteq> kConnected \<Longrightarrow> OpWritable \<notin> set ops \<Longrightarrow>
     \<exists>m. foldR (conn_do k tid c) ops w = Inr (w\<lparr>strings := m\<rparr>)"
proof (induction ops arbitrary: w)
  case Nil
  show ?case by (auto intro: exI[of _ "strings w"])
next
  case (Cons op ops)
  from conn_do_ignored[of w c op k tid] Cons.prems obtain m where
    "conn_do k tid c op w = Inr (w\<lparr>strings := m\<rparr>)" by auto
  with Cons.IH[of "w\<lparr>strings := m\<rparr>"] Cons.prems show ?case by auto
qed

end
