(* ===== verification/Reactor.thy ===== *)
theory Reactor
  imports Tcp_Server Conn_Acts
begin

text \<open>
  The threads of a running server. Every loop of the server, the base loop and those of the pool, runs
  in its own thread; a turn of a loop is one atomic step of its thread (\<open>epoll_wait\<close> and \<open>poll\<close>, one
  channel's \<open>handleEvent\<close>, the swap of \<open>doPendingFunctors\<close>, one functor, the end of \<open>doPendingFunctors\<close>),
  and the turns of the loops interleave in any order, with calls from other threads between them. The reference counts of the connections are read
  off the state: an object lives as long as the server's map or a functor holds a \<open>TcpConnectionPtr\<close> to it,
  and its destructor runs when the last functor that holds it is destroyed. A functor that binds a raw \<open>this\<close> holds
  nothing; it may only be called while its object lives.
\<close>

section \<open>State\<close>

datatype loop_phase =
    Waiting
  | Dispatching timestamp "nat list"
  | Calling "task list" "task list"

text \<open>
  \<open>Dispatching now ps\<close>: the active channels still to be handled. \<open>Calling called rest\<close>: the vector that
  \<open>doPendingFunctors\<close> swapped out, up to and behind its iterator.
\<close>

record 'w reactor =
  srv :: 'w
  phase_of :: "nat \<Rightarrow> loop_phase"

fun vector_of :: "loop_phase \<Rightarrow> task list" where
  "vector_of (Calling called rest) = called @ rest"
| "vector_of _ = []"

fun rest_of :: "loop_phase \<Rightarrow> task list" where
  "rest_of (Calling called rest) = rest"
| "rest_of _ = []"

definition loop_ids :: "'z server_world_scheme \<Rightarrow> nat list" where
  "loop_ids w = srv_loop w # pool_loops (srv_pool w)"

section \<open>Who holds a connection\<close>

text \<open>The functors that bind a \<open>TcpConnectionPtr\<close>; the others bind \<open>this\<close>, or no connection.\<close>

fun holder_of :: "task \<Rightarrow> nat option" where
  "holder_of (ConnTask (WriteComplete c)) = Some c"
| "holder_of (ConnTask (HighWaterMark c b n)) = Some c"
| "holder_of (ConnTask (ConnectEstablished c)) = Some c"
| "holder_of (ConnTask (ConnectDestroyed c)) = Some c"
| "holder_of (RemoveConnectionInLoop c) = Some c"
| "holder_of _ = None"

text \<open>The functors that bind a raw \<open>this\<close>: another thread has called \<open>send\<close> or \<open>shutdown\<close>.\<close>

fun raw_of :: "task \<Rightarrow> nat option" where
  "raw_of (ConnTask (SendInLoop c s)) = Some c"
| "raw_of (ConnTask (SendInLoopPtr c addr len)) = Some c"
| "raw_of (ConnTask (ShutdownInLoop c)) = Some c"
| "raw_of _ = None"

definition in_map :: "'z server_world_scheme \<Rightarrow> nat \<Rightarrow> bool" where
  "in_map w c \<longleftrightarrow> connections w (conn_name (conns w c)) = Some c"

definition tasks_of :: "'z server_world_scheme reactor \<Rightarrow> nat \<Rightarrow> task list" where
  "tasks_of st lid = vector_of (phase_of st lid) @ pendingFunctors (loops (srv st) lid)"

definition held :: "'z server_world_scheme reactor \<Rightarrow> nat \<Rightarrow> bool" where
  "held st c \<longleftrightarrow>
     in_map (srv st) c \<or> (\<exists>lid \<in> set (loop_ids (srv st)). \<exists>t \<in> set (tasks_of st lid). holder_of t = Some c)"

text \<open>\<open>~TcpConnection\<close> destroys the socket it owns, and \<open>~Socket\<close> closes the descriptor.\<close>

definition delete_tcp_connection :: "nat \<Rightarrow> 'z world_scheme \<Rightarrow> 'z world_scheme" where
  "delete_tcp_connection c w = delete_socket (conn_fd (conns w c)) w"

text \<open>The end of \<open>doPendingFunctors\<close>: the vector is destroyed, functor by functor.\<close>

fun drop_functors :: "nat \<Rightarrow> task list \<Rightarrow> 'z server_world_scheme reactor \<Rightarrow> 'z server_world_scheme reactor" where
  "drop_functors lid [] st = st\<lparr>phase_of := (phase_of st)(lid := Waiting)\<rparr>"
| "drop_functors lid (t # ts) st =
     (let st = st\<lparr>phase_of := (phase_of st)(lid := Calling ts [])\<rparr> in
      drop_functors lid ts
        (case holder_of t of
           None \<Rightarrow> st
         | Some c \<Rightarrow> if held st c then st else st\<lparr>srv := delete_tcp_connection c (srv st)\<rparr>))"

section \<open>A turn of a loop\<close>

text \<open>What the kernel and the allocator answer in a turn.\<close>

record 'w turn =
  turn_loop :: nat
  turn_epoll :: "int + (32 word \<times> int) list"
  turn_now :: timestamp
  turn_env :: "'w environment"

definition loop_turn ::
  "kernel \<Rightarrow> (nat \<Rightarrow> 'z server_world_scheme user_code) \<Rightarrow> 'z server_world_scheme turn \<Rightarrow>
   'z server_world_scheme reactor \<Rightarrow> 'z server_world_scheme reactor outcome" where
  "loop_turn k app tn st =
     (let lid = turn_loop tn; env = turn_env tn; w = srv st; l = loops w lid; tid = threadId l;
          go = (\<lambda>p w. st\<lparr>srv := w, phase_of := (phase_of st)(lid := p)\<rparr>)
      in case phase_of st lid of
           Waiting \<Rightarrow>
             if quit_flag l then Inr (go Waiting (put_loop lid (l\<lparr>looping := False\<rparr>) w))
             else bindR (poller_poll (turn_epoll tn) l) (\<lambda>(active, l).
               Inr (go (Dispatching (turn_now tn) active) (put_loop lid l w)))
         | Dispatching now [] \<Rightarrow>
             let (functors, l) = swap_pending (set_calling True l) in Inr (go (Calling [] functors) (put_loop lid l w))
         | Dispatching now (ptr # ps) \<Rightarrow>
             bindR (handleEvent (held st) (server_handlers k (app tid) env tid lid ptr) (chans l ptr) now w) (\<lambda>w.
             Inr (go (Dispatching now ps) w))
         | Calling called (t # rest) \<Rightarrow>
             bindR (require OutOfBounds (\<forall>c. raw_of t = Some c \<longrightarrow> held st c)) (\<lambda>_.
             bindR (server_exec k (app tid) env tid t w) (\<lambda>w. Inr (go (Calling (called @ [t]) rest) w)))
         | Calling called [] \<Rightarrow> Inr (drop_functors lid called (go (Calling called []) (put_loop lid (set_calling False l) w))))"

section \<open>The invariant\<close>

text \<open>
  What has still to be called by a loop; and whether a connection's channel is in the poller's map, and
  whether something still to come holds it: the server's map, or its removal.
\<close>

definition waiting_tasks :: "'z server_world_scheme reactor \<Rightarrow> nat \<Rightarrow> task list" where
  "waiting_tasks st lid = rest_of (phase_of st lid) @ pendingFunctors (loops (srv st) lid)"

definition registered :: "'z world_scheme \<Rightarrow> nat \<Rightarrow> bool" where
  "registered w c \<longleftrightarrow> channels (loop_of c w) (conn_fd (conns w c)) = Some (conn_channel (conns w c))"

text \<open>A functor with a raw pointer to \<open>c\<close> waits; and no such functor comes behind the destruction of its connection.\<close>

definition raw_waiting :: "'z server_world_scheme reactor \<Rightarrow> nat \<Rightarrow> bool" where
  "raw_waiting st c \<longleftrightarrow> (\<exists>t \<in> set (waiting_tasks st (conn_loop (conns (srv st) c))). raw_of t = Some c)"

fun destroyed_last :: "task list \<Rightarrow> bool" where
  "destroyed_last [] \<longleftrightarrow> True"
| "destroyed_last (t # ts) \<longleftrightarrow>
     (\<forall>c. t = ConnTask (ConnectDestroyed c) \<longrightarrow> (\<forall>u \<in> set ts. raw_of u \<noteq> Some c)) \<and> destroyed_last ts"

definition keeper :: "'z server_world_scheme reactor \<Rightarrow> nat \<Rightarrow> bool" where
  "keeper st c \<longleftrightarrow>
     in_map (srv st) c \<or> RemoveConnectionInLoop c \<in> set (waiting_tasks st (srv_loop (srv st))) \<or>
     ConnTask (ConnectDestroyed c) \<in> set (waiting_tasks st (conn_loop (conns (srv st) c)))"

text \<open>The channels of a loop: its own, the acceptor's in the base loop, and those of the living connections.\<close>

definition own_channels :: "'z server_world_scheme reactor \<Rightarrow> nat \<Rightarrow> nat set" where
  "own_channels st lid =
     {wakeup_ptr} \<union> (if lid = srv_loop (srv st) then {acc_channel (srv_acceptor (srv st))} else {}) \<union>
     {conn_channel (conns (srv st) c) |c. held st c \<and> conn_loop (conns (srv st) c) = lid}"

text \<open>
  Whatever has still to happen to a connection is on its way: its establishment, the removal of its entry, or the
  removal of its channel.
\<close>

definition in_order :: "'z server_world_scheme reactor \<Rightarrow> nat \<Rightarrow> bool" where
  "in_order st c \<longleftrightarrow>
     (registered (srv st) c \<or> raw_waiting st c \<longrightarrow> keeper st c) \<and>
     (conn_state (conns (srv st) c) = kDisconnected \<longrightarrow> in_map (srv st) c \<longrightarrow>
        RemoveConnectionInLoop c \<in> set (waiting_tasks st (srv_loop (srv st)))) \<and>
     (conn_state (conns (srv st) c) = kConnecting \<longrightarrow>
        ConnTask (ConnectEstablished c) \<in> set (waiting_tasks st (conn_loop (conns (srv st) c))))"

text \<open>A living connection; those of \<open>X\<close> are being worked on.\<close>

definition conn_ok :: "nat set \<Rightarrow> 'z server_world_scheme reactor \<Rightarrow> nat \<Rightarrow> bool" where
  "conn_ok X st c \<longleftrightarrow>
     (let w = srv st; conn = conns w c in
      conn_loop conn \<in> set (loop_ids w) \<and> chan_owner w (conn_loop conn) (conn_channel conn) = ConnOwner c \<and>
      chan_fd (chan_of c w) = conn_fd conn \<and>
      connectionCallback_set conn \<and> messageCallback_set conn \<and> closeCallback_set conn \<and>
      \<not> highWaterMarkCallback_set conn \<and> (writeCompleteCallback_set conn \<longrightarrow> srv_writeCompleteCallback_set w) \<and>
      (\<exists>i \<in> {1..<nextConnId w}. conn_name conn = name_of w i) \<and>
      (conn_state conn \<in> {kConnecting, kDisconnected} \<longrightarrow> chan_events (chan_of c w) = kNoneEvent) \<and>
      (conn_state conn = kConnecting \<longrightarrow> \<not> registered w c \<and> readable (outputBuffer conn) = []) \<and> (conn_state conn \<noteq> kDisconnected \<longrightarrow> in_map w c) \<and>
      (c \<in> X \<or> in_order st c))"

text \<open>The functors that may wait in a loop.\<close>

fun task_ok :: "'z server_world_scheme reactor \<Rightarrow> nat \<Rightarrow> task \<Rightarrow> bool" where
  "task_ok st lid (ConnTask (WriteComplete c)) \<longleftrightarrow>
     conn_loop (conns (srv st) c) = lid \<and> conn_state (conns (srv st) c) \<noteq> kConnecting \<and>
     writeCompleteCallback_set (conns (srv st) c)"
| "task_ok st lid (ConnTask (HighWaterMark c b n)) \<longleftrightarrow> \<not> b"
| "task_ok st lid (ConnTask (ConnectEstablished c)) \<longleftrightarrow>
     conn_loop (conns (srv st) c) = lid \<and> conn_state (conns (srv st) c) = kConnecting"
| "task_ok st lid (ConnTask (ConnectDestroyed c)) \<longleftrightarrow>
     conn_loop (conns (srv st) c) = lid \<and> conn_state (conns (srv st) c) = kDisconnected"
| "task_ok st lid (RemoveConnectionInLoop c) \<longleftrightarrow>
     lid = srv_loop (srv st) \<and> conn_state (conns (srv st) c) = kDisconnected"
| "task_ok st lid (ConnTask (SendInLoop c s)) \<longleftrightarrow>
     conn_loop (conns (srv st) c) = lid \<and> conn_state (conns (srv st) c) \<noteq> kConnecting \<and> held st c"
| "task_ok st lid (ConnTask (ShutdownInLoop c)) \<longleftrightarrow>
     conn_loop (conns (srv st) c) = lid \<and> conn_state (conns (srv st) c) \<noteq> kConnecting \<and> held st c"
| "task_ok st lid _ \<longleftrightarrow> False"

definition loop_state_ok :: "'z server_world_scheme reactor \<Rightarrow> nat \<Rightarrow> bool" where
  "loop_state_ok st lid \<longleftrightarrow>
     (let l = loops (srv st) lid in
      loop_ok l \<and> loop_id l = lid \<and> owns (own_channels st lid) l \<and> chan_owner (srv st) lid wakeup_ptr = WakeupOwner \<and>
      (\<forall>now ps. phase_of st lid = Dispatching now ps \<longrightarrow> set ps \<subseteq> ran (channels l)) \<and>
      (\<forall>t \<in> set (waiting_tasks st lid). task_ok st lid t) \<and> destroyed_last (waiting_tasks st lid) \<and>
      (\<forall>c. count_list (waiting_tasks st lid) (ConnTask (ConnectEstablished c)) \<le> 1))"

definition server_ok :: "'z server_world_scheme \<Rightarrow> bool" where
  "server_ok w \<longleftrightarrow>
     acc_loop (srv_acceptor w) = srv_loop w \<and> newConnectionCallback_set (srv_acceptor w) \<and>
     chan_owner w (srv_loop w) (acc_channel (srv_acceptor w)) = AcceptorOwner \<and>
     srv_connectionCallback_set w \<and> srv_messageCallback_set w \<and>
     pool_wf (srv_pool w) \<and> baseLoop (srv_pool w) = srv_loop w \<and>
     1 \<le> nextConnId w \<and> nextConnId w \<le> 2 ^ 31 \<and> length (srv_ipPort w) \<le> 21"

text \<open>The invariant; the buffers of the connections in \<open>W\<close> may be in flux.\<close>

definition reactor_inv :: "nat set \<Rightarrow> nat set \<Rightarrow> 'z server_world_scheme reactor \<Rightarrow> bool" where
  "reactor_inv X W st \<longleftrightarrow>
     server_ok (srv st) \<and> (\<forall>lid \<in> set (loop_ids (srv st)). loop_state_ok st lid) \<and>
     (\<forall>c. held st c \<longrightarrow> conn_ok X st c \<and> (c \<in> W \<or> conn_inv c (srv st))) \<and>
     (\<forall>c d. held st c \<longrightarrow> held st d \<longrightarrow> c \<noteq> d \<longrightarrow>
        conn_name (conns (srv st) c) \<noteq> conn_name (conns (srv st) d) \<and>
        conn_fd (conns (srv st) c) \<noteq> conn_fd (conns (srv st) d))"

section \<open>A change of one connection\<close>

lemma srv_update [simp]:
  "srv (st\<lparr>srv := w\<rparr>) = w" "phase_of (st\<lparr>srv := w\<rparr>) = phase_of st" "phase_of (st\<lparr>phase_of := p\<rparr>) = p"
  "srv (st\<lparr>phase_of := p\<rparr>) = srv st"
  by simp_all

lemma srv_same [simp]: "st\<lparr>srv := srv st\<rparr> = st"
  by (cases st) simp

lemma same_loop_ids: "world.more w' = world.more w \<Longrightarrow> loop_ids w' = loop_ids w"
  for w w' :: "'z server_world_scheme"
  by (simp add: loop_ids_def same_server[of w' w])

lemma same_server_ok: "world.more w' = world.more w \<Longrightarrow> server_ok w' \<longleftrightarrow> server_ok w"
  for w w' :: "'z server_world_scheme"
  by (simp add: server_ok_def same_server[of w' w])

lemma waiting_in_tasks: "set (waiting_tasks st lid) \<subseteq> set (tasks_of st lid)"
  by (cases "phase_of st lid") (auto simp: waiting_tasks_def tasks_of_def)

lemma holder_waiting_held:
  "lid \<in> set (loop_ids (srv st)) \<Longrightarrow> t \<in> set (waiting_tasks st lid) \<Longrightarrow> holder_of t = Some c \<Longrightarrow> held st c"
  using waiting_in_tasks[of st lid] by (auto simp: held_def)

lemma task_ok_about: "task_ok st lid t \<Longrightarrow> \<exists>c. holder_of t = Some c \<or> raw_of t = Some c"
  by (induction st lid t rule: task_ok.induct) auto

lemma task_ok_raw: "task_ok st lid t \<Longrightarrow> raw_of t = Some c \<Longrightarrow> held st c \<and> conn_loop (conns (srv st) c) = lid"
  by (induction st lid t rule: task_ok.induct) auto

lemma holder_not_raw: "holder_of t = Some c \<Longrightarrow> raw_of t = None"
  by (cases t rule: holder_of.cases) auto

lemma destroyed_last_append:
  "destroyed_last (xs @ ys) \<longleftrightarrow> destroyed_last xs \<and> destroyed_last ys \<and>
     (\<forall>c. ConnTask (ConnectDestroyed c) \<in> set xs \<longrightarrow> (\<forall>u \<in> set ys. raw_of u \<noteq> Some c))"
  by (induction xs) auto

lemma destroyed_last_held: "\<forall>u \<in> set ts. raw_of u = None \<Longrightarrow> destroyed_last ts"
  by (induction ts) auto

text \<open>
  A step that touches the connection \<open>c\<close> of the loop \<open>lid\<close> and its channel, and may queue functors that
  hold \<open>c\<close> there, keeps the invariant when \<open>c\<close> itself is in order afterwards.
\<close>

lemma local_change:
  fixes st :: "'z server_world_scheme reactor"
  assumes inv: "reactor_inv X W st" and c: "held st c"
    and more: "world.more w' = world.more (srv st)"
    and id: "same_identity (conns (srv st) c) (conns w' c)" "\<And>d. d \<noteq> c \<Longrightarrow> conns w' d = conns (srv st) d"
    and lid: "lid = conn_loop (conns (srv st) c)" and loops: "\<And>i. i \<noteq> lid \<Longrightarrow> loops w' i = loops (srv st) i"
    and l: "loop_ok (loops w' lid)" "owns (own_channels st lid) (loops w' lid)"
      "loop_id (loops w' lid) = loop_id (loops (srv st) lid)"
    and chans: "\<And>q. q \<noteq> conn_channel (conns (srv st) c) \<Longrightarrow> chans (loops w' lid) q = chans (loops (srv st) lid) q"
    and fds: "\<And>f. f \<noteq> conn_fd (conns (srv st) c) \<Longrightarrow> channels (loops w' lid) f = channels (loops (srv st) lid) f"
    and disp: "\<And>now ps. phase_of st lid = Dispatching now ps \<Longrightarrow>
      ran (channels (loops (srv st) lid)) \<subseteq> ran (channels (loops w' lid))"
    and pend: "pendingFunctors (loops w' lid) = pendingFunctors (loops (srv st) lid) @ ts"
      "\<And>t. t \<in> set ts \<Longrightarrow> holder_of t = Some c \<and> task_ok (st\<lparr>srv := w'\<rparr>) lid t"
      "ConnTask (ConnectEstablished c) \<notin> set ts"
    and state: "conn_state (conns w' c) = conn_state (conns (srv st) c) \<or>
      conn_state (conns (srv st) c) \<noteq> kDisconnected \<and> conn_state (conns w' c) \<noteq> kConnecting \<and>
      ConnTask (ConnectEstablished c) \<notin> set (waiting_tasks st lid)"
    and ok: "conn_ok Y (st\<lparr>srv := w'\<rparr>) c" "X - {c} \<subseteq> Y" "c \<in> V \<or> conn_inv c w'" "W - {c} \<subseteq> V"
  shows "reactor_inv Y V (st\<lparr>srv := w'\<rparr>) \<and> (\<forall>d. held (st\<lparr>srv := w'\<rparr>) d \<longleftrightarrow> held st d)"
proof -
  let ?w = "srv st" and ?st = "st\<lparr>srv := w'\<rparr>"
  note sv = same_server[OF more]
  have ids: "loop_ids w' = loop_ids ?w" by (rule same_loop_ids[OF more])
  have idc: "conn_loop (conns w' d) = conn_loop (conns ?w d)" "conn_name (conns w' d) = conn_name (conns ?w d)"
    "conn_fd (conns w' d) = conn_fd (conns ?w d)" "conn_channel (conns w' d) = conn_channel (conns ?w d)"
    "connectionCallback_set (conns w' d) = connectionCallback_set (conns ?w d)"
    "messageCallback_set (conns w' d) = messageCallback_set (conns ?w d)"
    "closeCallback_set (conns w' d) = closeCallback_set (conns ?w d)"
    "writeCompleteCallback_set (conns w' d) = writeCompleteCallback_set (conns ?w d)"
    "highWaterMarkCallback_set (conns w' d) = highWaterMarkCallback_set (conns ?w d)" for d
    using id by (cases "d = c"; simp add: same_identity_def)+
  have map: "in_map w' d \<longleftrightarrow> in_map ?w d" for d by (simp add: in_map_def sv idc)
  have lid_in: "lid \<in> set (loop_ids ?w)" using inv c lid by (auto simp: reactor_inv_def conn_ok_def Let_def)
  have wait: "waiting_tasks ?st i = waiting_tasks st i @ (if i = lid then ts else [])" for i
    using loops pend(1) by (simp add: waiting_tasks_def)
  have tasks: "tasks_of ?st i = tasks_of st i @ (if i = lid then ts else [])" for i
    using loops pend(1) by (simp add: tasks_of_def)
  have held: "held ?st d \<longleftrightarrow> held st d" for d
  proof -
    have "holder_of t = Some d \<longrightarrow> d = c" if "t \<in> set ts" for t using pend(2)[OF that] by simp
    then have "held ?st d \<Longrightarrow> held st d \<or> d = c"
      unfolding held_def srv_update map ids tasks by (auto split: if_splits)
    moreover have "held st d \<Longrightarrow> held ?st d" unfolding held_def srv_update map ids tasks by auto
    ultimately show ?thesis using c by blast
  qed
  have own: "own_channels ?st i = own_channels st i" for i by (simp add: own_channels_def sv held idc)
  have keep: "keeper st d \<Longrightarrow> keeper ?st d" for d by (auto simp: keeper_def map sv idc wait)
  have okc: "conn_ok X st d" if "held st d" for d using inv that by (simp add: reactor_inv_def)
  have owner: "chan_owner ?w (conn_loop (conns ?w d)) (conn_channel (conns ?w d)) = ConnOwner d" if "held st d" for d
    using okc[OF that] by (simp add: conn_ok_def Let_def)
  have chan: "chan_of d w' = chan_of d ?w" "registered w' d \<longleftrightarrow> registered ?w d" if "held st d" "d \<noteq> c" for d
  proof -
    have fd: "conn_fd (conns ?w d) \<noteq> conn_fd (conns ?w c)" using inv that c by (auto simp: reactor_inv_def)
    have "conn_channel (conns ?w d) \<noteq> conn_channel (conns ?w c)" if "conn_loop (conns ?w d) = lid"
      using owner[OF \<open>held st d\<close>] owner[OF c] \<open>d \<noteq> c\<close> that lid by (metis owner.inject)
    then show "chan_of d w' = chan_of d ?w" "registered w' d \<longleftrightarrow> registered ?w d"
      using loops chans fds[OF fd] by (cases "conn_loop (conns ?w d) = lid"; simp add: chan_of_def loop_of_def registered_def idc)+
  qed
  have no_raw: "raw_of t = None" if "t \<in> set ts" for t using pend(2)[OF that] holder_not_raw by blast
  have raws: "raw_waiting ?st d \<longleftrightarrow> raw_waiting st d" for d using no_raw by (auto simp: raw_waiting_def idc wait)
  have order: "in_order ?st d" if "in_order st d" "held st d" "d \<noteq> c" for d
    using that(1) keep[of d] raws[of d] unfolding in_order_def srv_update chan(2)[OF that(2,3)] id(2)[OF that(3)] map sv wait by auto
  have "conn_ok Y ?st d" if "held st d" for d
  proof (cases "d = c")
    case False
    from okc[OF that] order[OF _ that False] ok(2) False show ?thesis
      unfolding conn_ok_def Let_def srv_update ids sv chan[OF that False] id(2)[OF False] map name_of_def by blast
  qed (use ok(1) in simp)
  moreover have "d \<in> V \<or> conn_inv d w'" if "held st d" for d
  proof (cases "d = c")
    case False
    then have "d \<in> V \<or> conn_inv d ?w" using inv that ok(4) by (auto simp: reactor_inv_def)
    then show ?thesis using chan(1)[OF that False] id(2)[OF False] by (simp add: conn_inv_def)
  qed (use ok(3) in simp)
  moreover have "loop_state_ok ?st i" if i: "i \<in> set (loop_ids ?w)" for i
  proof -
    have ls: "loop_state_ok st i" using inv i by (simp add: reactor_inv_def)
    have t: "task_ok ?st i t" if "t \<in> set (waiting_tasks st i)" for t
    proof -
      have tk: "task_ok st i t" using ls that by (simp add: loop_state_ok_def Let_def)
      with task_ok_about[OF tk] obtain d where d: "holder_of t = Some d \<or> raw_of t = Some d" by auto
      show ?thesis
      proof (cases "d = c")
        case False
        with tk d id(2)[OF False] show ?thesis
          by (cases "(st, i, t)" rule: task_ok.cases) (auto simp: map sv idc held)
      next
        case True
        have est: "conn_state (conns w' c) = conn_state (conns ?w c) \<or>
            conn_state (conns ?w c) \<noteq> kDisconnected \<and> conn_state (conns w' c) \<noteq> kConnecting \<and> t \<noteq> ConnTask (ConnectEstablished c)"
        proof (cases "t = ConnTask (ConnectEstablished c)")
          case True
          with tk lid have "i = lid" by simp
          with True that state show ?thesis by auto
        qed (use state in auto)
        with tk d True show ?thesis
          by (cases "(st, i, t)" rule: task_ok.cases) (auto simp: map sv idc held)
      qed
    qed
    have last: "destroyed_last (waiting_tasks ?st i)"
      using ls no_raw destroyed_last_held[of ts] by (auto simp: wait destroyed_last_append loop_state_ok_def Let_def)
    have cnt: "count_list ts (ConnTask (ConnectEstablished d)) = 0" for d
      using pend(2,3) by (cases "d = c") (fastforce simp: count_list_0_iff)+
    show ?thesis
    proof (cases "i = lid")
      case True
      have "count_list (waiting_tasks ?st i) (ConnTask (ConnectEstablished d)) \<le> 1" for d
        using ls cnt True by (auto simp: wait loop_state_ok_def Let_def)
      moreover have "set ps \<subseteq> ran (channels (loops w' i))" if "phase_of st i = Dispatching now ps" for now ps
        using ls disp[of now ps] that True by (auto simp: loop_state_ok_def Let_def)
      moreover have "\<forall>t \<in> set (waiting_tasks ?st i). task_ok ?st i t" using t pend(2) True by (auto simp: wait)
      ultimately show ?thesis
        using ls l last True by (simp add: loop_state_ok_def Let_def own sv)
    next
      case False
      with ls loops[OF False] t last show ?thesis by (simp add: loop_state_ok_def Let_def own sv wait)
    qed
  qed
  moreover have "server_ok w'" using inv same_server_ok[OF more] by (simp add: reactor_inv_def)
  moreover have "conn_name (conns w' d) \<noteq> conn_name (conns w' e) \<and> conn_fd (conns w' d) \<noteq> conn_fd (conns w' e)"
    if "held st d" "held st e" "d \<noteq> e" for d e
    using inv that by (auto simp: reactor_inv_def idc)
  ultimately show ?thesis using held by (simp add: reactor_inv_def ids)
qed

lemma held_ok: "reactor_inv X W st \<Longrightarrow> held st c \<Longrightarrow> conn_ok X st c"
  by (simp add: reactor_inv_def)

lemma held_loop: "reactor_inv X W st \<Longrightarrow> held st c \<Longrightarrow> loop_state_ok st (conn_loop (conns (srv st) c))"
  by (auto simp: reactor_inv_def conn_ok_def Let_def)

lemma held_channel: "held st c \<Longrightarrow> conn_channel (conns (srv st) c) \<in> own_channels st (conn_loop (conns (srv st) c))"
  by (auto simp: own_channels_def)

lemma held_in_loop:
  assumes "reactor_inv X W st" and "held st c" and "accepts_legal (k_ctl k (conn_loop (conns (srv st) c)))"
  shows "in_loop k (threadId (loop_of c (srv st))) c (srv st)"
  using held_loop[OF assms(1,2)] held_channel[OF assms(2)] assms(3)
  by (auto simp: in_loop_def loop_of_def loop_state_ok_def Let_def)

lemma state_kept:
  assumes "s' = s \<or> s = kConnected \<and> s' = kDisconnecting" and "s \<noteq> kConnecting"
  shows "s' = kDisconnected \<longleftrightarrow> s = kDisconnected" "s' = kConnecting \<longleftrightarrow> s = kConnecting"
  using assms by auto

text \<open>A change that leaves the loops alone.\<close>

lemma quiet_change:
  assumes inv: "reactor_inv X W st" and c: "held st c" "c \<in> W"
    and w': "world.more w' = world.more (srv st)" "loops w' = loops (srv st)"
    and id: "same_identity (conns (srv st) c) (conns w' c)" "\<And>d. d \<noteq> c \<Longrightarrow> conns w' d = conns (srv st) d"
    and state: "conn_state (conns w' c) = conn_state (conns (srv st) c) \<or>
      conn_state (conns (srv st) c) = kConnected \<and> conn_state (conns w' c) = kDisconnecting"
      "conn_state (conns (srv st) c) \<noteq> kConnecting"
  shows "reactor_inv X W (st\<lparr>srv := w'\<rparr>) \<and> (\<forall>d. held (st\<lparr>srv := w'\<rparr>) d \<longleftrightarrow> held st d)"
proof -
  note ok = held_ok[OF inv c(1)] and sv = same_server[OF w'(1)]
  have idc: "conn_loop (conns w' d) = conn_loop (conns (srv st) d)" "conn_name (conns w' d) = conn_name (conns (srv st) d)"
    "conn_fd (conns w' d) = conn_fd (conns (srv st) d)" "conn_channel (conns w' d) = conn_channel (conns (srv st) d)" for d
    using id by (cases "d = c"; simp add: same_identity_def)+
  have flags: "connectionCallback_set (conns w' c) = connectionCallback_set (conns (srv st) c)"
    "messageCallback_set (conns w' c) = messageCallback_set (conns (srv st) c)"
    "closeCallback_set (conns w' c) = closeCallback_set (conns (srv st) c)"
    "writeCompleteCallback_set (conns w' c) = writeCompleteCallback_set (conns (srv st) c)"
    "highWaterMarkCallback_set (conns w' c) = highWaterMarkCallback_set (conns (srv st) c)"
    using id(1) by (simp_all add: same_identity_def)
  have same: "chan_of c w' = chan_of c (srv st)" "registered w' c = registered (srv st) c" "in_map w' c = in_map (srv st) c"
    "keeper (st\<lparr>srv := w'\<rparr>) c = keeper st c" "raw_waiting (st\<lparr>srv := w'\<rparr>) c = raw_waiting st c"
    by (simp_all add: chan_of_def loop_of_def registered_def in_map_def keeper_def raw_waiting_def waiting_tasks_def idc w'(2) sv)
  have order: "in_order (st\<lparr>srv := w'\<rparr>) c = in_order st c"
    unfolding in_order_def srv_update same state_kept[OF state] using w'(2)
    by (simp add: idc sv waiting_tasks_def)
  have l: "loop_state_ok st (conn_loop (conns (srv st) c))" by (rule held_loop[OF inv c(1)])
  have "conn_ok X (st\<lparr>srv := w'\<rparr>) c"
    using ok state(2) unfolding conn_ok_def Let_def srv_update same order same_loop_ids[OF w'(1)] sv name_of_def idc flags
      insert_iff empty_iff state_kept[OF state] by blast
  moreover have "ConnTask (ConnectEstablished c) \<notin> set (waiting_tasks st (conn_loop (conns (srv st) c)))"
    if "conn_state (conns (srv st) c) = kConnected"
    using l that by (auto simp: loop_state_ok_def Let_def)
  ultimately show ?thesis
    using l w'(2) state c(2)
    by (intro local_change[OF inv c(1) w'(1) id refl, where ts = "[]"])
      (auto simp: loop_state_ok_def Let_def)
qed

text \<open>A functor that holds \<open>c\<close>, or points to it, joins the queue of a loop.\<close>

lemma push_any_change:
  assumes inv: "reactor_inv X W st" and c: "held st c" "holder_of t = Some c \<or> raw_of t = Some c"
    and raw: "raw_of t = Some c \<Longrightarrow> keeper st c \<and> ConnTask (ConnectDestroyed c) \<notin> set (waiting_tasks st lid)"
    and lid: "lid \<in> set (loop_ids (srv st))" and t: "task_ok st lid t"
      "t = ConnTask (ConnectEstablished c) \<Longrightarrow> t \<notin> set (waiting_tasks st lid)"
    and w: "w' = put_loop lid (queueInLoop tid t (loops (srv st) lid)) (srv st)"
  shows "reactor_inv X W (st\<lparr>srv := w'\<rparr>) \<and> (\<forall>d. held (st\<lparr>srv := w'\<rparr>) d \<longleftrightarrow> held st d)"
proof -
  let ?st = "st\<lparr>srv := w'\<rparr>"
  have more: "world.more w' = world.more (srv st)" by (simp add: w)
  note sv = same_server[OF more]
  have cw: "conns w' = conns (srv st)" by (simp add: w)
  have ids: "loop_ids w' = loop_ids (srv st)" by (rule same_loop_ids[OF more])
  have map: "in_map w' d \<longleftrightarrow> in_map (srv st) d" for d by (simp add: in_map_def sv cw)
  have lp: "chans (loops w' i) = chans (loops (srv st) i)" "channels (loops w' i) = channels (loops (srv st) i)"
    "loop_ok (loops w' i) \<longleftrightarrow> loop_ok (loops (srv st) i)" "loop_id (loops w' i) = loop_id (loops (srv st) i)"
    "owns S (loops w' i) \<longleftrightarrow> owns S (loops (srv st) i)" for i S
    by (cases "i = lid"; simp add: w)+
  have wait: "waiting_tasks ?st i = waiting_tasks st i @ (if i = lid then [t] else [])" for i
    by (simp add: waiting_tasks_def w)
  have tasks: "tasks_of ?st i = tasks_of st i @ (if i = lid then [t] else [])" for i
    by (simp add: tasks_of_def w)
  have held: "held ?st d \<longleftrightarrow> held st d" for d
  proof -
    have "holder_of t = Some d \<Longrightarrow> d = c" using c(2) holder_not_raw[of t d] by auto
    then have "held ?st d \<Longrightarrow> held st d \<or> d = c"
      unfolding held_def srv_update map ids tasks by (auto split: if_splits)
    moreover have "held st d \<Longrightarrow> held ?st d" unfolding held_def srv_update map ids tasks by auto
    ultimately show ?thesis using c(1) by blast
  qed
  have chan: "chan_of d w' = chan_of d (srv st)" "registered w' d \<longleftrightarrow> registered (srv st) d" for d
    by (simp_all add: chan_of_def registered_def loop_of_def lp cw)
  have own: "own_channels ?st i = own_channels st i" for i by (simp add: own_channels_def sv held cw)
  have keep: "keeper st d \<Longrightarrow> keeper ?st d" for d by (auto simp: keeper_def map sv cw wait)
  have tk: "task_ok ?st i u \<longleftrightarrow> task_ok st i u" for i u
    by (cases "(st, i, u)" rule: task_ok.cases) (auto simp: sv cw held)
  have one: "raw_of t = Some d \<Longrightarrow> d = c" for d using c(2) holder_not_raw[of t c] by auto
  have raws: "raw_waiting ?st d \<Longrightarrow> raw_waiting st d \<or> d = c \<and> raw_of t = Some c" for d
    using one by (auto simp: raw_waiting_def cw wait split: if_splits)
  have order: "in_order st d \<Longrightarrow> in_order ?st d" for d
    using keep[of d] raws[of d] raw by (auto simp: in_order_def chan cw map sv wait)
  have "conn_ok X ?st d" if "held st d" for d
    using held_ok[OF inv that] order[of d]
    unfolding conn_ok_def Let_def srv_update ids sv chan cw map name_of_def by blast
  moreover have "conn_inv d w' \<longleftrightarrow> conn_inv d (srv st)" for d by (simp add: conn_inv_def cw chan)
  moreover have "loop_state_ok ?st i" if i: "i \<in> set (loop_ids (srv st))" for i
  proof -
    have ls: "loop_state_ok st i" using inv i by (simp add: reactor_inv_def)
    have cnt: "count_list (waiting_tasks st i) (ConnTask (ConnectEstablished d)) \<le> 1" for d
      using ls by (simp add: loop_state_ok_def Let_def)
    have "count_list (waiting_tasks ?st i) (ConnTask (ConnectEstablished d)) \<le> 1" for d
    proof (cases "i = lid \<and> t = ConnTask (ConnectEstablished d)")
      case True
      with c(2) t(2) have "count_list (waiting_tasks st i) (ConnTask (ConnectEstablished d)) = 0"
        by (simp add: count_list_0_iff)
      with True show ?thesis by (simp add: wait)
    next
      case False
      with cnt[of d] show ?thesis by (auto simp: wait)
    qed
    moreover have "\<forall>u \<in> set (waiting_tasks ?st i). task_ok ?st i u"
      using ls t(1) by (auto simp: wait tk loop_state_ok_def Let_def)
    moreover have "destroyed_last (waiting_tasks ?st i)"
    proof -
      have "destroyed_last (waiting_tasks st i)" using ls by (simp add: loop_state_ok_def Let_def)
      moreover have "raw_of t \<noteq> Some d" if "ConnTask (ConnectDestroyed d) \<in> set (waiting_tasks st lid)" for d
      proof
        assume "raw_of t = Some d"
        with one[OF this] raw that show False by simp
      qed
      ultimately show ?thesis by (simp add: wait destroyed_last_append)
    qed
    ultimately show ?thesis
      using ls unfolding loop_state_ok_def Let_def srv_update own sv lp by blast
  qed
  moreover have "server_ok w'" using inv same_server_ok[OF more] by (simp add: reactor_inv_def)
  ultimately show ?thesis using inv held unfolding reactor_inv_def srv_update ids cw by simp
qed

lemma push_change:
  assumes "reactor_inv X W st" and "held st c" "holder_of t = Some c"
    and "lid \<in> set (loop_ids (srv st))" and "task_ok st lid t"
      "t = ConnTask (ConnectEstablished c) \<Longrightarrow> t \<notin> set (waiting_tasks st lid)"
    and "w' = put_loop lid (queueInLoop tid t (loops (srv st) lid)) (srv st)"
  shows "reactor_inv X W (st\<lparr>srv := w'\<rparr>) \<and> (\<forall>d. held (st\<lparr>srv := w'\<rparr>) d \<longleftrightarrow> held st d)"
  by (rule push_any_change[OF assms(1,2) _ _ assms(4-7)]) (use assms(3) holder_not_raw in auto)

lemma queue_change:
  assumes inv: "reactor_inv X W st" and c: "held st c" "holder_of (ConnTask t) = Some c"
    and t: "task_ok st (conn_loop (conns (srv st) c)) (ConnTask t)" "t \<noteq> ConnectEstablished c"
  shows "reactor_inv X W (st\<lparr>srv := conn_queueInLoop tid c t (srv st)\<rparr>) \<and>
    (\<forall>d. held (st\<lparr>srv := conn_queueInLoop tid c t (srv st)\<rparr>) d \<longleftrightarrow> held st d)"
proof (rule push_change[OF inv c _ t(1)])
  show "conn_loop (conns (srv st) c) \<in> set (loop_ids (srv st))"
    using held_ok[OF inv c(1)] by (simp add: conn_ok_def Let_def)
qed (use t(2) c in \<open>simp_all add: conn_queueInLoop_def loop_of_def\<close>)

lemma not_disconnected: "s = s' \<or> s' \<noteq> kDisconnected \<and> P \<Longrightarrow> s \<noteq> kDisconnected \<Longrightarrow> s' \<noteq> kDisconnected"
  by auto

text \<open>The events of \<open>c\<close>'s channel change, with or without its state.\<close>

lemma events_change:
  assumes inv: "reactor_inv X W st" and c: "held st c"
    and w: "world.more w = world.more (srv st)" "loops w = loops (srv st)"
      "conns w = (conns (srv st))(c := (conns (srv st) c)\<lparr>conn_state := s\<rparr>)"
    and state: "s \<noteq> kConnecting" "s = kDisconnected \<Longrightarrow> ev = kNoneEvent \<and> c \<in> Y"
      "s = conn_state (conns (srv st) c) \<or> conn_state (conns (srv st) c) \<noteq> kDisconnected \<and>
        ConnTask (ConnectEstablished c) \<notin> set (waiting_tasks st (conn_loop (conns (srv st) c)))"
    and keep: "keeper st c \<or> c \<in> Y" and XY: "X - {c} \<subseteq> Y" and V: "c \<in> V" "W - {c} \<subseteq> V"
  shows "reactor_inv Y V (st\<lparr>srv := events_set ev c w\<rparr>) \<and> (\<forall>d. held (st\<lparr>srv := events_set ev c w\<rparr>) d \<longleftrightarrow> held st d)"
proof -
  let ?lid = "conn_loop (conns (srv st) c)" and ?ptr = "conn_channel (conns (srv st) c)"
  let ?w = "events_set ev c w"
  have more: "world.more ?w = world.more (srv st)" by (simp add: w)
  note ok = held_ok[OF inv c] and sv = same_server[OF more]
  have l: "loop_state_ok st ?lid" by (rule held_loop[OF inv c])
  have legal: "accepts_legal (\<lambda>_ _. 0)" by (simp add: accepts_legal_def)
  have step: "loop_ok (updated ?ptr ev (loops (srv st) ?lid))"
    "owns (own_channels st ?lid) (updated ?ptr ev (loops (srv st) ?lid))"
    using channel_update_step(2,3)[OF _ _ held_channel[OF c] legal refl, of "loops (srv st) ?lid"] l
    by (auto simp: loop_state_ok_def Let_def)
  have lp: "loops ?w = (loops (srv st))(?lid := updated ?ptr ev (loops (srv st) ?lid))"
    by (simp add: events_set_def loop_of_def w)
  have fd: "chan_fd (chans (loops (srv st) ?lid) ?ptr) = conn_fd (conns (srv st) c)"
    using ok by (simp add: conn_ok_def Let_def chan_of_def loop_of_def)
  have same: "chan_events (chan_of c ?w) = ev" "chan_fd (chan_of c ?w) = conn_fd (conns (srv st) c)"
    "in_map ?w c = in_map (srv st) c"
    by (simp, simp add: chan_of_def loop_of_def lp w updated_fields(3) fd, simp add: in_map_def sv w)
  have pend: "pendingFunctors (loops ?w i) = pendingFunctors (loops (srv st) i)" for i
    by (cases "i = ?lid") (simp_all add: lp same_more(9)[OF updated_more])
  have k: "keeper (st\<lparr>srv := ?w\<rparr>) c \<longleftrightarrow> keeper st c"
    by (simp add: keeper_def waiting_tasks_def sv pend same w)
  have mapc: "conn_state (conns (srv st) c) \<noteq> kDisconnected \<Longrightarrow> in_map (srv st) c"
    using ok by (simp add: conn_ok_def Let_def)
  have order: "c \<in> Y \<or> in_order (st\<lparr>srv := ?w\<rparr>) c"
    using keep state(1,2) unfolding in_order_def k by (auto simp: w)
  have "conn_ok Y (st\<lparr>srv := ?w\<rparr>) c"
    using ok state(1,2) mapc state(3)[THEN not_disconnected] order
    unfolding conn_ok_def Let_def srv_update same same_loop_ids[OF more] sv name_of_def
    by (elim conjE) (intro conjI; simp add: w)
  moreover have "ran (channels (loops (srv st) ?lid)) \<subseteq> ran (channels (updated ?ptr ev (loops (srv st) ?lid)))"
  proof
    fix q assume "q \<in> ran (channels (loops (srv st) ?lid))"
    then obtain f where f: "channels (loops (srv st) ?lid) f = Some q" by (auto simp: ran_def)
    have "channels (loops (srv st) ?lid) (conn_fd (conns (srv st) c)) \<in> {None, Some ?ptr}"
      using owns_free[OF _ _ held_channel[OF c], of "loops (srv st) ?lid"] l fd by (auto simp: loop_state_ok_def Let_def)
    with f show "q \<in> ran (channels (updated ?ptr ev (loops (srv st) ?lid)))"
      by (cases "f = conn_fd (conns (srv st) c)") (auto simp: updated_fields(10) fd intro: ranI[of _ f])
  qed
  ultimately show ?thesis
    using l V state XY step
    by (intro local_change[OF inv c more _ _ refl, where ts = "[]"])
      (auto simp: loop_state_ok_def Let_def lp w fd same_more(9)[OF updated_more] updated_fields same_identity_def)
qed

lemma quiet_act:
  fixes w' w'' :: "'z server_world_scheme"
  assumes "conn_acts tid c (srv st) w'"
    and "reactor_inv X W (st\<lparr>srv := w'\<rparr>) \<and> (\<forall>d. held (st\<lparr>srv := w'\<rparr>) d \<longleftrightarrow> held st d)"
    and "held st c" and "c \<in> W" and "conn_state (conns (srv st) c) \<noteq> kConnecting"
    and "world.more w'' = world.more w'" and "loops w'' = loops w'" and "same_identity (conns w' c) (conns w'' c)"
    and "\<And>d. d \<noteq> c \<Longrightarrow> conns w'' d = conns w' d"
    and "conn_state (conns w'' c) = conn_state (conns w' c) \<or>
      conn_state (conns w' c) = kConnected \<and> conn_state (conns w'' c) = kDisconnecting"
  shows "reactor_inv X W (st\<lparr>srv := w''\<rparr>) \<and> (\<forall>d. held (st\<lparr>srv := w''\<rparr>) d \<longleftrightarrow> held st d)"
proof -
  let ?st = "st\<lparr>srv := w'\<rparr>"
  have i: "reactor_inv X W ?st" "held ?st c" using assms(2,3) by simp_all
  have "conn_state (conns w' c) \<noteq> kConnecting" using acts_state[OF assms(1)] assms(5) by (elim disjE) simp_all
  with quiet_change[OF i assms(4), of w''] assms(6-10) have
    "reactor_inv X W (?st\<lparr>srv := w''\<rparr>) \<and> (\<forall>d. held (?st\<lparr>srv := w''\<rparr>) d \<longleftrightarrow> held ?st d)"
    unfolding srv_update by blast
  with assms(2) show ?thesis by simp
qed

lemma acts_inv:
  fixes w w' :: "'z server_world_scheme"
  assumes "conn_acts tid c w w'" and "w = srv st" and "reactor_inv X W st" and "held st c" and "c \<in> W"
    and "conn_state (conns (srv st) c) \<noteq> kConnecting"
  shows "reactor_inv X W (st\<lparr>srv := w'\<rparr>) \<and> (\<forall>d. held (st\<lparr>srv := w'\<rparr>) d \<longleftrightarrow> held st d)"
  using assms
proof (induction rule: conn_acts.induct)
  case (acts_log w w' e)
  show ?case
    by (rule quiet_act[of tid c st w']) (use acts_log in simp_all)
next
  case (acts_in w w' b)
  show ?case
    by (rule quiet_act[of tid c st w']) (use acts_in in \<open>simp_all add: same_identity_def\<close>)
next
  case (acts_out w w' b)
  show ?case
    by (rule quiet_act[of tid c st w']) (use acts_out in \<open>simp_all add: same_identity_def\<close>)
next
  case (acts_strings w w' m)
  show ?case
    by (rule quiet_act[of tid c st w']) (use acts_strings in simp_all)
next
  case (acts_halfclose w w')
  show ?case
    by (rule quiet_act[of tid c st w']) (use acts_halfclose in \<open>simp_all add: same_identity_def\<close>)
next
  case (acts_queue w w' t)
  let ?st = "st\<lparr>srv := w'\<rparr>"
  have i: "reactor_inv X W ?st" "held ?st c" and h: "\<forall>d. held ?st d \<longleftrightarrow> held st d" using acts_queue by auto
  have "conn_state (conns w' c) \<noteq> kConnecting" using acts_state[OF acts_queue.hyps(1)] acts_queue.prems(1,5) by auto
  moreover have "\<not> highWaterMarkCallback_set (conns w' c)" using held_ok[OF i] by (simp add: conn_ok_def Let_def)
  ultimately have "task_ok ?st (conn_loop (conns w' c)) (ConnTask t)" "holder_of (ConnTask t) = Some c" "t \<noteq> ConnectEstablished c"
    using acts_queue.hyps(2) by (auto simp: notice_of_def)
  then show ?case using queue_change[OF i, of t tid] h by simp
next
  case (acts_events w w' ev)
  let ?st = "st\<lparr>srv := w'\<rparr>"
  have i: "reactor_inv X W ?st" "held ?st c" and h: "\<forall>d. held ?st d \<longleftrightarrow> held st d" using acts_events by auto
  have up: "conn_state (conns w' c) \<in> {kConnected, kDisconnecting}" using acts_events.hyps(2) by (simp add: is_up_def)
  then have "keeper ?st c" using held_ok[OF i] by (auto simp: conn_ok_def Let_def keeper_def)
  moreover have "conns w' = (conns (srv ?st))(c := (conns (srv ?st) c)\<lparr>conn_state := conn_state (conns w' c)\<rparr>)"
    by simp
  ultimately have "reactor_inv X W (?st\<lparr>srv := events_set ev c w'\<rparr>) \<and>
      (\<forall>d. held (?st\<lparr>srv := events_set ev c w'\<rparr>) d \<longleftrightarrow> held ?st d)"
    using up acts_events.prems(4) by (intro events_change[OF i, where s = "conn_state (conns w' c)"]) auto
  with h show ?case by simp
qed simp

section \<open>A change of one loop\<close>

text \<open>A turn of the loop \<open>lid\<close> itself: its channels keep what matters, functors move on.\<close>

lemma loop_change:
  assumes inv: "reactor_inv X W st" and lid: "lid \<in> set (loop_ids (srv st))"
    and st': "st' = st\<lparr>srv := put_loop lid l (srv st), phase_of := (phase_of st)(lid := p)\<rparr>"
    and chans: "\<And>q. chan_fd (chans l q) = chan_fd (chans (loops (srv st) lid) q)"
      "\<And>q. chan_loop (chans l q) = chan_loop (chans (loops (srv st) lid) q)"
      "\<And>q. chan_events (chans l q) = chan_events (chans (loops (srv st) lid) q)"
      "channels l = channels (loops (srv st) lid)" "loop_ok l" "loop_id l = loop_id (loops (srv st) lid)"
    and tasks: "set (vector_of p @ pendingFunctors l) = set (tasks_of st lid)"
    and wait: "waiting_tasks st lid = ts @ rest_of p @ pendingFunctors l"
    and disp: "\<And>now ps. p = Dispatching now ps \<Longrightarrow> set ps \<subseteq> ran (channels l)"
    and keep: "\<And>c. in_order st c \<Longrightarrow> c \<notin> Y \<Longrightarrow> in_order st' c" and XY: "X \<subseteq> Y"
  shows "reactor_inv Y W st' \<and> (\<forall>d. held st' d \<longleftrightarrow> held st d)"
proof -
  let ?w = "put_loop lid l (srv st)"
  have more: "world.more ?w = world.more (srv st)" by simp
  note sv = same_server[OF more]
  have srv': "srv st' = ?w" "phase_of st' = (phase_of st)(lid := p)" by (simp_all add: st')
  have ids: "loop_ids ?w = loop_ids (srv st)" by (rule same_loop_ids[OF more])
  have map: "in_map ?w d \<longleftrightarrow> in_map (srv st) d" for d by (simp add: in_map_def sv)
  have tasks': "set (tasks_of st' i) = set (tasks_of st i)" for i
    using tasks by (simp add: tasks_of_def srv')
  have held: "held st' d \<longleftrightarrow> held st d" for d
    unfolding held_def srv'(1) map ids using tasks' by simp
  have evs: "chan_events (chan_of d ?w) = chan_events (chan_of d (srv st))"
    "chan_fd (chan_of d ?w) = chan_fd (chan_of d (srv st))" "registered ?w d \<longleftrightarrow> registered (srv st) d" for d
    by (simp_all add: chan_of_def loop_of_def chans registered_def)
  have own: "own_channels st' i = own_channels st i" for i by (simp add: own_channels_def srv' sv held)
  have w0: "waiting_tasks st' i = (if i = lid then rest_of p @ pendingFunctors l else waiting_tasks st i)" for i
    by (simp add: waiting_tasks_def srv')
  then have sub: "set (waiting_tasks st' i) \<subseteq> set (waiting_tasks st i)"
    "count_list (waiting_tasks st' i) x \<le> count_list (waiting_tasks st i) x" for i x
    using wait by (auto simp: count_list_append)
  have tk: "task_ok st' i u \<longleftrightarrow> task_ok st i u" for i u
    by (cases "(st, i, u)" rule: task_ok.cases) (auto simp: sv srv' held)
  have "conn_ok Y st' d" if "held st d" for d
    using held_ok[OF inv that] keep[of d] XY
    unfolding conn_ok_def Let_def srv'(1) ids sv evs put_loop_simps map name_of_def by blast
  moreover have "conn_inv d ?w \<longleftrightarrow> conn_inv d (srv st)" for d
    by (simp add: conn_inv_def isWriting_def evs)
  moreover have "loop_state_ok st' i" if i: "i \<in> set (loop_ids (srv st))" for i
  proof -
    have ls: "loop_state_ok st i" using inv i by (simp add: reactor_inv_def)
    have "\<forall>t \<in> set (waiting_tasks st' i). task_ok st' i t"
      using ls sub(1)[of i] by (auto simp: loop_state_ok_def Let_def tk)
    moreover have "count_list (waiting_tasks st' i) (ConnTask (ConnectEstablished c)) \<le> 1" for c
      using ls sub(2)[of i] order_trans by (fastforce simp: loop_state_ok_def Let_def)
    moreover have "destroyed_last (waiting_tasks st' i)"
      using ls wait by (auto simp: w0 loop_state_ok_def Let_def destroyed_last_append)
    moreover have "owns (own_channels st' lid) l" if "i = lid"
      using ls owns_same[of "own_channels st lid" "loops (srv st) lid" l] chans that
      by (auto simp: own loop_state_ok_def Let_def owns_def)
    ultimately show ?thesis
      using ls chans(4-6) disp by (auto simp: loop_state_ok_def Let_def srv' sv own)
  qed
  moreover have "server_ok ?w" using inv same_server_ok[OF more] by (simp add: reactor_inv_def)
  ultimately show ?thesis using inv held unfolding reactor_inv_def srv'(1) ids by simp
qed

text \<open>Nothing but the log, or the strings, changes.\<close>

lemma same_inv:
  assumes "world.more w' = world.more (srv st)" and "loops w' = loops (srv st)" and "conns w' = conns (srv st)"
  shows "reactor_inv X W (st\<lparr>srv := w'\<rparr>) \<longleftrightarrow> reactor_inv X W st" "held (st\<lparr>srv := w'\<rparr>) d \<longleftrightarrow> held st d"
proof -
  let ?st = "st\<lparr>srv := w'\<rparr>"
  note sv = same_server[OF assms(1)]
  have ids: "loop_ids w' = loop_ids (srv st)" by (rule same_loop_ids[OF assms(1)])
  have eq: "in_map w' = in_map (srv st)" "chan_of d w' = chan_of d (srv st)" "registered w' = registered (srv st)"
    "tasks_of ?st = tasks_of st" "waiting_tasks ?st = waiting_tasks st" for d
    by (simp_all add: in_map_def fun_eq_iff chan_of_def loop_of_def registered_def tasks_of_def waiting_tasks_def sv assms)
  have held: "held ?st = held st" by (simp add: fun_eq_iff held_def eq ids)
  have own: "own_channels ?st = own_channels st" by (simp add: fun_eq_iff own_channels_def sv held assms)
  have tk: "task_ok ?st i u \<longleftrightarrow> task_ok st i u" for i u
    by (cases "(st, i, u)" rule: task_ok.cases) (auto simp: sv assms held)
  have "raw_waiting ?st = raw_waiting st" by (simp add: fun_eq_iff raw_waiting_def assms eq)
  moreover have "keeper ?st = keeper st" by (simp add: fun_eq_iff keeper_def sv assms eq)
  ultimately have "in_order ?st = in_order st" by (simp add: fun_eq_iff in_order_def sv assms eq)
  then have "conn_ok X ?st = conn_ok X st" by (simp add: fun_eq_iff conn_ok_def Let_def eq ids sv assms name_of_def)
  moreover have "loop_state_ok ?st = loop_state_ok st"
    by (simp add: fun_eq_iff loop_state_ok_def Let_def own eq tk sv assms)
  moreover have "conn_inv d w' \<longleftrightarrow> conn_inv d (srv st)" for d by (simp add: conn_inv_def eq assms)
  ultimately show "reactor_inv X W ?st \<longleftrightarrow> reactor_inv X W st"
    using same_server_ok[OF assms(1)] by (simp add: reactor_inv_def held ids assms)
  show "held ?st d \<longleftrightarrow> held st d" by (simp add: held)
qed

end
