(* ===== verification/Reactor_Safety.thy ===== *)
theory Reactor_Safety
  imports Reactor
begin

text \<open>
  Every turn of every loop of a server keeps the invariant of its threads, for every application that
  works on the connection it is called with. The application's side is the locale \<open>server_threads\<close>.
\<close>

section \<open>What a handler leaves\<close>

lemma reactor_inv_mono: "reactor_inv X W st \<Longrightarrow> X \<subseteq> X' \<Longrightarrow> W \<subseteq> W' \<Longrightarrow> reactor_inv X' W' st"
  by (auto simp: reactor_inv_def conn_ok_def Let_def)

lemma reactor_inv_settle: "reactor_inv X (insert c W) st \<Longrightarrow> conn_inv c (srv st) \<Longrightarrow> reactor_inv X W st"
  by (auto simp: reactor_inv_def)

lemma reactor_inv_order: "reactor_inv (insert c X) W st \<Longrightarrow> in_order st c \<Longrightarrow> reactor_inv X W st"
  by (auto simp: reactor_inv_def conn_ok_def Let_def)

text \<open>What the application sees of the server beside its connections: its own state, and whether it asked for write-complete calls.\<close>

definition app_state :: "'z server_world_scheme \<Rightarrow> bool \<times> 'z" where
  "app_state w = (srv_writeCompleteCallback_set w, server_world.more w)"

definition kept :: "'z server_world_scheme reactor \<Rightarrow> 'z server_world_scheme \<Rightarrow> bool" where
  "kept st w' \<longleftrightarrow>
     (\<forall>d. held (st\<lparr>srv := w'\<rparr>) d \<longleftrightarrow> held st d) \<and>
     (\<forall>i. threadId (loops w' i) = threadId (loops (srv st) i)) \<and>
     app_state w' = app_state (srv st) \<and> loop_ids w' = loop_ids (srv st) \<and>
     srv_loop w' = srv_loop (srv st) \<and> chan_owner w' = chan_owner (srv st) \<and>
     (\<forall>d. same_identity (conns (srv st) d) (conns w' d)) \<and>
     (\<forall>d. conn_state (conns (srv st) d) \<noteq> kConnecting \<longrightarrow> conn_state (conns w' d) \<noteq> kConnecting) \<and>
     (\<forall>d. conn_state (conns (srv st) d) = kDisconnected \<longrightarrow> conn_state (conns w' d) = kDisconnected)"

lemma same_identity_trans: "same_identity a b \<Longrightarrow> same_identity b c \<Longrightarrow> same_identity a c"
  by (simp add: same_identity_def)

lemma kept_trans: "kept st w1 \<Longrightarrow> kept (st\<lparr>srv := w1\<rparr>) w2 \<Longrightarrow> kept st w2"
  unfolding kept_def by (auto intro: same_identity_trans)

lemma kept_refl [simp]: "kept st (srv st)"
  by (simp add: kept_def)

lemma acts_threads: "conn_acts tid c w w' \<Longrightarrow> threadId (loops w' i) = threadId (loops w i)"
  by (induction rule: conn_acts.induct)
    (auto simp: events_set_def loop_of_def updated_fields)

lemma same_app_state: "world.more w' = world.more w \<Longrightarrow> app_state w' = app_state w"
  for w w' :: "'z server_world_scheme"
  by (cases w; cases w') (simp add: app_state_def)

lemma acts_kept:
  assumes "conn_acts tid c (srv st) w'" and "\<forall>d. held (st\<lparr>srv := w'\<rparr>) d \<longleftrightarrow> held st d"
  shows "kept st w'"
proof -
  have f: "world.more w' = world.more (srv st)" "same_identity (conns (srv st) c) (conns w' c)"
    "\<forall>d. d \<noteq> c \<longrightarrow> conns w' d = conns (srv st) d"
    using acts_frame[OF assms(1)] by auto
  have "same_identity (conns (srv st) d) (conns w' d)" for d using f(2,3) by (cases "d = c") auto
  moreover have "conn_state (conns w' d) = conn_state (conns (srv st) d) \<or>
      conn_state (conns (srv st) d) = kConnected \<and> conn_state (conns w' d) = kDisconnecting" for d
    using acts_state[OF assms(1)] f(3) by (cases "d = c") auto
  then have "conn_state (conns (srv st) d) \<noteq> kConnecting \<longrightarrow> conn_state (conns w' d) \<noteq> kConnecting"
    "conn_state (conns (srv st) d) = kDisconnected \<longrightarrow> conn_state (conns w' d) = kDisconnected" for d
    by (metis state_e.distinct)+
  ultimately show ?thesis
    unfolding kept_def using assms(2) acts_threads[OF assms(1)] same_app_state[OF f(1)]
      same_loop_ids[OF f(1)] same_server[OF f(1)] by simp
qed

text \<open>A call that acts on one connection.\<close>

definition own_call_ok :: "nat \<Rightarrow> nat \<Rightarrow> 'z world_scheme \<Rightarrow> 'z world_scheme outcome \<Rightarrow> bool" where
  "own_call_ok tid c w r \<longleftrightarrow> (\<exists>w'. r = Inr w' \<and> conn_acts tid c w w' \<and> conn_inv c w')"

lemma own_call_inv:
  assumes "own_call_ok tid c (srv st) r" and "reactor_inv X W st" and "held st c"
    and "conn_state (conns (srv st) c) \<noteq> kConnecting"
  shows "\<exists>w'. r = Inr w' \<and> reactor_inv X W (st\<lparr>srv := w'\<rparr>) \<and> kept st w' \<and> conn_inv c w'"
proof -
  from assms(1) obtain w' where w': "r = Inr w'" "conn_acts tid c (srv st) w'" "conn_inv c w'"
    by (auto simp: own_call_ok_def)
  have "reactor_inv X (insert c W) st" by (rule reactor_inv_mono[OF assms(2)]) auto
  from acts_inv[OF w'(2) refl this assms(3) _ assms(4)] have
    inv: "reactor_inv X (insert c W) (st\<lparr>srv := w'\<rparr>)" "\<forall>d. held (st\<lparr>srv := w'\<rparr>) d \<longleftrightarrow> held st d" by auto
  have "reactor_inv X W (st\<lparr>srv := w'\<rparr>)" by (rule reactor_inv_settle[OF inv(1)]) (simp add: w'(3))
  with w' acts_kept[OF w'(2) inv(2)] show ?thesis by blast
qed

text \<open>The functors that another thread has queued, in the connection's own thread.\<close>

lemma send_functor_ok:
  assumes "in_loop k tid c w" and "conn_inv c w" and "conn_state (conns w c) \<noteq> kConnecting" and "takes_prefix k"
  shows "own_call_ok tid c w (sendInLoop_string k tid c s w)"
proof (cases "conn_state (conns w c) = kDisconnected")
  case True
  with assms(2) show ?thesis by (auto simp: own_call_ok_def sendInLoop_string_def sendInLoop_def intro: acts_refl)
next
  case False
  with assms(3) have up: "conn_state (conns w c) \<in> {kConnected, kDisconnecting}" by (cases "conn_state (conns w c)") auto
  let ?m = "take (length s mod 2 ^ 64) s"
  have wr: "\<exists>n \<le> length ?m. k_write k (sock_log w) (conn_fd (conns w c)) ?m = Inr n"
    using assms(4) unfolding takes_prefix_def by blast
  from sendInLoop_facts[OF assms(1,2) string_size(1) up wr] obtain w' where
    w': "sendInLoop_string k tid c s w = Inr w'" "conn_inv c w'"
    unfolding sendInLoop_string_def string_size(2)[symmetric] by blast
  with sendInLoop_acts[of k tid c "string_data s" "of_nat (length s)" w w'] assms(1,3) show ?thesis
    by (auto simp: own_call_ok_def sendInLoop_string_def)
qed

lemma shutdown_functor_ok: "conn_inv c w \<Longrightarrow> own_call_ok tid c w (Inr (shutdownInLoop c w))"
  using shutdownInLoop_acts[OF acts_refl, of tid c w]
  by (auto simp: own_call_ok_def conn_inv_def shutdownInLoop_def chan_of_def loop_of_def)

lemma held_flags:
  assumes "reactor_inv X W st" and "held st c"
  shows "connectionCallback_set (conns (srv st) c)" "messageCallback_set (conns (srv st) c)"
    "closeCallback_set (conns (srv st) c)" "conn_loop (conns (srv st) c) \<in> set (loop_ids (srv st))"
    "chan_owner (srv st) (conn_loop (conns (srv st) c)) (conn_channel (conns (srv st) c)) = ConnOwner c"
    "conn_state (conns (srv st) c) \<in> {kConnecting, kDisconnected} \<Longrightarrow> chan_events (chan_of c (srv st)) = kNoneEvent"
    "conn_state (conns (srv st) c) \<noteq> kDisconnected \<Longrightarrow> in_map (srv st) c"
    "c \<in> X \<or> in_order st c"
    "chan_fd (chan_of c (srv st)) = conn_fd (conns (srv st) c)"
  using held_ok[OF assms] by (auto simp: conn_ok_def Let_def)

section \<open>Leaving the server\<close>

lemma kept_queue:
  assumes "\<forall>d. held (st\<lparr>srv := w'\<rparr>) d \<longleftrightarrow> held st d" and "w' = put_loop lid (queueInLoop tid t (loops (srv st) lid)) (srv st)"
  shows "kept st w'"
proof -
  have more: "world.more w' = world.more (srv st)" by (simp add: assms(2))
  show ?thesis
    unfolding kept_def using assms same_app_state[OF more] same_loop_ids[OF more] same_server[OF more] by auto
qed

text \<open>The entry of \<open>c\<close> is erased when its destruction has been queued.\<close>

lemma erase_change:
  assumes inv: "reactor_inv X W st" and c: "held st c" "conn_state (conns (srv st) c) = kDisconnected"
    and task: "ConnTask (ConnectDestroyed c) \<in> set (waiting_tasks st (conn_loop (conns (srv st) c)))"
    and w: "w' = (srv st)\<lparr>connections := (connections (srv st))(conn_name (conns (srv st) c) := None)\<rparr>"
  shows "reactor_inv X W (st\<lparr>srv := w'\<rparr>) \<and> kept st w'"
proof -
  let ?st = "st\<lparr>srv := w'\<rparr>"
  have sv: "loops w' = loops (srv st)" "conns w' = conns (srv st)" "srv_loop w' = srv_loop (srv st)"
    "srv_acceptor w' = srv_acceptor (srv st)" "srv_pool w' = srv_pool (srv st)" "chan_owner w' = chan_owner (srv st)"
    "nextConnId w' = nextConnId (srv st)" "srv_name w' = srv_name (srv st)" "srv_ipPort w' = srv_ipPort (srv st)"
    "srv_writeCompleteCallback_set w' = srv_writeCompleteCallback_set (srv st)"
    "app_state w' = app_state (srv st)"
    by (simp_all add: w app_state_def)
  have ids: "loop_ids w' = loop_ids (srv st)" by (simp add: loop_ids_def sv)
  have wait: "waiting_tasks ?st i = waiting_tasks st i" "tasks_of ?st i = tasks_of st i" for i
    by (simp_all add: waiting_tasks_def tasks_of_def sv)
  have lid: "conn_loop (conns (srv st) c) \<in> set (loop_ids (srv st))" by (rule held_flags(4)[OF inv c(1)])
  have map: "in_map w' d \<longleftrightarrow> in_map (srv st) d \<and> conn_name (conns (srv st) d) \<noteq> conn_name (conns (srv st) c)" for d
    by (auto simp: in_map_def sv w)
  have names: "conn_name (conns (srv st) d) \<noteq> conn_name (conns (srv st) c)" if "held st d" "d \<noteq> c" for d
    using inv c(1) that by (auto simp: reactor_inv_def)
  have "held ?st c" using holder_waiting_held[of _ ?st] lid task by (fastforce simp: ids wait)
  then have held: "held ?st d \<longleftrightarrow> held st d" for d
    using names[of d] c(1) by (cases "d = c") (auto simp: held_def map ids wait)
  have own: "own_channels ?st i = own_channels st i" for i by (simp add: own_channels_def sv held)
  have keep: "keeper ?st d" if "held st d" "keeper st d" for d
    using that names[of d] task by (cases "d = c") (auto simp: keeper_def map sv wait)
  have raws: "raw_waiting ?st d = raw_waiting st d" for d by (simp add: raw_waiting_def sv wait)
  have order: "in_order ?st d" if "held st d" "in_order st d" for d
    using that keep[of d] raws unfolding in_order_def srv_update sv wait map by (auto simp: registered_def loop_of_def sv)
  have mapd: "in_map w' d \<longleftrightarrow> in_map (srv st) d" if "held st d" "d \<noteq> c" for d using names[OF that] by (simp add: map)
  have chan: "chan_of d w' = chan_of d (srv st)" "registered w' d \<longleftrightarrow> registered (srv st) d" for d
    by (simp_all add: chan_of_def registered_def loop_of_def sv)
  have tk: "task_ok ?st i u \<longleftrightarrow> task_ok st i u" for i u
    by (cases "(st, i, u)" rule: task_ok.cases) (auto simp: sv held)
  have "conn_ok X ?st d" if "held st d" for d
    using held_ok[OF inv that] order[OF that] mapd[OF that] c(2)
    unfolding conn_ok_def Let_def srv_update ids sv chan name_of_def by metis
  moreover have "conn_inv d w' \<longleftrightarrow> conn_inv d (srv st)" for d by (simp add: conn_inv_def sv chan)
  moreover have "loop_state_ok ?st i \<longleftrightarrow> loop_state_ok st i" for i
    by (simp add: loop_state_ok_def Let_def own sv wait tk)
  moreover have "server_ok w' \<longleftrightarrow> server_ok (srv st)" by (simp add: server_ok_def w)
  ultimately show ?thesis using inv held by (simp add: reactor_inv_def ids sv kept_def)
qed

lemma removeConnectionInLoop_eq:
  "removeConnectionInLoop tid c w =
     (let v = conn_queueInLoop tid c (ConnectDestroyed c) w
      in v\<lparr>connections := (connections v)(conn_name (conns v c) := None)\<rparr>)"
  by (cases w) (simp add: removeConnectionInLoop_def conn_queueInLoop_def put_loop_def loop_of_def Let_def)

lemma removeConnectionInLoop_step:
  assumes inv: "reactor_inv X W st" and c: "held st c" "conn_state (conns (srv st) c) = kDisconnected"
  shows "reactor_inv (X - {c}) W (st\<lparr>srv := removeConnectionInLoop tid c (srv st)\<rparr>) \<and>
    kept st (removeConnectionInLoop tid c (srv st))"
proof -
  let ?v = "conn_queueInLoop tid c (ConnectDestroyed c) (srv st)" and ?lid = "conn_loop (conns (srv st) c)"
  let ?w' = "removeConnectionInLoop tid c (srv st)"
  let ?st = "st\<lparr>srv := ?v\<rparr>"
  have q: "reactor_inv X W ?st" "\<forall>d. held ?st d \<longleftrightarrow> held st d"
    using queue_change[OF inv c(1), of "ConnectDestroyed c" tid] c(2) by auto
  have k1: "kept st ?v" by (rule kept_queue[OF q(2)]) (simp add: conn_queueInLoop_def loop_of_def)
  have task: "ConnTask (ConnectDestroyed c) \<in> set (waiting_tasks ?st ?lid)" by (simp add: waiting_tasks_def)
  have "held ?st c" using q(2) c(1) by simp
  from erase_change[OF q(1) this _ _ refl] task c(2) k1 have
    e: "reactor_inv X W (st\<lparr>srv := ?w'\<rparr>)" "kept st ?w'" "pendingFunctors (loops ?w' ?lid) = pendingFunctors (loops ?v ?lid)"
      "conns ?w' = conns (srv st)" "\<not> in_map ?w' c"
    unfolding removeConnectionInLoop_eq Let_def by (auto intro: kept_trans simp: in_map_def)
  have "reactor_inv (insert c (X - {c})) W (st\<lparr>srv := ?w'\<rparr>)" by (rule reactor_inv_mono[OF e(1)]) auto
  moreover have "in_order (st\<lparr>srv := ?w'\<rparr>) c"
    using task c(2) e(3-5) by (simp add: in_order_def keeper_def waiting_tasks_def)
  ultimately show ?thesis using reactor_inv_order e(2) by blast
qed

lemma removeConnection_step:
  assumes inv: "reactor_inv {c} {} st" and c: "held st c" "conn_state (conns (srv st) c) = kDisconnected"
  shows "\<exists>w'. removeConnection tid c (srv st) = Inr w' \<and> reactor_inv {} {} (st\<lparr>srv := w'\<rparr>) \<and> kept st w'"
proof (cases "isInLoopThread tid (loops (srv st) (srv_loop (srv st)))")
  case True
  then show ?thesis
    using removeConnectionInLoop_step[OF inv c, of tid]
    by (simp add: removeConnection_def base_runInLoop_def runInLoop_def get_loop_def)
next
  case False
  let ?b = "srv_loop (srv st)"
  let ?w = "put_loop ?b (queueInLoop tid (RemoveConnectionInLoop c) (loops (srv st) ?b)) (srv st)"
  have q: "reactor_inv {c} {} (st\<lparr>srv := ?w\<rparr>)" "\<forall>d. held (st\<lparr>srv := ?w\<rparr>) d \<longleftrightarrow> held st d"
    using push_change[OF inv c(1), of "RemoveConnectionInLoop c" ?b ?w tid] c(2) by (auto simp: loop_ids_def)
  have "srv_loop ?w = ?b" by (rule same_server) simp
  then have "in_order (st\<lparr>srv := ?w\<rparr>) c" using c(2) by (simp add: in_order_def keeper_def waiting_tasks_def)
  from reactor_inv_order[OF q(1) this] kept_queue[OF q(2) refl] False show ?thesis
    by (simp add: removeConnection_def base_runInLoop_def runInLoop_def get_loop_def)
qed

text \<open>The callbacks of a channel in their order: \<open>P\<close> until the read callback, \<open>Q\<close> from there on.\<close>

lemma call_if_set_total:
  "P s \<Longrightarrow> (\<And>s. P s \<Longrightarrow> Q s) \<Longrightarrow> (\<And>f s. cb = Some f \<Longrightarrow> P s \<Longrightarrow> \<exists>s'. f s = Inr s' \<and> Q s') \<Longrightarrow>
     \<exists>s'. call_if_set b cb s = Inr s' \<and> Q s'"
  by (auto simp: call_if_set_def split: option.split)

lemma handleEvent_total:
  assumes "P s" and PQ: "\<And>s. P s \<Longrightarrow> Q s"
    and cl: "\<And>f s. closeCallback h = Some f \<Longrightarrow> P s \<Longrightarrow> \<exists>s'. f s = Inr s' \<and> P s'"
    and er: "\<And>f s. errorCallback h = Some f \<Longrightarrow> P s \<Longrightarrow> \<exists>s'. f s = Inr s' \<and> P s'"
    and rd: "\<And>f s. readCallback h = Some f \<Longrightarrow> P s \<Longrightarrow> \<exists>s'. f t s = Inr s' \<and> Q s'"
    and wr: "\<And>f s. writeCallback h = Some f \<Longrightarrow> Q s \<Longrightarrow> \<exists>s'. f s = Inr s' \<and> Q s'"
  shows "\<exists>s'. handleEvent alive h ch t s = Inr s' \<and> Q s'"
proof -
  have "\<exists>s'. handleEventWithGuard h r t s = Inr s' \<and> Q s'" for r
  proof -
    from call_if_set_total[where P = P and Q = P, OF assms(1)] cl
    obtain s1 where s1: "call_if_set (has_bits r EPOLLHUP \<and> \<not> has_bits r EPOLLIN) (closeCallback h) s = Inr s1" "P s1"
      by blast
    from call_if_set_total[where P = P and Q = P, OF s1(2)] er
    obtain s2 where s2: "call_if_set (has_bits r EPOLLERR) (errorCallback h) s1 = Inr s2" "P s2" by blast
    have "\<exists>s'. f s = Inr s' \<and> Q s'" if "map_option (\<lambda>f. f t) (readCallback h) = Some f" "P s" for f s
      using that rd by auto
    with call_if_set_total[where P = P and Q = Q and cb = "map_option (\<lambda>f. f t) (readCallback h)", OF s2(2)] PQ
    obtain s3 where s3: "call_if_set (has_bits r (EPOLLIN OR EPOLLPRI)) (map_option (\<lambda>f. f t) (readCallback h)) s2 = Inr s3" "Q s3"
      by blast
    from call_if_set_total[where P = Q and Q = Q, OF s3(2)] wr
    obtain s4 where "call_if_set (has_bits r EPOLLOUT) (writeCallback h) s3 = Inr s4" "Q s4" by blast
    with s1(1) s2(1) s3(1) show ?thesis by (simp add: handleEventWithGuard_def)
  qed
  with PQ[OF assms(1)] show ?thesis by (auto simp: handleEvent_def split: option.split)
qed

section \<open>The handlers of a connection\<close>

text \<open>
  The contract of the application and the kernel. The callbacks run in the connection's thread, on a
  connection that has been established, and act on that connection alone; a write takes some prefix of what
  it is given, and the kernel accepts every legal \<open>epoll_ctl\<close>. What the application knows of its own state
  is \<open>good\<close>.
\<close>

locale server_threads =
  fixes k :: kernel
    and app :: "nat \<Rightarrow> 'z server_world_scheme user_code"
    and good :: "bool \<times> 'z \<Rightarrow> bool"
  assumes legal: "accepts_legal (k_ctl k lid)"
    and prefix: "takes_prefix k"
    and app_connection: "in_loop k tid c w \<Longrightarrow> conn_inv c w \<Longrightarrow> conn_state (conns w c) \<noteq> kConnecting \<Longrightarrow>
      good (app_state w) \<Longrightarrow> own_call_ok tid c w (on_connection (app tid) c w)"
    and app_message: "in_loop k tid c w \<Longrightarrow> conn_inv c w \<Longrightarrow> conn_state (conns w c) \<noteq> kConnecting \<Longrightarrow>
      good (app_state w) \<Longrightarrow> own_call_ok tid c w (on_message (app tid) c t w)"
    and app_writeComplete: "in_loop k tid c w \<Longrightarrow> conn_inv c w \<Longrightarrow> conn_state (conns w c) \<noteq> kConnecting \<Longrightarrow>
      good (app_state w) \<Longrightarrow> srv_writeCompleteCallback_set w \<Longrightarrow>
      own_call_ok tid c w (on_writeComplete (app tid) c w)"
begin

abbreviation "user tid \<equiv> server_user (app tid) tid"

lemma user_simps [simp]:
  "on_connection (user tid) = on_connection (app tid)" "on_message (user tid) = on_message (app tid)"
  "on_writeComplete (user tid) = on_writeComplete (app tid)" "on_close (user tid) = removeConnection tid"
  "on_highWaterMark (user tid) = on_highWaterMark (app tid)"
  by (simp_all add: server_user_def)

text \<open>A living connection that was established, seen from its own thread.\<close>

definition live :: "nat set \<Rightarrow> nat \<Rightarrow> nat \<Rightarrow> 'z server_world_scheme reactor \<Rightarrow> bool" where
  "live X tid c st \<longleftrightarrow>
     reactor_inv X {} st \<and> held st c \<and> conn_state (conns (srv st) c) \<noteq> kConnecting \<and>
     threadId (loops (srv st) (conn_loop (conns (srv st) c))) = tid \<and> good (app_state (srv st))"

lemma live_kept:
  assumes "live X tid c st" and "kept st w'" and "reactor_inv Y {} (st\<lparr>srv := w'\<rparr>)"
  shows "live Y tid c (st\<lparr>srv := w'\<rparr>)"
  using assms by (simp add: live_def kept_def same_identity_def)

lemma live_in:
  assumes "live X tid c st"
  shows "in_loop k tid c (srv st)" "conn_inv c (srv st)"
  using assms held_in_loop[of X "{}" st c k] legal by (auto simp: live_def loop_of_def reactor_inv_def)

lemma live_call:
  assumes "live X tid c st" and "own_call_ok tid c (srv st) r"
  shows "\<exists>w'. r = Inr w' \<and> live X tid c (st\<lparr>srv := w'\<rparr>) \<and> kept st w'"
  using own_call_inv[OF assms(2), of X "{}"] assms(1) live_kept[OF assms(1)] by (auto simp: live_def)

lemma handleClose_step:
  assumes "live {} tid c st"
  shows "\<exists>w'. handleClose k (user tid) tid c (srv st) = Inr w' \<and> live {} tid c (st\<lparr>srv := w'\<rparr>) \<and> kept st w'"
proof -
  have inv: "reactor_inv {} {} st" and c: "held st c" and st: "conn_state (conns (srv st) c) \<noteq> kConnecting"
    using assms by (simp_all add: live_def)
  let ?lid = "conn_loop (conns (srv st) c)"
  let ?wd = "setState kDisconnected c (srv st)"
  let ?w1 = "events_set kNoneEvent c ?wd"
  have same: "loop_of c ?wd = loop_of c (srv st)" by (simp add: loop_of_def)
  have ind: "in_loop k tid c ?wd" by (rule in_loop_same[OF live_in(1)[OF assms] same]) simp_all
  have "ConnTask (ConnectEstablished c) \<notin> set (waiting_tasks st ?lid)"
    using st held_loop[OF inv c] by (auto simp: loop_state_ok_def Let_def)
  then have ch: "reactor_inv {c} {c} (st\<lparr>srv := ?w1\<rparr>) \<and> (\<forall>d. held (st\<lparr>srv := ?w1\<rparr>) d \<longleftrightarrow> held st d)"
    using st by (intro events_change[OF inv c, where s = kDisconnected]) auto
  have "conn_inv c ?w1" using live_in(2)[OF assms] by (simp add: conn_inv_def)
  with ch have i1: "reactor_inv {c} {} (st\<lparr>srv := ?w1\<rparr>)" by (auto intro: reactor_inv_settle)
  have more: "world.more ?w1 = world.more (srv st)" by simp
  have k1: "kept st ?w1"
    unfolding kept_def using ch same_app_state[OF more] same_loop_ids[OF more] same_server[OF more]
    by (auto simp: same_identity_def events_set_def updated_fields loop_of_def)
  let ?st1 = "st\<lparr>srv := ?w1\<rparr>"
  have l1: "live {c} tid c ?st1" by (rule live_kept[OF assms k1 i1])
  have d1: "conn_state (conns (srv ?st1) c) = kDisconnected" by simp
  have "own_call_ok tid c (srv ?st1) (on_connection (app tid) c (srv ?st1))"
    using app_connection[OF live_in[OF l1]] l1 by (simp add: live_def)
  from live_call[OF l1 this] obtain w2 where w2: "on_connection (app tid) c ?w1 = Inr w2"
    "live {c} tid c (st\<lparr>srv := w2\<rparr>)" "kept ?st1 w2" by auto
  have f: "connectionCallback_set (conns (srv st) c)" "closeCallback_set (conns w2 c)"
    using held_flags(1)[OF inv c] held_flags(3)[of "{c}" "{}" "st\<lparr>srv := w2\<rparr>" c] w2(2) by (auto simp: live_def)
  have "conn_state (conns w2 c) = kDisconnected" using w2(3) d1 by (simp add: kept_def)
  with removeConnection_step[of c "st\<lparr>srv := w2\<rparr>" tid] w2(2) obtain w3 where
    w3: "removeConnection tid c w2 = Inr w3" "reactor_inv {} {} (st\<lparr>srv := w3\<rparr>)" "kept (st\<lparr>srv := w2\<rparr>) w3"
    by (auto simp: live_def)
  have "kept st w3" using kept_trans[OF kept_trans[OF k1 w2(3)], of w3] w3(3) by simp
  moreover have "handleClose k (user tid) tid c (srv st) = Inr w3"
    using conn_updates(4)[OF ind] f w2(1) w3(1)
    by (simp add: handleClose_def call_callback_def kNoneEvent_def)
  ultimately show ?thesis using live_kept[OF assms _ w3(2)] by blast
qed

lemma handleError_step:
  assumes "live X tid c st"
  shows "\<exists>w'. handleError c (srv st) = Inr w' \<and> live X tid c (st\<lparr>srv := w'\<rparr>) \<and> kept st w'"
proof (rule live_call[OF assms])
  show "own_call_ok tid c (srv st) (handleError c (srv st))"
    using live_in(2)[OF assms] handleError_acts[of c "srv st"]
    by (auto simp: own_call_ok_def handleError_def conn_inv_def)
qed

lemma handleWrite_step:
  assumes "live X tid c st"
  shows "\<exists>w'. handleWrite k tid c (srv st) = Inr w' \<and> live X tid c (st\<lparr>srv := w'\<rparr>) \<and> kept st w'"
proof (cases "isWriting (chan_of c (srv st))")
  case False
  with assms show ?thesis by (intro exI[of _ "srv st"]) (simp add: handleWrite_def)
next
  case True
  note i = live_in[OF assms]
  have "chan_events (chan_of c (srv st)) \<noteq> kNoneEvent"
    using True by (auto simp: isWriting_def has_bits_def kNoneEvent_def)
  then have up: "conn_state (conns (srv st) c) \<in> {kConnected, kDisconnecting}"
    using held_flags(6)[of X "{}" st c] assms by (cases "conn_state (conns (srv st) c)") (auto simp: live_def)
  from prefix obtain n where n: "n \<le> length (readable (outputBuffer (conns (srv st) c)))"
    "k_write k (sock_log (srv st)) (conn_fd (conns (srv st) c)) (readable (outputBuffer (conns (srv st) c))) = Inr n"
    unfolding takes_prefix_def by meson
  from handleWrite_facts[OF i up True n(2,1)] obtain w' where w': "handleWrite k tid c (srv st) = Inr w'" "conn_inv c w'"
    by blast
  moreover have "conn_acts tid c (srv st) w'" by (rule handleWrite_acts[OF w'(1) i(1)]) (use up in \<open>simp add: is_up_def\<close>)
  ultimately show ?thesis using live_call[OF assms, of "Inr w'"] by (auto simp: own_call_ok_def)
qed

lemma handleRead_step:
  assumes "live {} tid c st"
  shows "\<exists>w'. handleRead k (user tid) tid c t (srv st) = Inr w' \<and> live {} tid c (st\<lparr>srv := w'\<rparr>) \<and> kept st w'"
proof -
  have inv: "reactor_inv {} {} st" and c: "held st c" and st: "conn_state (conns (srv st) c) \<noteq> kConnecting"
    using assms by (simp_all add: live_def)
  let ?conn = "conns (srv st) c" and ?fd = "conn_fd (conns (srv st) c)"
  let ?answer = "k_read k (sock_log (srv st)) ?fd"
  obtain n e b where r: "readFd ?answer (inputBuffer ?conn) = (n, e, b)" by (metis surj_pair)
  define w1 where "w1 = set_conn c (?conn\<lparr>inputBuffer := b\<rparr>)
    (log_sock (case ?answer of Inl e \<Rightarrow> ReadFailed ?fd e | Inr d \<Rightarrow> ReadData ?fd d) (srv st))"
  have w1: "world.more w1 = world.more (srv st)" "loops w1 = loops (srv st)"
    "conns w1 = (conns (srv st))(c := ?conn\<lparr>inputBuffer := b\<rparr>)" by (simp_all add: w1_def)
  have "reactor_inv {} {c} st" by (rule reactor_inv_mono[OF inv]) auto
  from quiet_change[OF this c _ w1(1,2)] have
    q: "reactor_inv {} {c} (st\<lparr>srv := w1\<rparr>)" "\<forall>d. held (st\<lparr>srv := w1\<rparr>) d \<longleftrightarrow> held st d"
    using st by (auto simp: w1(3) same_identity_def)
  have "buf_wf b" using buf_wf_readFd[of "inputBuffer ?conn" ?answer] live_in(2)[OF assms] by (simp add: r conn_inv_def)
  with live_in(2)[OF assms] have "conn_inv c w1" by (simp add: conn_inv_def w1 chan_of_def loop_of_def)
  with q(1) have i1: "reactor_inv {} {} (st\<lparr>srv := w1\<rparr>)" by (auto intro: reactor_inv_settle)
  have k1: "kept st w1"
    unfolding kept_def using q(2) same_app_state[OF w1(1)] same_loop_ids[OF w1(1)] same_server[OF w1(1)]
    by (auto simp: same_identity_def w1)
  let ?st1 = "st\<lparr>srv := w1\<rparr>"
  have l1: "live {} tid c ?st1" by (rule live_kept[OF assms k1 i1])
  have "\<exists>w'. handleRead k (user tid) tid c t (srv st) = Inr w' \<and> live {} tid c (?st1\<lparr>srv := w'\<rparr>) \<and> kept ?st1 w'"
  proof (cases "0 < n")
    case True
    then have "handleRead k (user tid) tid c t (srv st) = on_message (app tid) c t w1"
      using held_flags(2)[OF inv c] by (simp add: handleRead_def Let_def r w1_def[symmetric] call_callback_def)
    with live_call[OF l1, of "on_message (app tid) c t w1"] app_message[OF live_in[OF l1]] l1 show ?thesis
      by (simp add: live_def)
  next
    case False
    then have "handleRead k (user tid) tid c t (srv st) =
        (if n = 0 then handleClose k (user tid) tid c w1 else handleError c w1)"
      by (simp add: handleRead_def Let_def r w1_def[symmetric])
    with handleClose_step[OF l1] handleError_step[OF l1] show ?thesis by simp
  qed
  with kept_trans[OF k1] show ?thesis by auto
qed

text \<open>Whatever events are reported for a connection's channel.\<close>

lemma conn_event_step:
  assumes "live {} tid c st" and "lid = conn_loop (conns (srv st) c)" and "ptr = conn_channel (conns (srv st) c)"
  shows "\<exists>w'. handleEvent alive (server_handlers k (app tid) env tid lid ptr) ch now (srv st) = Inr w' \<and>
    live {} tid c (st\<lparr>srv := w'\<rparr>) \<and> kept st w'"
proof -
  let ?P = "\<lambda>w. live {} tid c (st\<lparr>srv := w\<rparr>) \<and> kept st w"
  have owner: "chan_owner w lid ptr = ConnOwner c" if "?P w" for w
    using held_flags(5)[of "{}" "{}" st c] assms that by (simp add: live_def kept_def)
  have steps: "\<exists>w'. r = Inr w' \<and> ?P w'" if "?P w"
    "\<exists>w'. r = Inr w' \<and> live {} tid c (st\<lparr>srv := w, srv := w'\<rparr>) \<and> kept (st\<lparr>srv := w\<rparr>) w'" for r w
    using that kept_trans by auto
  show ?thesis
  proof (rule handleEvent_total[where P = ?P and Q = ?P])
    show "\<exists>s'. f s = Inr s' \<and> ?P s'"
      if "closeCallback (server_handlers k (app tid) env tid lid ptr) = Some f" "?P s" for f s
      using that owner[OF that(2)] steps[OF that(2) handleClose_step[of tid c "st\<lparr>srv := s\<rparr>"]]
      by (auto simp: server_handlers_def Let_def)
    show "\<exists>s'. f s = Inr s' \<and> ?P s'"
      if "errorCallback (server_handlers k (app tid) env tid lid ptr) = Some f" "?P s" for f s
      using that owner[OF that(2)] steps[OF that(2) handleError_step[of "{}" tid c "st\<lparr>srv := s\<rparr>"]]
      by (auto simp: server_handlers_def Let_def)
    show "\<exists>s'. f now s = Inr s' \<and> ?P s'"
      if "readCallback (server_handlers k (app tid) env tid lid ptr) = Some f" "?P s" for f s
      using that owner[OF that(2)] steps[OF that(2) handleRead_step[of tid c "st\<lparr>srv := s\<rparr>" now]]
      by (auto simp: server_handlers_def Let_def)
    show "\<exists>s'. f s = Inr s' \<and> ?P s'"
      if "writeCallback (server_handlers k (app tid) env tid lid ptr) = Some f" "?P s" for f s
      using that owner[OF that(2)] steps[OF that(2) handleWrite_step[of "{}" tid c "st\<lparr>srv := s\<rparr>"]]
      by (auto simp: server_handlers_def Let_def)
  qed (use assms(1) in simp_all)
qed

section \<open>The functors\<close>

lemma connectEstablished_step:
  assumes inv: "reactor_inv {c} {} st" and c: "held st c" and st: "conn_state (conns (srv st) c) = kConnecting"
    and once: "ConnTask (ConnectEstablished c) \<notin> set (waiting_tasks st (conn_loop (conns (srv st) c)))"
    and thr: "threadId (loops (srv st) (conn_loop (conns (srv st) c))) = tid" and gd: "good (app_state (srv st))"
  shows "\<exists>w'. connectEstablished k (user tid) tid c (srv st) = Inr w' \<and> live {} tid c (st\<lparr>srv := w'\<rparr>) \<and> kept st w'"
proof -
  let ?w = "srv st" and ?lid = "conn_loop (conns (srv st) c)" and ?ptr = "conn_channel (conns (srv st) c)"
  let ?l = "loops (srv st) ?lid"
  note fl = held_flags[OF inv c]
  define wt where "wt = put_loop ?lid (channel_tie c ?ptr ?l) ?w"
  have lp: "loop_id (channel_tie c ?ptr ?l) = loop_id ?l" "pendingFunctors (channel_tie c ?ptr ?l) = pendingFunctors ?l"
    by (rule same_more, simp)+
  have p: "(phase_of st)(?lid := phase_of st ?lid) = phase_of st" by simp
  have ls: "loop_state_ok st ?lid" by (rule held_loop[OF inv c])
  have more: "world.more wt = world.more ?w" by (simp add: wt_def)
  note sv = same_server[OF more]
  have wt: "conns wt = conns ?w" "channels (loops wt i) = channels (loops ?w i)"
    "waiting_tasks (st\<lparr>srv := wt\<rparr>) i = waiting_tasks st i" for i
    by (simp_all add: wt_def waiting_tasks_def lp)
  have order: "in_order (st\<lparr>srv := wt\<rparr>) d = in_order st d" for d
    by (simp add: in_order_def keeper_def in_map_def registered_def raw_waiting_def loop_of_def wt sv)
  have tie: "reactor_inv {c} {} (st\<lparr>srv := wt\<rparr>) \<and> (\<forall>d. held (st\<lparr>srv := wt\<rparr>) d \<longleftrightarrow> held st d)"
  proof (rule loop_change[OF inv fl(4), where p = "phase_of st ?lid" and ts = "[]"])
    show "chan_loop (chans (channel_tie c ?ptr ?l) q) = chan_loop (chans ?l q)" for q by simp
    show "in_order (st\<lparr>srv := wt\<rparr>) d" if "in_order st d" for d using that by (simp add: order)
  qed (use ls in \<open>auto simp: wt_def lp p tasks_of_def waiting_tasks_def loop_state_ok_def Let_def\<close>)
  let ?stt = "st\<lparr>srv := wt\<rparr>"
  have kt: "kept st wt"
    unfolding kept_def using tie same_app_state[OF more] same_loop_ids[OF more] same_server[OF more]
    by (auto simp: wt_def)
  define ws where "ws = setState kConnected c wt"
  have evt: "chan_events (chan_of c ws) = kNoneEvent"
    using fl(6) st by (simp add: ws_def wt_def chan_of_def loop_of_def)
  let ?w1 = "events_set kReadEvent c ws"
  have mapc: "in_map ?w c" using fl(7) st by simp
  then have keep: "keeper ?stt c" using same_server[OF more] by (simp add: keeper_def in_map_def wt_def)
  have ch: "reactor_inv {} {c} (?stt\<lparr>srv := ?w1\<rparr>) \<and> (\<forall>d. held (?stt\<lparr>srv := ?w1\<rparr>) d \<longleftrightarrow> held ?stt d)"
    by (rule events_change[where s = kConnected and X = "{c}" and W = "{}"])
      (use tie c keep st once in \<open>auto simp: ws_def wt_def waiting_tasks_def lp\<close>)
  have ci: "conn_inv c ?w" using inv c by (auto simp: reactor_inv_def)
  have out: "readable (outputBuffer (conns ?w c)) = []" using held_ok[OF inv c] st by (simp add: conn_ok_def Let_def)
  have "conn_inv c ?w1"
    using ci out by (simp add: conn_inv_def isWriting_def ws_def wt_def) (simp add: event_bits has_bits_def)
  with ch have i1: "reactor_inv {} {} (?stt\<lparr>srv := ?w1\<rparr>)" by (auto intro: reactor_inv_settle)
  have more1: "world.more ?w1 = world.more wt" by (simp add: ws_def)
  have k1: "kept ?stt ?w1"
    unfolding kept_def using ch st same_app_state[OF more1] same_loop_ids[OF more1] same_server[OF more1]
    by (auto simp: same_identity_def events_set_def updated_fields loop_of_def ws_def wt_def)
  note kw = kept_trans[OF kt k1]
  let ?st1 = "st\<lparr>srv := ?w1\<rparr>"
  have s1: "conns ws = (conns ?w)(c := (conns ?w c)\<lparr>conn_state := kConnected\<rparr>)" by (simp add: ws_def wt_def)
  have l1: "live {} tid c ?st1"
    using i1 kw c thr gd by (simp add: live_def kept_def s1)
  have "in_loop k tid c ?w" using held_in_loop[OF inv c legal] thr by (simp add: loop_of_def)
  then have "in_loop k tid c ws"
    unfolding in_loop_def by (simp add: ws_def wt_def loop_of_def)
  from conn_updates(3)[OF this] evt have "conn_channel_op enableReading k tid c ws = Inr ?w1"
    by (simp add: kNoneEvent_def)
  moreover have "ws = put_loop ?lid (channel_tie c ?ptr ?l) (setState kConnected c ?w)"
    by (simp add: ws_def wt_def put_loop_def setState_def set_conn_def)
  ultimately have run: "connectEstablished k (user tid) tid c ?w = on_connection (app tid) c ?w1"
    using fl(1) by (simp add: connectEstablished_def conn_channel_op_def[of "\<lambda>_ _ ptr l. Inr (channel_tie c ptr l)"]
        on_loop_def Let_def call_callback_def s1)
  have "own_call_ok tid c ?w1 (on_connection (app tid) c ?w1)"
    using app_connection[OF live_in[OF l1]] l1 by (simp add: live_def)
  with live_call[OF l1] run kept_trans[OF kw] show ?thesis by auto
qed

lemma connectDestroyed_step:
  assumes inv: "reactor_inv {c} {} st" and c: "held st c" and st: "conn_state (conns (srv st) c) = kDisconnected"
    and out: "in_map (srv st) c \<Longrightarrow> RemoveConnectionInLoop c \<in> set (waiting_tasks st (srv_loop (srv st)))"
    and raw: "\<not> raw_waiting st c"
    and ph: "\<And>now ps. phase_of st (conn_loop (conns (srv st) c)) \<noteq> Dispatching now ps"
  shows "\<exists>w'. connectDestroyed k (user tid) tid c (srv st) = Inr w' \<and> reactor_inv {} {} (st\<lparr>srv := w'\<rparr>) \<and> kept st w' \<and>
    \<not> registered w' c"
proof -
  let ?w = "srv st" and ?lid = "conn_loop (conns (srv st) c)" and ?ptr = "conn_channel (conns (srv st) c)"
  let ?l = "loops ?w ?lid"
  let ?w' = "put_loop ?lid (removed ?ptr ?l) ?w"
  note fl = held_flags[OF inv c]
  have ls: "loop_state_ok st ?lid" by (rule held_loop[OF inv c])
  have lo: "loop_ok ?l" "owns (own_channels st ?lid) ?l" using ls by (simp_all add: loop_state_ok_def Let_def)
  note rm = channel_remove_step[OF lo held_channel[OF c]]
  have none: "chan_events (chans ?l ?ptr) = kNoneEvent" using fl(6) st by (simp add: chan_of_def loop_of_def)
  have fd: "chan_fd (chans ?l ?ptr) = conn_fd (conns ?w c)" using fl(9) by (simp add: chan_of_def loop_of_def)
  have run: "connectDestroyed k (user tid) tid c ?w = Inr ?w'"
    using rm(1) none st by (simp add: connectDestroyed_def conn_channel_op_def on_loop_def Let_def)
  have more: "world.more ?w' = world.more ?w" by simp
  have rmore: "poller.more (removed ?ptr ?l) = poller.more ?l" by (simp add: removed_def after_remove_def Let_def)
  have un: "\<not> registered ?w' c" by (simp add: registered_def loop_of_def removed_fields fd)
  note sv = same_server[OF more]
  have wt: "waiting_tasks (st\<lparr>srv := ?w'\<rparr>) i = waiting_tasks st i" for i
    by (simp add: waiting_tasks_def same_more(9)[OF rmore])
  have "\<not> raw_waiting (st\<lparr>srv := ?w'\<rparr>) c" using raw by (simp add: raw_waiting_def wt)
  with wt have "in_order (st\<lparr>srv := ?w'\<rparr>) c" using un st out by (simp add: in_order_def in_map_def sv)
  then have "conn_ok {} (st\<lparr>srv := ?w'\<rparr>) c"
    using held_ok[OF inv c] un st same_loop_ids[OF more]
    unfolding conn_ok_def Let_def srv_update name_of_def sv
    by (simp add: chan_of_def loop_of_def removed_fields in_map_def sv)
  moreover have "conn_inv c ?w'" using inv c st by (auto simp: reactor_inv_def conn_inv_def)
  ultimately have "reactor_inv {} {} (st\<lparr>srv := ?w'\<rparr>) \<and> (\<forall>d. held (st\<lparr>srv := ?w'\<rparr>) d \<longleftrightarrow> held st d)"
    using rm(2,3) none ph
    by (intro local_change[OF inv c more _ _ refl, where ts = "[]"])
      (auto simp: removed_fields fd same_more(9)[OF rmore])
  moreover have "kept st ?w'" if "\<forall>d. held (st\<lparr>srv := ?w'\<rparr>) d \<longleftrightarrow> held st d"
    unfolding kept_def using that same_app_state[OF more] same_loop_ids[OF more] same_server[OF more]
    by (auto simp: removed_fields)
  ultimately show ?thesis using run un by blast
qed

end

end
