(* ===== verification/Reactor_Accept.thy ===== *)
theory Reactor_Accept
  imports Reactor
begin

text \<open>
  A new connection enters the server: what \<open>newConnection\<close> has made of the world when it hands the connection to
  its loop, and that this keeps the invariant of the threads when the kernel and the allocator hand out a
  descriptor and addresses that are not in use.
\<close>

definition open_fds :: "'z server_world_scheme reactor \<Rightarrow> int set" where
  "open_fds st = (\<Union>lid \<in> set (loop_ids (srv st)). (\<lambda>q. chan_fd (chans (loops (srv st) lid) q)) ` own_channels st lid)"

definition fresh_arrival :: "'z server_world_scheme reactor \<Rightarrow> int \<Rightarrow> arrival \<Rightarrow> bool" where
  "fresh_arrival st fd arr \<longleftrightarrow>
     0 \<le> fd \<and> fd \<notin> open_fds st \<and> \<not> held st (arr_conn arr) \<and>
     (\<forall>lid \<in> set (loop_ids (srv st)). arr_channel arr \<notin> own_channels st lid) \<and>
     arr_local arr \<noteq> None \<and> nextConnId (srv st) < 2 ^ 31"

definition admitted ::
  "arrival \<Rightarrow> nat \<Rightarrow> thread_pool \<Rightarrow> int \<Rightarrow> sockaddr_in \<Rightarrow> sockaddr_in \<Rightarrow>
   'z server_world_scheme \<Rightarrow> 'z server_world_scheme" where
  "admitted arr io pool fd local peer w =
     w\<lparr>loops := (loops w)(io := set_chan (arr_channel arr) (new_channel io fd) (loops w io)),
       conns := (conns w)(arr_conn arr := \<lparr>conn_loop = io, conn_name = connection_name w, conn_state = kConnecting,
         reading = True, conn_fd = fd, conn_channel = arr_channel arr, localAddr = local, peerAddr = peer,
         connectionCallback_set = srv_connectionCallback_set w, messageCallback_set = srv_messageCallback_set w,
         writeCompleteCallback_set = srv_writeCompleteCallback_set w, closeCallback_set = True,
         highWaterMarkCallback_set = False, highWaterMark = kHighWaterMark,
         inputBuffer = new_buffer kInitialSize, outputBuffer = new_buffer kInitialSize\<rparr>),
       sock_log := sock_log w @ [SetSockOpt fd ''SO_KEEPALIVE'' True],
       chan_owner := (chan_owner w)(io := (chan_owner w io)(arr_channel arr := ConnOwner (arr_conn arr))),
       srv_pool := pool, nextConnId := nextConnId w + 1,
       connections := (connections w)(connection_name w \<mapsto> arr_conn arr)\<rparr>"

lemma newConnection_admits:
  assumes "isInLoopThread tid (loops w (srv_loop w))" and "getNextLoop (srv_pool w) = Inr (io, pool)"
    and "arr_local arr = Some loc"
  shows "newConnection k app arr tid fd peer w =
    conn_runInLoop tid (arr_conn arr) (ConnectEstablished (arr_conn arr))
      (connectEstablished k (server_user app tid) tid (arr_conn arr)) (admitted arr io pool fd loc peer w)"
  using assms
  by (cases w) (simp add: newConnection_def assertInLoopThread_def Let_def new_tcp_connection_def set_conn_def
      put_loop_def log_sock_def admitted_def connection_name_def)

lemma admitted_fields:
  fixes w :: "'z server_world_scheme"
  shows "loops (admitted arr io pool fd loc peer w) =
      (loops w)(io := set_chan (arr_channel arr) (new_channel io fd) (loops w io))"
    "d \<noteq> arr_conn arr \<Longrightarrow> conns (admitted arr io pool fd loc peer w) d = conns w d"
    "connections (admitted arr io pool fd loc peer w) = (connections w)(connection_name w \<mapsto> arr_conn arr)"
    "srv_loop (admitted arr io pool fd loc peer w) = srv_loop w"
    "srv_acceptor (admitted arr io pool fd loc peer w) = srv_acceptor w"
    "srv_pool (admitted arr io pool fd loc peer w) = pool"
    "nextConnId (admitted arr io pool fd loc peer w) = nextConnId w + 1"
    "srv_name (admitted arr io pool fd loc peer w) = srv_name w"
    "srv_ipPort (admitted arr io pool fd loc peer w) = srv_ipPort w"
    "srv_connectionCallback_set (admitted arr io pool fd loc peer w) = srv_connectionCallback_set w"
    "srv_messageCallback_set (admitted arr io pool fd loc peer w) = srv_messageCallback_set w"
    "srv_writeCompleteCallback_set (admitted arr io pool fd loc peer w) = srv_writeCompleteCallback_set w"
    "chan_owner (admitted arr io pool fd loc peer w) =
      (chan_owner w)(io := (chan_owner w io)(arr_channel arr := ConnOwner (arr_conn arr)))"
    "server_world.more (admitted arr io pool fd loc peer w) = server_world.more w"
    "sock_log (admitted arr io pool fd loc peer w) = sock_log w @ [SetSockOpt fd ''SO_KEEPALIVE'' True]"
  by (simp_all add: admitted_def)

lemma admitted_conn:
  fixes arr io pool fd loc peer w
  defines "conn \<equiv> conns (admitted arr io pool fd loc peer w) (arr_conn arr)"
  shows "conn_loop conn = io" "conn_name conn = connection_name w" "conn_state conn = kConnecting" "conn_fd conn = fd"
    "conn_channel conn = arr_channel arr" "connectionCallback_set conn = srv_connectionCallback_set w"
    "messageCallback_set conn = srv_messageCallback_set w"
    "writeCompleteCallback_set conn = srv_writeCompleteCallback_set w" "closeCallback_set conn"
    "\<not> highWaterMarkCallback_set conn" "inputBuffer conn = new_buffer kInitialSize"
    "outputBuffer conn = new_buffer kInitialSize"
  by (simp_all add: conn_def admitted_def)

text \<open>The pool deals out one of the server's loops.\<close>

lemma next_loop_facts:
  assumes "server_ok w" and "getNextLoop (srv_pool w) = Inr (io, pool)"
  shows "io \<in> set (loop_ids w)" "pool_loops pool = pool_loops (srv_pool w)" "baseLoop pool = baseLoop (srv_pool w)"
    "pool_wf pool"
proof -
  let ?p = "srv_pool w"
  have wf: "pool_wf ?p" "baseLoop ?p = srv_loop w" using assms(1) by (simp_all add: server_ok_def)
  have eq: "io = getAllLoops ?p ! nat (next_loop ?p mod int (length (getAllLoops ?p)))"
    "pool = (if pool_loops ?p = [] then ?p
      else ?p\<lparr>next_loop := (next_loop ?p + 1) mod int (length (pool_loops ?p))\<rparr>)"
    using getNextLoop_step[OF wf(1)] assms(2) by simp_all
  have "0 < length (getAllLoops ?p)" by (simp add: getAllLoops_def)
  then have "nat (next_loop ?p mod int (length (getAllLoops ?p))) < length (getAllLoops ?p)"
    by (simp add: nat_less_iff)
  then have "io \<in> set (getAllLoops ?p)" unfolding eq(1) by (rule nth_mem)
  then show "io \<in> set (loop_ids w)" using wf(2) by (auto simp: getAllLoops_def loop_ids_def split: if_splits)
  show "pool_loops pool = pool_loops ?p" "baseLoop pool = baseLoop ?p" "pool_wf pool"
    using wf(1) by (auto simp: eq(2) pool_wf_def)
qed

lemma held_name_old:
  assumes "reactor_inv X W st" and "held st d" and "nextConnId (srv st) < 2 ^ 31"
  shows "conn_name (conns (srv st) d) \<noteq> connection_name (srv st)"
proof
  assume eq: "conn_name (conns (srv st) d) = connection_name (srv st)"
  from held_ok[OF assms(1,2)] obtain i where i: "i \<in> {1..<nextConnId (srv st)}" "conn_name (conns (srv st) d) = name_of (srv st) i"
    unfolding conn_ok_def Let_def by blast
  have so: "server_ok (srv st)" using assms(1) by (simp add: reactor_inv_def)
  have "name_of (srv st) i = name_of (srv st) (nextConnId (srv st))"
    using eq i(2) by (simp add: connection_name_def name_of_def)
  with name_of_inject[of "srv st" i "nextConnId (srv st)"] so i(1) assms(3) show False by (auto simp: server_ok_def)
qed


text \<open>The new connection takes its place, and nothing that the others rest on changes.\<close>

lemma admit_inv:
  assumes inv: "reactor_inv {} {} st" and pool: "getNextLoop (srv_pool (srv st)) = Inr (io, pool)"
    and fresh: "fresh_arrival st fd arr"
    and v: "v = admitted arr io pool fd loc peer (srv st)"
  shows "reactor_inv {arr_conn arr} {} (st\<lparr>srv := v\<rparr>) \<and> (\<forall>d. held (st\<lparr>srv := v\<rparr>) d \<longleftrightarrow> held st d \<or> d = arr_conn arr)"
proof -
  let ?w = "srv st" and ?st = "st\<lparr>srv := v\<rparr>" and ?a = "arr_conn arr" and ?ptr = "arr_channel arr"
  note ad = admitted_fields[where arr = arr and io = io and pool = pool and fd = fd and loc = loc and peer = peer and w = ?w, folded v]
  note ac = admitted_conn[where arr = arr and io = io and pool = pool and fd = fd and loc = loc and peer = peer and w = ?w, folded v]
  have so: "server_ok ?w" using inv by (simp add: reactor_inv_def)
  note nl = next_loop_facts[OF so pool]
  have new: "\<not> held st ?a" "nextConnId ?w < 2 ^ 31" "fd \<notin> open_fds st"
    and ptr: "?ptr \<notin> own_channels st i" if "i \<in> set (loop_ids ?w)" for i
    using fresh that by (simp_all add: fresh_arrival_def)
  have ids: "loop_ids v = loop_ids ?w" by (simp add: loop_ids_def ad nl)
  have lp: "channels (loops v i) = channels (loops ?w i)" "pendingFunctors (loops v i) = pendingFunctors (loops ?w i)"
    "chans (loops v i) q = (if i = io \<and> q = ?ptr then new_channel io fd else chans (loops ?w i) q)"
    "loop_id (loops v i) = loop_id (loops ?w i)" for i q
    by (simp_all add: ad same_more[of "set_chan p c l" l for p c l])
  have wait: "waiting_tasks ?st i = waiting_tasks st i" "tasks_of ?st i = tasks_of st i" for i
    by (simp_all add: waiting_tasks_def tasks_of_def lp)
  have name: "conn_name (conns ?w d) \<noteq> connection_name ?w" if "held st d" for d
    by (rule held_name_old[OF inv that]) (use fresh in \<open>simp add: fresh_arrival_def\<close>)
  have map_held: "in_map ?w d \<Longrightarrow> held st d" for d by (simp add: held_def)
  have map: "in_map v d \<longleftrightarrow> in_map ?w d \<or> d = ?a" for d
    using name[of d] map_held[of d] map_held[of ?a] new(1)[OF nl(1)] by (cases "d = ?a") (auto simp: in_map_def ad ac)
  have held: "held ?st d \<longleftrightarrow> held st d \<or> d = ?a" for d
    by (auto simp: held_def map ids wait)
  have out: "i \<noteq> io \<or> q \<noteq> ?ptr" if "q \<in> own_channels st i" for i q
    using ptr[OF nl(1)] that by auto
  have fdnew: "conn_fd (conns ?w d) \<noteq> fd" if "held st d" for d
  proof -
    have "chan_fd (chans (loops ?w (conn_loop (conns ?w d))) (conn_channel (conns ?w d))) \<in> open_fds st"
      using held_channel[OF that] held_ok[OF inv that] by (auto simp: open_fds_def conn_ok_def Let_def)
    with new(3)[OF nl(1)] held_ok[OF inv that] show ?thesis
      by (auto simp: conn_ok_def Let_def chan_of_def loop_of_def)
  qed
  have chan: "chan_of d v = chan_of d ?w" "registered v d = registered ?w d"
    "chan_owner v (conn_loop (conns ?w d)) (conn_channel (conns ?w d)) =
      chan_owner ?w (conn_loop (conns ?w d)) (conn_channel (conns ?w d))"
    "in_order ?st d = in_order st d" if "held st d" "d \<noteq> ?a" for d
  proof -
    note same = ad(2)[OF that(2)]
    have "\<not> (conn_loop (conns ?w d) = io \<and> conn_channel (conns ?w d) = ?ptr)"
      using out[OF held_channel[OF that(1)]] by blast
    then show "chan_of d v = chan_of d ?w"
      "chan_owner v (conn_loop (conns ?w d)) (conn_channel (conns ?w d)) =
        chan_owner ?w (conn_loop (conns ?w d)) (conn_channel (conns ?w d))"
      by (auto simp: chan_of_def loop_of_def lp same ad(13))
    show r: "registered v d = registered ?w d" by (simp add: registered_def loop_of_def lp same)
    show "in_order ?st d = in_order st d" using that(2)
      by (simp add: in_order_def r keeper_def raw_waiting_def wait map same ad(4))
  qed
  have old: "conn_ok {?a} ?st d" if "held st d" "d \<noteq> ?a" for d
  proof -
    note ok = held_ok[OF inv that(1), unfolded conn_ok_def Let_def]
    have nm: "name_of v i = name_of ?w i" for i by (simp add: name_of_def ad(8,9))
    from ok obtain i where "i \<in> {1..<nextConnId ?w}" "conn_name (conns ?w d) = name_of ?w i" by blast
    then have "\<exists>i \<in> {1..<nextConnId v}. conn_name (conns ?w d) = name_of v i" by (auto simp: ad(7) nm)
    moreover have "in_map v d = in_map ?w d" using map that(2) by simp
    ultimately show ?thesis
      using ok that(2) unfolding conn_ok_def Let_def srv_update ids ad(2)[OF that(2)] chan[OF that] ad(12) by simp
  qed
  have l: "loop_state_ok st i" if "i \<in> set (loop_ids ?w)" for i using inv that by (simp add: reactor_inv_def)
  have unreg: "channels (loops ?w io) fd \<noteq> Some ?ptr"
    using l[OF nl(1)] ptr[OF nl(1)] by (auto simp: loop_state_ok_def Let_def owns_def intro: ranI)
  have aok: "conn_ok {?a} ?st ?a"
    unfolding conn_ok_def Let_def srv_update ids
  proof (intro conjI impI)
    show "\<exists>i \<in> {1..<nextConnId v}. conn_name (conns v ?a) = name_of v i"
      using so by (intro bexI[of _ "nextConnId ?w"])
        (simp_all add: ac ad(7-9) connection_name_def name_of_def server_ok_def)
  qed (use so nl(1) unreg in \<open>auto simp: ac ad(13) ad(10-12) chan_of_def loop_of_def lp map registered_def server_ok_def new_channel_def kNoneEvent_def\<close>)
  have inva: "conn_inv ?a v" by (simp add: conn_inv_def ac)
  have invd: "conn_inv d v = conn_inv d ?w" if "held st d" "d \<noteq> ?a" for d
    by (simp add: conn_inv_def chan(1)[OF that] ad(2)[OF that(2)])
  have own: "own_channels ?st i = own_channels st i \<union> (if i = io then {?ptr} else {})" for i
  proof -
    have "{conn_channel (conns v c) |c. held ?st c \<and> conn_loop (conns v c) = i} =
        {conn_channel (conns ?w c) |c. held st c \<and> conn_loop (conns ?w c) = i} \<union> (if i = io then {?ptr} else {})"
      (is "?L = ?R")
    proof
      show "?L \<subseteq> ?R"
      proof
        fix q assume "q \<in> ?L"
        then obtain c where "held ?st c" "conn_loop (conns v c) = i" "q = conn_channel (conns v c)" by blast
        then show "q \<in> ?R" using held ad(2)[of c] by (cases "c = ?a") (auto simp: ac)
      qed
      show "?R \<subseteq> ?L"
      proof
        fix q assume "q \<in> ?R"
        then consider c where "held st c" "conn_loop (conns ?w c) = i" "q = conn_channel (conns ?w c)" | "i = io" "q = ?ptr"
          by (auto split: if_splits)
        then show "q \<in> ?L"
        proof cases
          case 1
          then have "c \<noteq> ?a" using new(1)[OF nl(1)] by auto
          with 1 ad(2)[of c] held show ?thesis by (auto intro!: exI[of _ c])
        qed (auto simp: held ac intro!: exI[of _ ?a])
      qed
    qed
    then show ?thesis by (auto simp: own_channels_def ad(4,5))
  qed
  have tk: "task_ok ?st i t" if "task_ok st i t" "i \<in> set (loop_ids ?w)" "t \<in> set (waiting_tasks st i)" for i t
  proof -
    from task_ok_about[OF that(1)] obtain d where d: "holder_of t = Some d \<or> raw_of t = Some d" by blast
    with holder_waiting_held[OF that(2,3)] task_ok_raw[OF that(1)] new(1)[OF nl(1)] have "d \<noteq> ?a" by auto
    with \<open>task_ok st i t\<close> d ad(2)[of d] show ?thesis
      by (cases "(st, i, t)" rule: task_ok.cases) (auto simp: ad(4) held)
  qed
  have "loop_state_ok ?st i" if i: "i \<in> set (loop_ids ?w)" for i
  proof -
    note li = l[OF i, unfolded loop_state_ok_def Let_def]
    have "loop_ok (loops v i) \<and> owns (own_channels ?st i) (loops v i)"
    proof (cases "i = io")
      case True
      have "fd \<notin> (\<lambda>q. chan_fd (chans (loops ?w io) q)) ` own_channels st io"
        using new(3)[OF nl(1)] nl(1) by (auto simp: open_fds_def)
      with add_channel[of "loops ?w io" "own_channels st io" ?ptr fd io] li ptr[OF nl(1)] True show ?thesis
        by (simp add: own ad(1))
    next
      case False
      with li show ?thesis by (simp add: own ad(1))
    qed
    moreover have "chan_owner v i wakeup_ptr = WakeupOwner"
      using li ptr[OF i] by (auto simp: ad(13) own_channels_def)
    ultimately show ?thesis
      using li tk[OF _ i] unfolding loop_state_ok_def Let_def srv_update lp wait by blast
  qed
  moreover have "server_ok v"
  proof -
    have "acc_channel (srv_acceptor ?w) \<noteq> ?ptr"
      using ptr[of "srv_loop ?w"] by (auto simp: own_channels_def loop_ids_def)
    then show ?thesis
      using so nl fresh by (auto simp: server_ok_def ad fresh_arrival_def)
  qed
  moreover have "conn_ok {?a} ?st c \<and> (c \<in> {} \<or> conn_inv c v)" if "held ?st c" for c
  proof (cases "c = ?a")
    case False
    with that held have "held st c" by simp
    with old[OF this False] invd[OF this False] inv show ?thesis by (auto simp: reactor_inv_def)
  qed (use aok inva in simp)
  moreover have "conn_name (conns v c) \<noteq> conn_name (conns v d) \<and> conn_fd (conns v c) \<noteq> conn_fd (conns v d)"
    if "held ?st c" "held ?st d" "c \<noteq> d" for c d
  proof -
    have two: "conn_name (conns ?w c) \<noteq> conn_name (conns ?w d) \<and> conn_fd (conns ?w c) \<noteq> conn_fd (conns ?w d)"
      if "held st c" "held st d" using inv that \<open>c \<noteq> d\<close> by (simp add: reactor_inv_def)
    consider "c = ?a" "held st d" "d \<noteq> ?a" | "d = ?a" "held st c" "c \<noteq> ?a" | "held st c" "held st d" "c \<noteq> ?a" "d \<noteq> ?a"
      using \<open>held ?st c\<close> \<open>held ?st d\<close> \<open>c \<noteq> d\<close> unfolding held by blast
    then show ?thesis
    proof cases
      case 1
      show ?thesis
        unfolding 1(1) ad(2)[OF 1(3)] ac by (rule conjI[OF not_sym not_sym, OF name[OF 1(2)] fdnew[OF 1(2)]])
    next
      case 2
      from name[OF 2(2)] fdnew[OF 2(2)] show ?thesis unfolding 2(1) ad(2)[OF 2(3)] ac by blast
    next
      case 3
      from two[OF 3(1,2)] show ?thesis unfolding ad(2)[OF 3(3)] ad(2)[OF 3(4)] .
    qed
  qed
  ultimately have "reactor_inv {?a} {} ?st" unfolding reactor_inv_def srv_update ids by blast
  with held show ?thesis by blast
qed

end
