(* ===== verification/Reactor_Turn.thy ===== *)
theory Reactor_Turn
  imports Reactor_Safety Reactor_Accept
begin

text \<open>
  The turns of the threads: every turn that the kernel and the allocator allow succeeds and keeps the invariant, or
  is the call of an empty high-water-mark callback. From there on the runs of a server, in which other threads may call
  \<open>send\<close> and \<open>shutdown\<close> on its connections.
\<close>

section \<open>The parts of a turn\<close>

lemma put_loop_same [simp]: "put_loop lid (loops w lid) w = w"
  by (simp add: put_loop_def)

lemma fillActiveChannels_chans:
  "chan_fd (chans (snd (fillActiveChannels es p)) q) = chan_fd (chans p q)"
  "chan_loop (chans (snd (fillActiveChannels es p)) q) = chan_loop (chans p q)"
  "chan_events (chans (snd (fillActiveChannels es p)) q) = chan_events (chans p q)"
  "chan_index (chans (snd (fillActiveChannels es p)) q) = chan_index (chans p q)"
  by (induction es p rule: fillActiveChannels.induct)
    (auto simp: Let_def case_prod_unfold set_revents_def set_chan_def split: option.split)

text \<open>\<open>poll\<close> succeeds when the answer fits its vector, and changes the results of the channels only.\<close>

definition fits :: "int + (32 word \<times> int) list \<Rightarrow> 'z poller_scheme \<Rightarrow> bool" where
  "fits ep p \<longleftrightarrow> (case ep of Inl e \<Rightarrow> True | Inr es \<Rightarrow> length es \<le> event_list_size p)"

lemma poll_step:
  fixes l :: "('f, 'z) event_loop_scheme"
  assumes "fits ep l"
  shows "\<exists>active l'. poller_poll ep l = Inr (active, l') \<and> poller.more l' = poller.more l \<and>
    (\<forall>q. chan_fd (chans l' q) = chan_fd (chans l q) \<and> chan_loop (chans l' q) = chan_loop (chans l q) \<and>
      chan_events (chans l' q) = chan_events (chans l q)) \<and>
    channels l' = channels l \<and> (loop_ok l' \<longleftrightarrow> loop_ok l) \<and> set active \<subseteq> ran (channels l)"
proof (cases ep)
  case (Inl e)
  then show ?thesis by (simp add: poller_poll_def)
next
  case (Inr es)
  let ?f = "fillActiveChannels es l"
  define l' where "l' = (if es = [] then l else if length es = event_list_size l
    then (snd ?f)\<lparr>event_list_size := event_list_size l * 2\<rparr> else snd ?f)"
  have run: "poller_poll ep l = Inr (if es = [] then [] else fst ?f, l')"
    using assms Inr fillActiveChannels_frame[of es l]
    by (auto simp: poller_poll_def fits_def Let_def case_prod_unfold require_def l'_def)
  have more: "poller.more l' = poller.more l" by (simp add: l'_def fillActiveChannels_more)
  have ch: "chan_fd (chans l' q) = chan_fd (chans l q)" "chan_loop (chans l' q) = chan_loop (chans l q)"
    "chan_events (chans l' q) = chan_events (chans l q)" "chan_index (chans l' q) = chan_index (chans l q)" for q
    by (simp_all add: l'_def fillActiveChannels_chans)
  note pf = poller_poll_facts[OF run]
  have "loop_ok l' \<longleftrightarrow> loop_ok l" by (simp add: loop_ok_def pf(1) ch)
  with run more ch pf(2,4) show ?thesis by blast
qed

lemma calling_fields [simp]:
  "chans (set_calling b l) = chans l" "channels (set_calling b l) = channels l" "loop_id (set_calling b l) = loop_id l"
  "pendingFunctors (set_calling b l) = pendingFunctors l" "threadId (set_calling b l) = threadId l"
  "ctl_log (set_calling b l) = ctl_log l"
  by (simp_all add: set_calling_def)

lemma handleRead_fields [simp]:
  "chans (loop_handleRead l) = chans l" "channels (loop_handleRead l) = channels l"
  "loop_id (loop_handleRead l) = loop_id l" "pendingFunctors (loop_handleRead l) = pendingFunctors l"
  "threadId (loop_handleRead l) = threadId l" "ctl_log (loop_handleRead l) = ctl_log l"
  by (simp_all add: loop_handleRead_def)

lemma bookkeeping_ok [simp]:
  "loop_ok (set_calling b l) \<longleftrightarrow> loop_ok l" "loop_ok (loop_handleRead l) \<longleftrightarrow> loop_ok l"
  by (rule loop_ok_cong; simp)+


section \<open>The last functors that hold a connection\<close>

text \<open>
  A connection that nothing holds any more leaves: the poller has no channel of it, because what
  is registered has a keeper, and a keeper holds it.
\<close>

lemma keeper_held:
  assumes "conn_loop (conns (srv st) c) \<in> set (loop_ids (srv st))" and "keeper st c"
  shows "held st c"
proof -
  have "srv_loop (srv st) \<in> set (loop_ids (srv st))" by (simp add: loop_ids_def)
  from holder_waiting_held[OF this, of "RemoveConnectionInLoop c" c]
    holder_waiting_held[OF assms(1), of "ConnTask (ConnectDestroyed c)" c] assms(2) show ?thesis
    by (auto simp: keeper_def held_def[of st c])
qed

lemma shrink_inv:
  assumes inv: "reactor_inv {} W st" and srv: "srv st' = srv st"
    and wait: "\<And>i. waiting_tasks st' i = waiting_tasks st i"
    and held: "\<And>c. held st' c \<Longrightarrow> held st c"
    and disp: "\<And>i now ps. phase_of st' i = Dispatching now ps \<Longrightarrow> phase_of st i = Dispatching now ps"
  shows "reactor_inv {} W st'"
proof -
  let ?w = "srv st"
  have keep: "keeper st' c \<longleftrightarrow> keeper st c" for c by (simp add: keeper_def srv wait)
  have raws: "raw_waiting st' c \<longleftrightarrow> raw_waiting st c" for c by (simp add: raw_waiting_def srv wait)
  have stay: "held st' c" if "held st c" "registered ?w c \<or> raw_waiting st c" for c
    using held_flags(4,8)[OF inv that(1)] that(2) by (auto intro!: keeper_held simp: srv keep in_order_def)
  have order: "in_order st' c \<longleftrightarrow> in_order st c" for c by (simp add: in_order_def keep raws srv wait)
  have tk: "task_ok st' i t" if "t \<in> set (waiting_tasks st i)" "task_ok st i t" for i t
  proof -
    have "held st' c" if raw: "raw_of t = Some c" for c
    proof -
      from task_ok_raw[OF \<open>task_ok st i t\<close> raw] have "held st c" "raw_waiting st c"
        using \<open>t \<in> set (waiting_tasks st i)\<close> raw by (auto simp: raw_waiting_def)
      with stay show ?thesis by blast
    qed
    with \<open>task_ok st i t\<close> show ?thesis by (cases "(st, i, t)" rule: task_ok.cases) (simp_all add: srv)
  qed
  have sub: "own_channels st' i \<subseteq> own_channels st i" for i using held by (auto simp: own_channels_def srv)
  have ls: "loop_state_ok st' i" if i: "i \<in> set (loop_ids ?w)" for i
  proof -
    have l: "loop_state_ok st i" using inv i by (simp add: reactor_inv_def)
    have "ran (channels (loops ?w i)) \<subseteq> own_channels st' i"
    proof
      fix q assume q: "q \<in> ran (channels (loops ?w i))"
      then have "q \<in> own_channels st i" using l by (auto simp: loop_state_ok_def Let_def owns_def)
      then consider "q = wakeup_ptr" | "i = srv_loop ?w" "q = acc_channel (srv_acceptor ?w)" |
        c where "held st c" "conn_loop (conns ?w c) = i" "q = conn_channel (conns ?w c)"
        by (auto simp: own_channels_def split: if_splits)
      then show "q \<in> own_channels st' i"
      proof cases
        case (3 c)
        from q obtain f where f: "channels (loops ?w i) f = Some q" by (auto simp: ran_def)
        have "chan_fd (chans (loops ?w i) q) = f"
          using l f by (simp add: loop_state_ok_def Let_def loop_ok_def poller_inv_def index_ok_def)
        then have "registered ?w c"
          using held_flags(9)[OF inv 3(1)] f 3(2,3) by (simp add: registered_def loop_of_def chan_of_def)
        with stay[OF 3(1)] 3(2,3) show ?thesis by (auto simp: own_channels_def srv)
      qed (auto simp: own_channels_def srv)
    qed
    then have "owns (own_channels st' i) (loops ?w i)"
      using l sub[of i] by (auto simp: loop_state_ok_def Let_def owns_def intro: inj_on_subset)
    moreover have "\<forall>t \<in> set (waiting_tasks st i). task_ok st' i t"
      using l tk[of _ i] by (simp add: loop_state_ok_def Let_def)
    ultimately show ?thesis using l disp by (simp add: loop_state_ok_def Let_def srv wait)
  qed
  have "conn_ok {} st' c" if "held st' c" for c
    using held_ok[OF inv held[OF that]] unfolding conn_ok_def Let_def srv order .
  with ls inv held show ?thesis by (auto simp: reactor_inv_def srv)
qed


text \<open>
  The destructors that run when the vector of a loop is destroyed: once for each connection that is held
  before and by nothing afterwards.
\<close>

lemma vector_shrinks:
  assumes "phase_of st lid = Calling (t # ts) []" and "lid \<in> set (loop_ids (srv st))"
  shows "held st c \<longleftrightarrow> held (st\<lparr>phase_of := (phase_of st)(lid := Calling ts [])\<rparr>) c \<or> holder_of t = Some c"
proof -
  let ?st = "st\<lparr>phase_of := (phase_of st)(lid := Calling ts [])\<rparr>"
  have "(\<exists>u \<in> set (tasks_of st i). holder_of u = Some c) \<longleftrightarrow>
      (\<exists>u \<in> set (tasks_of ?st i). holder_of u = Some c) \<or> i = lid \<and> holder_of t = Some c" for i
    using assms(1) by (auto simp: tasks_of_def)
  then show ?thesis using assms(2) unfolding held_def srv_update by blast
qed

lemma drop_functors_step:
  fixes st :: "'z server_world_scheme reactor"
  assumes "reactor_inv {} {} st" and "phase_of st lid = Calling ts []" and "lid \<in> set (loop_ids (srv st))"
  shows "reactor_inv {} {} (drop_functors lid ts st) \<and>
    phase_of (drop_functors lid ts st) = (phase_of st)(lid := Waiting) \<and>
    world.more (srv (drop_functors lid ts st)) = world.more (srv st) \<and>
    loops (srv (drop_functors lid ts st)) = loops (srv st) \<and> conns (srv (drop_functors lid ts st)) = conns (srv st) \<and>
    (\<forall>c. held (drop_functors lid ts st) c \<longrightarrow> held st c) \<and>
    (\<exists>cs. distinct cs \<and> set cs = {c. held st c \<and> \<not> held (drop_functors lid ts st) c} \<and>
      sock_log (srv (drop_functors lid ts st)) = sock_log (srv st) @ map (\<lambda>c. SockClose (conn_fd (conns (srv st) c))) cs)"
  using assms
proof (induction ts arbitrary: st)
  case Nil
  let ?st = "st\<lparr>phase_of := (phase_of st)(lid := Waiting)\<rparr>"
  have "tasks_of ?st i = tasks_of st i" for i using Nil.prems(2) by (simp add: tasks_of_def)
  then have h: "held ?st c \<longleftrightarrow> held st c" for c by (simp add: held_def)
  have "reactor_inv {} {} ?st"
    by (rule shrink_inv[OF Nil.prems(1)]) (use Nil.prems(2) h in \<open>auto simp: waiting_tasks_def split: if_splits\<close>)
  with h show ?case by simp
next
  case (Cons t ts)
  let ?st1 = "st\<lparr>phase_of := (phase_of st)(lid := Calling ts [])\<rparr>"
  note vs = vector_shrinks[OF Cons.prems(2,3)]
  have i1: "reactor_inv {} {} ?st1"
    by (rule shrink_inv[OF Cons.prems(1)]) (use Cons.prems(2) vs in \<open>auto simp: waiting_tasks_def split: if_splits\<close>)
  define del where "del = (case holder_of t of None \<Rightarrow> None | Some c \<Rightarrow> if held ?st1 c then None else Some c)"
  define st2 where "st2 = (case del of None \<Rightarrow> ?st1 | Some c \<Rightarrow> ?st1\<lparr>srv := delete_tcp_connection c (srv ?st1)\<rparr>)"
  have run: "drop_functors lid (t # ts) st = drop_functors lid ts st2"
    by (simp add: st2_def del_def Let_def split: option.split)
  have w2: "world.more (srv st2) = world.more (srv st)" "loops (srv st2) = loops (srv st)" "conns (srv st2) = conns (srv st)"
    "phase_of st2 = (phase_of st)(lid := Calling ts [])"
    "sock_log (srv st2) = sock_log (srv st) @ (case del of None \<Rightarrow> [] | Some c \<Rightarrow> [SockClose (conn_fd (conns (srv st) c))])"
    by (simp_all add: st2_def delete_tcp_connection_def delete_socket_def split: option.split)
  have same: "reactor_inv {} {} st2 \<longleftrightarrow> reactor_inv {} {} ?st1" "held st2 c \<longleftrightarrow> held ?st1 c" for c
    using same_inv[of "delete_tcp_connection d (srv ?st1)" ?st1 for d]
    by (auto simp: st2_def delete_tcp_connection_def delete_socket_def split: option.split)
  have "lid \<in> set (loop_ids (srv st2))" using Cons.prems(3) same_loop_ids[OF w2(1)] by simp
  from Cons.IH[OF same(1)[THEN iffD2, OF i1] _ this] w2(4)
  have ih: "reactor_inv {} {} (drop_functors lid ts st2)" "phase_of (drop_functors lid ts st2) = (phase_of st)(lid := Waiting)"
      "world.more (srv (drop_functors lid ts st2)) = world.more (srv st)"
      "loops (srv (drop_functors lid ts st2)) = loops (srv st)" "conns (srv (drop_functors lid ts st2)) = conns (srv st)"
      "\<And>c. held (drop_functors lid ts st2) c \<Longrightarrow> held st2 c"
    and ex: "\<exists>cs. distinct cs \<and> set cs = {c. held st2 c \<and> \<not> held (drop_functors lid ts st2) c} \<and>
      sock_log (srv (drop_functors lid ts st2)) = sock_log (srv st2) @ map (\<lambda>c. SockClose (conn_fd (conns (srv st) c))) cs"
    by (simp_all add: w2(1-3) fun_eq_iff)
  from ex obtain cs where cs: "distinct cs" "set cs = {c. held st2 c \<and> \<not> held (drop_functors lid ts st2) c}"
    "sock_log (srv (drop_functors lid ts st2)) = sock_log (srv st2) @ map (\<lambda>c. SockClose (conn_fd (conns (srv st) c))) cs"
    by blast
  have sub: "held st2 c \<Longrightarrow> held st c" for c using same(2) vs by simp
  show ?case
  proof (cases del)
    case None
    then have "held st c \<longleftrightarrow> held st2 c" for c
      using vs[of c] same(2)[of c] by (auto simp: del_def split: option.splits if_splits)
    then show ?thesis using ih cs w2(5) None unfolding run by (auto intro!: exI[of _ cs])
  next
    case (Some d)
    then have d: "held st c \<longleftrightarrow> held st2 c \<or> c = d" "\<not> held st2 d" for c
      using vs[of c] same(2) by (auto simp: del_def split: option.splits if_splits)
    then have "distinct (d # cs)" "set (d # cs) = {c. held st c \<and> \<not> held (drop_functors lid ts st2) c}"
      using ih(6) cs(1,2) by auto
    then show ?thesis using ih cs(3) sub w2(5) Some unfolding run by (intro conjI exI[of _ "d # cs"]) auto
  qed
qed


section \<open>A connection arrives\<close>

lemma fresh_same:
  assumes "world.more w' = world.more (srv st)" and "loops w' = loops (srv st)" and "conns w' = conns (srv st)"
  shows "fresh_arrival (st\<lparr>srv := w'\<rparr>) fd arr \<longleftrightarrow> fresh_arrival st fd arr"
proof -
  let ?st = "st\<lparr>srv := w'\<rparr>"
  note sv = same_server[OF assms(1)]
  have h: "held ?st d \<longleftrightarrow> held st d" for d by (rule same_inv(2)[OF assms])
  have ids: "loop_ids w' = loop_ids (srv st)" by (rule same_loop_ids[OF assms(1)])
  have own: "own_channels ?st i = own_channels st i" for i by (simp add: own_channels_def sv assms h)
  show ?thesis by (simp add: fresh_arrival_def open_fds_def own ids h sv assms)
qed

context server_threads
begin

lemma newConnection_turn:
  assumes inv: "reactor_inv {} {} st" and gd: "good (app_state (srv st))"
    and tid: "threadId (loops (srv st) (srv_loop (srv st))) = tid" and fresh: "fresh_arrival st fd arr"
    and ptr: "ptr \<in> own_channels st lid" "lid \<in> set (loop_ids (srv st))" "chan_owner (srv st) lid ptr = own"
  shows "\<exists>w'. newConnection k (app tid) arr tid fd peer (srv st) = Inr w' \<and> reactor_inv {} {} (st\<lparr>srv := w'\<rparr>) \<and>
    app_state w' = app_state (srv st) \<and> chan_owner w' lid ptr = own \<and>
    loop_ids w' = loop_ids (srv st) \<and> (\<forall>d. held st d \<longrightarrow> held (st\<lparr>srv := w'\<rparr>) d)"
proof -
  let ?w = "srv st" and ?a = "arr_conn arr"
  have so: "server_ok ?w" using inv by (simp add: reactor_inv_def)
  then obtain io pool where pool: "getNextLoop (srv_pool ?w) = Inr (io, pool)"
    using getNextLoop_step[of "srv_pool ?w"] by (auto simp: server_ok_def)
  obtain loc where loc: "arr_local arr = Some loc" using fresh by (auto simp: fresh_arrival_def)
  define v where "v = admitted arr io pool fd loc peer ?w"
  let ?st = "st\<lparr>srv := v\<rparr>"
  have run: "newConnection k (app tid) arr tid fd peer ?w =
      conn_runInLoop tid ?a (ConnectEstablished ?a) (connectEstablished k (user tid) tid ?a) v"
    unfolding v_def by (rule newConnection_admits[OF _ pool loc]) (use tid in \<open>simp add: isInLoopThread_def\<close>)
  from admit_inv[OF inv pool fresh v_def] have i: "reactor_inv {?a} {} ?st" "held ?st ?a"
    and alive: "\<forall>d. held st d \<longrightarrow> held ?st d" by auto
  have a: "\<not> held st ?a" "arr_channel arr \<notin> own_channels st lid" using fresh ptr(2) by (auto simp: fresh_arrival_def)
  have owner: "chan_owner v lid ptr = own" using a(2) ptr(1,3) by (auto simp: v_def admitted_fields(13))
  have ac: "conn_loop (conns v ?a) = io" "conn_state (conns v ?a) = kConnecting" by (simp_all add: v_def admitted_conn)
  have more: "app_state v = app_state ?w" by (simp add: v_def admitted_fields app_state_def)
  have io: "io \<in> set (loop_ids ?w)" "loop_ids v = loop_ids ?w"
    using next_loop_facts[OF so pool] by (simp_all add: loop_ids_def v_def admitted_fields)
  have wait: "waiting_tasks ?st i = waiting_tasks st i" for i
    by (simp add: waiting_tasks_def v_def admitted_fields)
  have once: "ConnTask (ConnectEstablished ?a) \<notin> set (waiting_tasks ?st io)"
    using holder_waiting_held[OF io(1), of "ConnTask (ConnectEstablished ?a)" ?a] a(1) by (auto simp: wait)
  show ?thesis
  proof (cases "threadId (loops v io) = tid")
    case True
    from connectEstablished_step[OF i, of tid] True once ac gd more obtain w' where
      "connectEstablished k (user tid) tid ?a v = Inr w'" "live {} tid ?a (?st\<lparr>srv := w'\<rparr>)" "kept ?st w'"
      by auto
    with run True ac more owner io(2) alive show ?thesis
      by (auto simp: conn_runInLoop_def runInLoop_def get_loop_def isInLoopThread_def live_def kept_def)
  next
    case False
    let ?w' = "put_loop io (queueInLoop tid (ConnTask (ConnectEstablished ?a)) (loops v io)) v"
    have "newConnection k (app tid) arr tid fd peer ?w = Inr ?w'"
      using run False ac by (simp add: conn_runInLoop_def runInLoop_def get_loop_def isInLoopThread_def)
    note run' = this
    have q: "reactor_inv {?a} {} (?st\<lparr>srv := ?w'\<rparr>)" "\<forall>d. held (?st\<lparr>srv := ?w'\<rparr>) d \<longleftrightarrow> held ?st d"
      using push_change[OF i, of "ConnTask (ConnectEstablished ?a)" io ?w' tid] io once ac by simp_all
    have more': "world.more ?w' = world.more v" by simp
    have "registered ?w' ?a \<longleftrightarrow> registered v ?a" by (simp add: registered_def loop_of_def)
    moreover have "keeper (?st\<lparr>srv := ?w'\<rparr>) ?a"
      using held_ok[OF i] ac by (simp add: conn_ok_def Let_def keeper_def in_map_def same_server[OF more'])
    ultimately have "in_order (?st\<lparr>srv := ?w'\<rparr>) ?a"
      using held_ok[OF i] ac by (simp add: in_order_def waiting_tasks_def conn_ok_def Let_def)
    then have "reactor_inv {} {} (st\<lparr>srv := ?w'\<rparr>)" using reactor_inv_order[OF q(1)] by simp
    with run' show ?thesis
      using more owner io(2) alive q(2) same_server[OF more'] same_app_state[OF more'] same_loop_ids[OF more'] by auto
  qed
qed

lemma acceptor_turn:
  assumes inv: "reactor_inv {} {} st" and gd: "good (app_state (srv st))"
    and tid: "threadId (loops (srv st) (srv_loop (srv st))) = tid" and fresh: "fresh_arrival st (fst answer) arr"
    and ptr: "ptr \<in> own_channels st lid" "lid \<in> set (loop_ids (srv st))" "chan_owner (srv st) lid ptr = own"
  shows "\<exists>w'. server_accept k (app tid) answer arr tid (srv st) = Inr w' \<and> reactor_inv {} {} (st\<lparr>srv := w'\<rparr>) \<and>
    app_state w' = app_state (srv st) \<and> chan_owner w' lid ptr = own \<and>
    loop_ids w' = loop_ids (srv st) \<and> (\<forall>d. held st d \<longrightarrow> held (st\<lparr>srv := w'\<rparr>) d)"
proof -
  obtain fd peer where answer: "answer = (fd, peer)" by (cases answer)
  let ?a = "srv_acceptor (srv st)"
  define w1 where "w1 = log_sock (SockAccept (acc_fd ?a) fd) (srv st)"
  have w1: "world.more w1 = world.more (srv st)" "loops w1 = loops (srv st)" "conns w1 = conns (srv st)"
    by (simp_all add: w1_def)
  let ?st = "st\<lparr>srv := w1\<rparr>"
  note sv = same_server[OF w1(1)]
  have so: "server_ok (srv st)" using inv by (simp add: reactor_inv_def)
  have fd: "0 \<le> fd" using fresh by (simp add: answer fresh_arrival_def)
  have run: "server_accept k (app tid) answer arr tid (srv st) = newConnection k (app tid) arr tid fd peer w1"
    using so tid fd by (simp add: server_accept_eq Let_def answer assertInLoopThread_def isInLoopThread_def
        socket_accept_def server_ok_def w1_def require_def)
  have own: "own_channels ?st lid = own_channels st lid"
    by (simp add: own_channels_def sv w1 same_inv(2)[OF w1])
  have "reactor_inv {} {} ?st" using inv same_inv(1)[OF w1] by simp
  from newConnection_turn[OF this, of tid fd arr ptr lid own peer] gd tid ptr fresh
  show ?thesis
    by (simp add: run[unfolded answer] same_app_state[OF w1(1)] sv w1 own same_loop_ids[OF w1(1)] fresh_same[OF w1] answer
        same_inv(2)[OF w1])
qed

end


section \<open>The turns\<close>

text \<open>
  What the kernel and the allocator promise in a turn: the answer of \<open>epoll_wait\<close> fits the vector, and what
  \<open>accept\<close> and \<open>new\<close> return is not in use.
\<close>

definition plausible :: "'z server_world_scheme turn \<Rightarrow> 'z server_world_scheme reactor \<Rightarrow> bool" where
  "plausible tn st \<longleftrightarrow>
     turn_loop tn \<in> set (loop_ids (srv st)) \<and> fits (turn_epoll tn) (loops (srv st) (turn_loop tn)) \<and>
     (\<forall>now ptr ps. phase_of st (turn_loop tn) = Dispatching now (ptr # ps) \<longrightarrow>
        chan_owner (srv st) (turn_loop tn) ptr = AcceptorOwner \<longrightarrow>
        fresh_arrival st (fst (env_accept (turn_env tn) (srv st))) (env_arrival (turn_env tn) (srv st)))"

lemma phase_change:
  assumes inv: "reactor_inv {} {} st" and lid: "lid \<in> set (loop_ids (srv st))"
    and st': "st' = st\<lparr>srv := put_loop lid l (srv st), phase_of := (phase_of st)(lid := p)\<rparr>"
    and chans: "\<And>q. chan_fd (chans l q) = chan_fd (chans (loops (srv st) lid) q)"
      "\<And>q. chan_loop (chans l q) = chan_loop (chans (loops (srv st) lid) q)"
      "\<And>q. chan_events (chans l q) = chan_events (chans (loops (srv st) lid) q)"
      "channels l = channels (loops (srv st) lid)" "loop_ok l" "loop_id l = loop_id (loops (srv st) lid)"
    and tasks: "vector_of p @ pendingFunctors l = tasks_of st lid"
      "rest_of p @ pendingFunctors l = waiting_tasks st lid"
    and disp: "\<And>now ps. p = Dispatching now ps \<Longrightarrow> set ps \<subseteq> ran (channels l)"
  shows "reactor_inv {} {} st' \<and> (\<forall>d. held st' d \<longleftrightarrow> held st d)"
proof (rule loop_change[OF inv lid st' chans])
  have more: "world.more (put_loop lid l (srv st)) = world.more (srv st)" by simp
  note sv = same_server[OF more]
  have "waiting_tasks st' i = waiting_tasks st i" for i
    using tasks(2) by (simp add: st' waiting_tasks_def)
  moreover have "registered (srv st') c = registered (srv st) c" for c
    using chans(4) by (simp add: registered_def loop_of_def st')
  moreover have "conns (srv st') = conns (srv st)" "srv_loop (srv st') = srv_loop (srv st)"
    "in_map (srv st') c = in_map (srv st) c" for c
    by (simp_all add: st' in_map_def sv)
  ultimately show "in_order st' c" if "in_order st c" for c
    using that by (simp add: in_order_def keeper_def raw_waiting_def)
  show "waiting_tasks st lid = [] @ rest_of p @ pendingFunctors l" by (simp add: tasks(2))
  show "set (vector_of p @ pendingFunctors l) = set (tasks_of st lid)" by (simp only: tasks(1))
  show "set ps \<subseteq> ran (channels l)" if "p = Dispatching now ps" for now ps by (rule disp[OF that])
qed simp_all

lemma waiting_turn:
  assumes inv: "reactor_inv {} {} st" and pl: "plausible tn st" and ph: "phase_of st (turn_loop tn) = Waiting"
  shows "\<exists>st'. loop_turn k app tn st = Inr st' \<and> reactor_inv {} {} st' \<and>
    app_state (srv st') = app_state (srv st) \<and> (\<forall>d. held st d \<longrightarrow> held st' d)"
proof -
  let ?lid = "turn_loop tn" and ?w = "srv st" and ?l = "loops (srv st) (turn_loop tn)"
  have lid: "?lid \<in> set (loop_ids ?w)" and fit: "fits (turn_epoll tn) ?l" using pl by (simp_all add: plausible_def)
  have ls: "loop_ok ?l" using inv lid by (auto simp: reactor_inv_def loop_state_ok_def Let_def)
  have more: "app_state (put_loop ?lid l ?w) = app_state ?w" for l
    by (rule same_app_state) simp
  show ?thesis
  proof (cases "quit_flag ?l")
    case True
    let ?l' = "?l\<lparr>looping := False\<rparr>"
    let ?st = "st\<lparr>srv := put_loop ?lid ?l' ?w, phase_of := (phase_of st)(?lid := Waiting)\<rparr>"
    have "loop_ok ?l'" using ls by (subst loop_ok_cong[of _ ?l]) simp_all
    then have "reactor_inv {} {} ?st \<and> (\<forall>d. held ?st d \<longleftrightarrow> held st d)"
      by (intro phase_change[OF inv lid refl]) (simp_all add: tasks_of_def waiting_tasks_def ph)
    with True more ph show ?thesis by (intro exI[of _ ?st]) (simp add: loop_turn_def Let_def)
  next
    case False
    from poll_step[OF fit] obtain active l' where p: "poller_poll (turn_epoll tn) ?l = Inr (active, l')"
      "poller.more l' = poller.more ?l" "\<And>q. chan_fd (chans l' q) = chan_fd (chans ?l q)"
      "\<And>q. chan_loop (chans l' q) = chan_loop (chans ?l q)" "\<And>q. chan_events (chans l' q) = chan_events (chans ?l q)"
      "channels l' = channels ?l" "loop_ok l' \<longleftrightarrow> loop_ok ?l" "set active \<subseteq> ran (channels ?l)" by blast
    let ?st = "st\<lparr>srv := put_loop ?lid l' ?w, phase_of := (phase_of st)(?lid := Dispatching (turn_now tn) active)\<rparr>"
    have "reactor_inv {} {} ?st \<and> (\<forall>d. held ?st d \<longleftrightarrow> held st d)"
      by (rule phase_change[OF inv lid refl])
        (use p ls in \<open>simp_all add: tasks_of_def waiting_tasks_def ph same_more[OF p(2)]\<close>)
    with False p(1) more ph show ?thesis by (intro exI[of _ ?st]) (simp add: loop_turn_def Let_def)
  qed
qed

lemma swap_turn:
  assumes inv: "reactor_inv {} {} st" and pl: "plausible tn st" and ph: "phase_of st (turn_loop tn) = Dispatching now []"
  shows "\<exists>st'. loop_turn k app tn st = Inr st' \<and> reactor_inv {} {} st' \<and>
    app_state (srv st') = app_state (srv st) \<and> (\<forall>d. held st d \<longrightarrow> held st' d)"
proof -
  let ?lid = "turn_loop tn" and ?w = "srv st" and ?l = "loops (srv st) (turn_loop tn)"
  have lid: "?lid \<in> set (loop_ids ?w)" using pl by (simp add: plausible_def)
  have ls: "loop_ok ?l" using inv lid by (auto simp: reactor_inv_def loop_state_ok_def Let_def)
  let ?l' = "(set_calling True ?l)\<lparr>pendingFunctors := []\<rparr>"
  let ?st = "st\<lparr>srv := put_loop ?lid ?l' ?w, phase_of := (phase_of st)(?lid := Calling [] (pendingFunctors ?l))\<rparr>"
  have "loop_ok ?l'" using ls by (subst loop_ok_cong[of _ ?l]) simp_all
  then have "reactor_inv {} {} ?st \<and> (\<forall>d. held ?st d \<longleftrightarrow> held st d)"
    by (intro phase_change[OF inv lid refl]) (simp_all add: tasks_of_def waiting_tasks_def ph)
  moreover have "app_state (put_loop ?lid ?l' ?w) = app_state ?w" by (rule same_app_state) simp
  ultimately show ?thesis using ph by (intro exI[of _ ?st]) (simp add: loop_turn_def Let_def swap_pending_def)
qed

lemma end_turn:
  assumes inv: "reactor_inv {} {} st" and pl: "plausible tn st" and ph: "phase_of st (turn_loop tn) = Calling called []"
  shows "\<exists>st'. loop_turn k app tn st = Inr st' \<and> reactor_inv {} {} st' \<and>
    app_state (srv st') = app_state (srv st)"
proof -
  let ?lid = "turn_loop tn" and ?w = "srv st" and ?l = "loops (srv st) (turn_loop tn)"
  have lid: "?lid \<in> set (loop_ids ?w)" using pl by (simp add: plausible_def)
  have ls: "loop_ok ?l" using inv lid by (auto simp: reactor_inv_def loop_state_ok_def Let_def)
  let ?st = "st\<lparr>srv := put_loop ?lid (set_calling False ?l) ?w, phase_of := (phase_of st)(?lid := Calling called [])\<rparr>"
  have i: "reactor_inv {} {} ?st"
    by (rule phase_change[THEN conjunct1, OF inv lid refl]) (simp_all add: tasks_of_def waiting_tasks_def ph ls)
  have more: "world.more (put_loop ?lid (set_calling False ?l) ?w) = world.more ?w" by simp
  have "?lid \<in> set (loop_ids (srv ?st))" using lid same_loop_ids[OF more] by simp
  from drop_functors_step[OF i _ this, of called] have
    "reactor_inv {} {} (drop_functors ?lid called ?st)" "world.more (srv (drop_functors ?lid called ?st)) = world.more ?w"
    by auto
  with ph same_app_state show ?thesis
    by (intro exI[of _ "drop_functors ?lid called ?st"]) (simp add: loop_turn_def Let_def)
qed


text \<open>Which channel may be among the active ones.\<close>

lemma active_channel:
  assumes inv: "reactor_inv {} W st" and lid: "lid \<in> set (loop_ids (srv st))" and q: "q \<in> ran (channels (loops (srv st) lid))"
  shows "q \<in> own_channels st lid"
    and "q = wakeup_ptr \<and> chan_owner (srv st) lid q = WakeupOwner \<or>
      lid = srv_loop (srv st) \<and> q = acc_channel (srv_acceptor (srv st)) \<and> chan_owner (srv st) lid q = AcceptorOwner \<or>
      (\<exists>c. held st c \<and> conn_loop (conns (srv st) c) = lid \<and> q = conn_channel (conns (srv st) c) \<and>
        chan_owner (srv st) lid q = ConnOwner c \<and> registered (srv st) c \<and> conn_state (conns (srv st) c) \<noteq> kConnecting)"
proof -
  let ?w = "srv st"
  have so: "server_ok ?w" and ls: "loop_state_ok st lid" using inv lid by (simp_all add: reactor_inv_def)
  show own: "q \<in> own_channels st lid" using ls q by (auto simp: loop_state_ok_def Let_def owns_def)
  have "registered ?w c \<and> conn_state (conns ?w c) \<noteq> kConnecting \<and> chan_owner ?w lid q = ConnOwner c"
    if c: "held st c" "conn_loop (conns ?w c) = lid" "q = conn_channel (conns ?w c)" for c
  proof -
    from q obtain f where f: "channels (loops ?w lid) f = Some q" by (auto simp: ran_def)
    have "chan_fd (chans (loops ?w lid) q) = f"
      using ls f by (simp add: loop_state_ok_def Let_def loop_ok_def poller_inv_def index_ok_def)
    then have r: "registered ?w c"
      using held_flags(9)[OF inv c(1)] f c(2,3) by (simp add: registered_def loop_of_def chan_of_def)
    moreover have "conn_state (conns ?w c) \<noteq> kConnecting"
      using held_ok[OF inv c(1)] r by (auto simp: conn_ok_def Let_def)
    ultimately show ?thesis using held_flags(5)[OF inv c(1)] c(2,3) by simp
  qed
  with own ls so show "q = wakeup_ptr \<and> chan_owner ?w lid q = WakeupOwner \<or>
      lid = srv_loop ?w \<and> q = acc_channel (srv_acceptor ?w) \<and> chan_owner ?w lid q = AcceptorOwner \<or>
      (\<exists>c. held st c \<and> conn_loop (conns ?w c) = lid \<and> q = conn_channel (conns ?w c) \<and>
        chan_owner ?w lid q = ConnOwner c \<and> registered ?w c \<and> conn_state (conns ?w c) \<noteq> kConnecting)"
    unfolding own_channels_def by (auto simp: loop_state_ok_def Let_def server_ok_def split: if_splits)
qed

lemma held_distinct:
  "reactor_inv X W st \<Longrightarrow> held st c \<Longrightarrow> held st d \<Longrightarrow> d \<noteq> c \<Longrightarrow> conn_fd (conns (srv st) d) \<noteq> conn_fd (conns (srv st) c)"
  by (simp add: reactor_inv_def)

context server_threads
begin

lemma channel_turn:
  assumes inv: "reactor_inv {} {} st" and gd: "good (app_state (srv st))" and pl: "plausible tn st"
    and ph: "phase_of st (turn_loop tn) = Dispatching now (ptr # ps)"
  shows "\<exists>st'. loop_turn k app tn st = Inr st' \<and> reactor_inv {} {} st' \<and>
    app_state (srv st') = app_state (srv st) \<and> (\<forall>d. held st d \<longrightarrow> held st' d)"
proof -
  let ?lid = "turn_loop tn" and ?w = "srv st" and ?l = "loops (srv st) (turn_loop tn)" and ?env = "turn_env tn"
  let ?tid = "threadId ?l" and ?ch = "chans ?l ptr"
  let ?h = "server_handlers k (app ?tid) ?env ?tid ?lid ptr"
  have lid: "?lid \<in> set (loop_ids ?w)" using pl by (simp add: plausible_def)
  have ls: "loop_state_ok st ?lid" using inv lid by (simp add: reactor_inv_def)
  then have act: "ptr \<in> ran (channels ?l)" using ph by (simp add: loop_state_ok_def Let_def)
  let ?Q = "\<lambda>w. reactor_inv {} {} (st\<lparr>srv := w\<rparr>) \<and> app_state w = app_state ?w \<and>
    loop_ids w = loop_ids ?w \<and> (\<forall>d. held st d \<longrightarrow> held (st\<lparr>srv := w\<rparr>) d)"
  have run: "\<exists>w'. handleEvent (held st) ?h ?ch now ?w = Inr w' \<and> ?Q w'"
    using active_channel(2)[OF inv lid act]
  proof (elim disjE exE conjE)
    assume own: "chan_owner ?w ?lid ptr = WakeupOwner"
    let ?R = "\<lambda>w. ?Q w \<and> chan_owner w ?lid ptr = WakeupOwner"
    let ?w' = "put_loop ?lid (loop_handleRead ?l) ?w"
    have more: "world.more ?w' = world.more ?w" by simp
    let ?same = "st\<lparr>srv := ?w', phase_of := (phase_of st)(?lid := phase_of st ?lid)\<rparr>"
    have "reactor_inv {} {} ?same \<and> (\<forall>d. held ?same d \<longleftrightarrow> held st d)"
      by (rule phase_change[OF inv lid refl])
        (use ls ph in \<open>simp_all add: tasks_of_def waiting_tasks_def loop_state_ok_def Let_def\<close>)
    then have w': "?R ?w'" using same_app_state[OF more] same_server[OF more] same_loop_ids[OF more] own by simp
    have "\<exists>w'. handleEvent (held st) ?h ?ch now ?w = Inr w' \<and> ?R w'"
    proof (rule handleEvent_total[where P = "\<lambda>w. w = ?w" and Q = ?R])
      show "\<exists>s'. f now s = Inr s' \<and> ?R s'" if "readCallback ?h = Some f" "s = ?w" for f s
        using that own w' by (auto simp: server_handlers_def Let_def)
    qed (use inv own in \<open>auto simp: server_handlers_def Let_def\<close>)
    then show ?thesis by blast
  next
    assume own: "chan_owner ?w ?lid ptr = AcceptorOwner" and base: "?lid = srv_loop ?w"
    let ?R = "\<lambda>w. ?Q w \<and> chan_owner w ?lid ptr = AcceptorOwner"
    have fresh: "fresh_arrival st (fst (env_accept ?env ?w)) (env_arrival ?env ?w)"
      using pl ph own by (simp add: plausible_def)
    have "\<exists>w'. handleEvent (held st) ?h ?ch now ?w = Inr w' \<and> ?R w'"
    proof (rule handleEvent_total[where P = "\<lambda>w. w = ?w" and Q = ?R])
      show "\<exists>s'. f now s = Inr s' \<and> ?R s'" if "readCallback ?h = Some f" "s = ?w" for f s
        using that own acceptor_turn[OF inv gd _ fresh active_channel(1)[OF inv lid act] lid own, of ?tid] base
        by (auto simp: server_handlers_def Let_def)
    qed (use inv own in \<open>auto simp: server_handlers_def Let_def\<close>)
    then show ?thesis by blast
  next
    fix c
    assume c: "held st c" "conn_loop (conns ?w c) = ?lid" "ptr = conn_channel (conns ?w c)"
      "conn_state (conns ?w c) \<noteq> kConnecting"
    have "live {} ?tid c st" using inv c gd by (simp add: live_def)
    from conn_event_step[OF this c(2)[symmetric] c(3), of "held st" ?env ?ch now] show ?thesis
      by (auto simp: live_def kept_def)
  qed
  then obtain w' where w': "handleEvent (held st) ?h ?ch now ?w = Inr w'" "reactor_inv {} {} (st\<lparr>srv := w'\<rparr>)"
    "app_state w' = app_state ?w" "loop_ids w' = loop_ids ?w" "\<forall>d. held st d \<longrightarrow> held (st\<lparr>srv := w'\<rparr>) d" by blast
  let ?st = "st\<lparr>srv := w'\<rparr>" and ?st' = "st\<lparr>srv := w', phase_of := (phase_of st)(?lid := Dispatching now ps)\<rparr>"
  have lid': "?lid \<in> set (loop_ids (srv ?st))" using lid w'(4) by simp
  have ls': "loop_state_ok ?st ?lid" using w'(2) lid' by (simp add: reactor_inv_def)
  have "reactor_inv {} {} ?st' \<and> (\<forall>d. held ?st' d \<longleftrightarrow> held ?st d)"
    by (rule phase_change[where l = "loops w' ?lid" and p = "Dispatching now ps", OF w'(2) lid'])
      (use ls' ph in \<open>auto simp: tasks_of_def waiting_tasks_def loop_state_ok_def Let_def\<close>)
  with w'(1,3,5) ph show ?thesis by (intro exI[of _ ?st']) (simp add: loop_turn_def Let_def)
qed

end


text \<open>A functor leaves the rest of the vector before it is called: what it would still do is in its own hands.\<close>

definition own_hands :: "task \<Rightarrow> nat set" where
  "own_hands t = (case t of
     RemoveConnectionInLoop c \<Rightarrow> {c} | ConnTask (ConnectDestroyed c) \<Rightarrow> {c}
   | ConnTask (ConnectEstablished c) \<Rightarrow> {c} | _ \<Rightarrow> {})"

lemma begin_call:
  assumes inv: "reactor_inv {} {} st" and lid: "lid \<in> set (loop_ids (srv st))"
    and ph: "phase_of st lid = Calling called (t # rest)"
    and st': "st' = st\<lparr>phase_of := (phase_of st)(lid := Calling (called @ [t]) rest)\<rparr>"
  shows "reactor_inv (own_hands t) {} st'" "held st' d \<longleftrightarrow> held st d"
    "waiting_tasks st lid = t # waiting_tasks st' lid" "task_ok st lid t" "holder_of t = Some c \<Longrightarrow> held st' c"
    "t = ConnTask (ConnectDestroyed c) \<Longrightarrow> \<not> raw_waiting st' c"
proof -
  let ?w = "srv st"
  have ls: "loop_state_ok st lid" using inv lid by (simp add: reactor_inv_def)
  have w: "waiting_tasks st i = (if i = lid then t # waiting_tasks st' i else waiting_tasks st' i)" for i
    by (simp add: waiting_tasks_def st' ph)
  then show "waiting_tasks st lid = t # waiting_tasks st' lid" by simp
  show "task_ok st lid t" using ls w by (auto simp: loop_state_ok_def Let_def)
  show "\<not> raw_waiting st' c" if "t = ConnTask (ConnectDestroyed c)"
    using ls w[of lid] that \<open>task_ok st lid t\<close> by (auto simp: loop_state_ok_def Let_def raw_waiting_def st')
  have keep: "keeper st' d" if "keeper st d" "d \<notin> own_hands t" for d
    using that by (auto simp: keeper_def w own_hands_def st' split: if_splits)
  have raws: "raw_waiting st d" if "raw_waiting st' d" for d using that by (auto simp: raw_waiting_def w st')
  have "reactor_inv (own_hands t) {} st' \<and> (\<forall>d. held st' d \<longleftrightarrow> held st d)"
  proof (rule loop_change[OF inv lid, where l = "loops ?w lid" and p = "Calling (called @ [t]) rest" and ts = "[t]"])
    show "in_order st' c" if "in_order st c" "c \<notin> own_hands t" for c
      using that(1) keep[OF _ that(2)] raws[of c] that(2)
      unfolding in_order_def own_hands_def by (auto simp: w st' split: if_splits)
  qed (use ls in \<open>auto simp: st' tasks_of_def waiting_tasks_def ph loop_state_ok_def Let_def\<close>)
  then show "reactor_inv (own_hands t) {} st'" "held st' d \<longleftrightarrow> held st d" by auto
  show "held st' c" if "holder_of t = Some c"
  proof -
    have "t \<in> set (tasks_of st' lid)" by (simp add: tasks_of_def st')
    with lid that show ?thesis by (auto simp: held_def st')
  qed
qed

context server_threads
begin

lemma functor_turn:
  assumes inv: "reactor_inv {} {} st" and gd: "good (app_state (srv st))" and pl: "plausible tn st"
    and ph: "phase_of st (turn_loop tn) = Calling called (t # rest)" and hw: "\<And>c n. t \<noteq> ConnTask (HighWaterMark c False n)"
  shows "\<exists>st'. loop_turn k app tn st = Inr st' \<and> reactor_inv {} {} st' \<and>
    app_state (srv st') = app_state (srv st) \<and> (\<forall>d. held st d \<longrightarrow> held st' d)"
proof -
  let ?lid = "turn_loop tn" and ?w = "srv st" and ?l = "loops (srv st) (turn_loop tn)" and ?env = "turn_env tn"
  let ?tid = "threadId ?l"
  define st1 where "st1 = st\<lparr>phase_of := (phase_of st)(?lid := Calling (called @ [t]) rest)\<rparr>"
  have lid: "?lid \<in> set (loop_ids ?w)" using pl by (simp add: plausible_def)
  note bc = begin_call[OF inv lid ph st1_def]
  have st1: "srv st1 = ?w" "st1\<lparr>srv := w\<rparr> = st\<lparr>srv := w, phase_of := (phase_of st)(?lid := Calling (called @ [t]) rest)\<rparr>" for w
    by (simp_all add: st1_def)
  have "\<exists>w'. server_exec k (app ?tid) ?env ?tid t ?w = Inr w' \<and> reactor_inv {} {} (st1\<lparr>srv := w'\<rparr>) \<and>
    app_state w' = app_state ?w \<and> (\<forall>d. held (st1\<lparr>srv := w'\<rparr>) d \<longleftrightarrow> held st1 d)"
  proof -
    have ls: "loop_state_ok st ?lid" using inv lid by (simp add: reactor_inv_def)
    consider (complete) c where "t = ConnTask (WriteComplete c)" | (establish) c where "t = ConnTask (ConnectEstablished c)" |
      (destroy) c where "t = ConnTask (ConnectDestroyed c)" | (remove) c where "t = RemoveConnectionInLoop c" |
      (send) c s where "t = ConnTask (SendInLoop c s)" | (half) c where "t = ConnTask (ShutdownInLoop c)"
      using bc(4) hw by (cases "(st, ?lid, t)" rule: task_ok.cases) auto
    then show ?thesis
    proof cases
      case (complete c)
      have "live {} ?tid c st1"
        using bc(1,4,5) complete gd by (simp add: live_def st1(1) own_hands_def)
      moreover have "own_call_ok ?tid c ?w (on_writeComplete (app ?tid) c ?w)"
        using app_writeComplete[OF live_in[OF calculation]] calculation bc(4) complete
          held_ok[OF inv] bc(2,5) by (auto simp: live_def st1(1) conn_ok_def Let_def)
      ultimately show ?thesis
        using live_call[of "{}" ?tid c st1 "on_writeComplete (app ?tid) c ?w"] complete
        by (auto simp: st1(1) live_def kept_def)
    next
      case (establish c)
      have "count_list (waiting_tasks st ?lid) t \<le> 1"
        using ls establish by (simp add: loop_state_ok_def Let_def)
      then have "t \<notin> set (waiting_tasks st1 ?lid)" using bc(3) by (simp add: count_list_0_iff)
      with connectEstablished_step[of c st1 ?tid] bc(1,4,5) establish gd show ?thesis
        by (auto simp: st1(1) own_hands_def live_def kept_def)
    next
      case (destroy c)
      have "phase_of st1 ?lid = Calling (called @ [t]) rest" by (simp add: st1_def)
      moreover have "RemoveConnectionInLoop c \<in> set (waiting_tasks st1 (srv_loop ?w))" if "in_map ?w c"
      proof -
        have "held st c" using bc(2,5) destroy by simp
        from held_flags(8)[OF inv this] that bc(4) destroy have
          "RemoveConnectionInLoop c \<in> set (waiting_tasks st (srv_loop ?w))" by (simp add: in_order_def)
        then show ?thesis
          using bc(3) destroy by (cases "srv_loop ?w = ?lid") (simp_all add: st1_def waiting_tasks_def ph)
      qed
      ultimately show ?thesis
        using connectDestroyed_step[of c st1 ?tid] bc(1,4-6) destroy
        by (auto simp: st1(1) own_hands_def kept_def)
    next
      case (remove c)
      with removeConnectionInLoop_step[of "{c}" "{}" st1 c ?tid] bc(1,4,5) show ?thesis
        by (simp add: st1(1) own_hands_def kept_def)
    next
      case (send c s)
      have lv: "live {} ?tid c st1"
        using bc(1,2,4) send gd by (simp add: live_def st1(1) own_hands_def)
      from live_call[OF lv, of "sendInLoop_string k ?tid c s ?w"] send_functor_ok[OF live_in[OF lv] _ prefix] lv send
      show ?thesis by (auto simp: st1(1) live_def kept_def)
    next
      case (half c)
      have lv: "live {} ?tid c st1"
        using bc(1,2,4) half gd by (simp add: live_def st1(1) own_hands_def)
      from live_call[OF lv, of "Inr (shutdownInLoop c ?w)"] shutdown_functor_ok[OF live_in(2)[OF lv]] half
      show ?thesis by (auto simp: st1(1) live_def kept_def)
    qed
  qed
  moreover have "\<forall>c. raw_of t = Some c \<longrightarrow> held st c" using task_ok_raw[OF bc(4)] by blast
  ultimately obtain w' where alive: "\<forall>c. raw_of t = Some c \<longrightarrow> held st c" and "server_exec k (app ?tid) ?env ?tid t ?w = Inr w'" "reactor_inv {} {} (st1\<lparr>srv := w'\<rparr>)"
    "app_state w' = app_state ?w" "\<forall>d. held (st1\<lparr>srv := w'\<rparr>) d \<longleftrightarrow> held st1 d" by blast
  moreover from alive have "require OutOfBounds (\<forall>c. raw_of t = Some c \<longrightarrow> held st c) = Inr ()" by (simp add: require_def)
  ultimately show ?thesis
    using ph bc(2) by (intro exI[of _ "st1\<lparr>srv := w'\<rparr>"]) (simp add: loop_turn_def Let_def st1(2))
qed

end


text \<open>The sockets that the end of a turn closes, of connections whose descriptors no poller of their loop knows.\<close>

lemma end_turn_closes:
  assumes inv: "reactor_inv {} {} st" and pl: "plausible tn st" and ph: "phase_of st (turn_loop tn) = Calling called []"
    and run: "loop_turn k app tn st = Inr st'"
  shows "\<exists>cs. distinct cs \<and> set cs = {c. held st c \<and> \<not> held st' c} \<and>
    sock_log (srv st') = sock_log (srv st) @ map (\<lambda>c. SockClose (conn_fd (conns (srv st) c))) cs \<and>
    (\<forall>c \<in> set cs. channels (loops (srv st') (conn_loop (conns (srv st) c))) (conn_fd (conns (srv st) c)) = None)"
proof -
  let ?lid = "turn_loop tn" and ?w = "srv st" and ?l = "loops (srv st) (turn_loop tn)"
  have lid: "?lid \<in> set (loop_ids ?w)" using pl by (simp add: plausible_def)
  have ls: "loop_ok ?l" using inv lid by (auto simp: reactor_inv_def loop_state_ok_def Let_def)
  let ?w1 = "put_loop ?lid (set_calling False ?l) ?w"
  let ?st = "st\<lparr>srv := ?w1, phase_of := (phase_of st)(?lid := Calling called [])\<rparr>"
  have i: "reactor_inv {} {} ?st \<and> (\<forall>d. held ?st d \<longleftrightarrow> held st d)"
    by (rule phase_change[OF inv lid refl]) (simp_all add: tasks_of_def waiting_tasks_def ph ls)
  have more: "world.more ?w1 = world.more ?w" by simp
  have "?lid \<in> set (loop_ids (srv ?st))" using lid same_loop_ids[OF more] by simp
  note ds = drop_functors_step[OF i[THEN conjunct1] _ this, of called]
  have st': "st' = drop_functors ?lid called ?st" using run ph by (simp add: loop_turn_def Let_def)
  from ds i obtain cs where cs: "distinct cs" "set cs = {c. held st c \<and> \<not> held st' c}"
    "sock_log (srv st') = sock_log ?w @ map (\<lambda>c. SockClose (conn_fd (conns ?w c))) cs"
    by (auto simp: st')
  have w': "reactor_inv {} {} st'" "world.more (srv st') = world.more ?w" "loops (srv st') = loops ?w1"
    using ds by (simp_all add: st')
  have chan: "channels (loops (srv st') i) = channels (loops ?w i)" for i by (simp add: w'(3))
  have "channels (loops (srv st') (conn_loop (conns ?w c))) (conn_fd (conns ?w c)) = None" if "c \<in> set cs" for c
  proof (rule ccontr)
    assume "channels (loops (srv st') (conn_loop (conns ?w c))) (conn_fd (conns ?w c)) \<noteq> None"
    then obtain q where q: "channels (loops ?w (conn_loop (conns ?w c))) (conn_fd (conns ?w c)) = Some q" by (auto simp: chan)
    have c: "held st c" "\<not> held st' c" using that cs(2) by auto
    have l: "loop_ok (loops ?w (conn_loop (conns ?w c)))" "owns (own_channels st (conn_loop (conns ?w c))) (loops ?w (conn_loop (conns ?w c)))"
      using held_loop[OF inv c(1)] by (simp_all add: loop_state_ok_def Let_def)
    have "chan_fd (chans (loops ?w (conn_loop (conns ?w c))) (conn_channel (conns ?w c))) = conn_fd (conns ?w c)"
      using held_flags(9)[OF inv c(1)] by (simp add: chan_of_def loop_of_def)
    with owns_free[OF l held_channel[OF c(1)]] q have "q = conn_channel (conns ?w c)" by simp
    then have own: "chan_owner (srv st') (conn_loop (conns ?w c)) q = ConnOwner c"
      using held_flags(5)[OF inv c(1)] same_server[OF w'(2)] by simp
    have ids: "conn_loop (conns ?w c) \<in> set (loop_ids (srv st'))"
      using held_flags(4)[OF inv c(1)] same_loop_ids[OF w'(2)] by simp
    have "q \<in> ran (channels (loops (srv st') (conn_loop (conns ?w c))))" unfolding chan using q by (rule ranI)
    from active_channel(2)[OF w'(1) ids this] own c(2) show False by auto
  qed
  with cs show ?thesis by blast
qed

section \<open>Runs\<close>

text \<open>
  The only fault of a turn: it comes to a high-water-mark functor that was bound to an empty callback,
  which \<open>TcpServer\<close> leaves no way to set.
\<close>

definition empty_high_water :: "'z server_world_scheme reactor \<Rightarrow> nat \<Rightarrow> bool" where
  "empty_high_water st lid \<longleftrightarrow>
     (\<exists>called c n rest. phase_of st lid = Calling called (ConnTask (HighWaterMark c False n) # rest))"

text \<open>
  Beside the turns, any other thread may call \<open>send(Buffer*)\<close> and \<open>shutdown\<close> on a living connection, or stop a
  loop. Its test of \<open>state_\<close> and the functor it queues are one step.
\<close>

fun shared_op :: "conn_op \<Rightarrow> bool" where
  "shared_op (OpSendBuffer b) \<longleftrightarrow> op_fits (OpSendBuffer b)"
| "shared_op OpShutdown \<longleftrightarrow> True"
| "shared_op _ \<longleftrightarrow> False"

inductive reaches ::
  "kernel \<Rightarrow> (nat \<Rightarrow> 'z server_world_scheme user_code) \<Rightarrow> 'z server_world_scheme reactor \<Rightarrow>
   'z server_world_scheme reactor \<Rightarrow> bool" for k app where
  reaches_refl: "reaches k app st st"
| reaches_turn: "reaches k app st st' \<Longrightarrow> plausible tn st' \<Longrightarrow> loop_turn k app tn st' = Inr st'' \<Longrightarrow> reaches k app st st''"
| reaches_call: "reaches k app st st' \<Longrightarrow> held st' c \<Longrightarrow> \<not> isInLoopThread tid (loop_of c (srv st')) \<Longrightarrow> shared_op op \<Longrightarrow>
    conn_do k tid c op (srv st') = Inr w \<Longrightarrow> reaches k app st (st'\<lparr>srv := w\<rparr>)"
| reaches_quit: "reaches k app st st' \<Longrightarrow> lid \<in> set (loop_ids (srv st')) \<Longrightarrow>
    reaches k app st (st'\<lparr>srv := put_loop lid (loop_quit tid (loops (srv st') lid)) (srv st')\<rparr>)"

lemma queued_call:
  assumes "\<not> isInLoopThread tid (loop_of c w)" and "shared_op op"
  shows "conn_do k tid c op w = Inr (if conn_state (conns w c) = kConnected
    then case op of OpSendBuffer b \<Rightarrow> conn_queueInLoop tid c (SendInLoop c (readable b)) w
      | _ \<Rightarrow> conn_queueInLoop tid c (ShutdownInLoop c) (setState kDisconnecting c w) else w)"
  using assms by (cases op) (auto simp: send_buffer_def shutdown_def conn_runInLoop_def runInLoop_def get_loop_def
      conn_queueInLoop_def loop_of_def retrieveAllAsString_eq setState_def set_conn_def)

text \<open>The functor of a call that found the connection connected joins the queue.\<close>

lemma raw_queue_change:
  assumes inv: "reactor_inv {} W st" and c: "held st c" "raw_of (ConnTask t) = Some c" "holder_of (ConnTask t) = None"
    and up: "conn_state (conns (srv st) c) \<in> {kConnected, kDisconnecting}"
    and t: "task_ok st (conn_loop (conns (srv st) c)) (ConnTask t)"
  shows "reactor_inv {} W (st\<lparr>srv := conn_queueInLoop tid c t (srv st)\<rparr>) \<and>
    (\<forall>d. held (st\<lparr>srv := conn_queueInLoop tid c t (srv st)\<rparr>) d \<longleftrightarrow> held st d)"
proof (rule push_any_change[OF inv c(1) _ _ held_flags(4)[OF inv c(1)] t])
  have "\<forall>u \<in> set (waiting_tasks st (conn_loop (conns (srv st) c))). task_ok st (conn_loop (conns (srv st) c)) u"
    using held_loop[OF inv c(1)] by (simp add: loop_state_ok_def Let_def)
  then show "keeper st c \<and> ConnTask (ConnectDestroyed c) \<notin> set (waiting_tasks st (conn_loop (conns (srv st) c)))"
    using held_flags(7)[OF inv c(1)] up by (auto simp: keeper_def)
qed (use c in \<open>auto simp: conn_queueInLoop_def loop_of_def\<close>)

lemma other_thread_call:
  assumes inv: "reactor_inv {} {} st" and c: "held st c" and op: "shared_op op"
    and other: "\<not> isInLoopThread tid (loop_of c (srv st))"
  shows "\<exists>w. conn_do k tid c op (srv st) = Inr w \<and> reactor_inv {} {} (st\<lparr>srv := w\<rparr>) \<and>
    app_state w = app_state (srv st) \<and> (\<forall>d. held (st\<lparr>srv := w\<rparr>) d \<longleftrightarrow> held st d)"
proof -
  let ?w = "srv st"
  note run = queued_call[OF other op, of k]
  have ci: "conn_inv c ?w" using inv c by (simp add: reactor_inv_def)
  show ?thesis
  proof (cases "conn_state (conns ?w c) = kConnected")
    case False
    with run inv show ?thesis by simp
  next
    case up: True
    show ?thesis
    proof (cases op)
      case (OpSendBuffer b)
      let ?v = "conn_queueInLoop tid c (SendInLoop c (readable b)) ?w"
      have "app_state ?v = app_state ?w" by (rule same_app_state) (simp add: conn_queueInLoop_def)
      moreover have "reactor_inv {} {} (st\<lparr>srv := ?v\<rparr>)" "\<forall>d. held (st\<lparr>srv := ?v\<rparr>) d \<longleftrightarrow> held st d"
        using raw_queue_change[OF inv c, of "SendInLoop c (readable b)" tid] up c by simp_all
      moreover have "conn_do k tid c op ?w = Inr ?v" using run up OpSendBuffer by simp
      ultimately show ?thesis by blast
    next
      case OpShutdown
      let ?u = "setState kDisconnecting c ?w"
      let ?v = "conn_queueInLoop tid c (ShutdownInLoop c) ?u"
      have i: "reactor_inv {} {c} st" by (rule reactor_inv_mono[OF inv]) auto
      have u: "reactor_inv {} {c} (st\<lparr>srv := ?u\<rparr>) \<and> (\<forall>d. held (st\<lparr>srv := ?u\<rparr>) d \<longleftrightarrow> held st d)"
        by (rule quiet_change[OF i c]) (use up in \<open>simp_all add: setState_def same_identity_def\<close>)
      have "conn_inv c ?u" using ci up by (simp add: conn_inv_def chan_of_def loop_of_def setState_def)
      with reactor_inv_settle[OF u[THEN conjunct1]] have u0: "reactor_inv {} {} (st\<lparr>srv := ?u\<rparr>)" by simp
      have "app_state ?v = app_state ?w" by (rule same_app_state) (simp add: conn_queueInLoop_def setState_def)
      moreover have "reactor_inv {} {} (st\<lparr>srv := ?v\<rparr>)" "\<forall>d. held (st\<lparr>srv := ?v\<rparr>) d \<longleftrightarrow> held st d"
        using raw_queue_change[OF u0, of c "ShutdownInLoop c" tid] u c by (simp_all add: setState_def)
      moreover have "conn_do k tid c op ?w = Inr ?v" using run up OpShutdown by simp
      ultimately show ?thesis by blast
    qed (use op in auto)
  qed
qed

lemma loop_quit_fields [simp]:
  "chans (loop_quit tid l) = chans l" "channels (loop_quit tid l) = channels l" "ctl_log (loop_quit tid l) = ctl_log l"
  "loop_id (loop_quit tid l) = loop_id l" "pendingFunctors (loop_quit tid l) = pendingFunctors l"
  by (simp_all add: loop_quit_def quit_set_def quit_wake_def wakeup_def Let_def)

lemma quit_change:
  assumes inv: "reactor_inv {} {} st" and lid: "lid \<in> set (loop_ids (srv st))"
    and w: "w = put_loop lid (loop_quit tid (loops (srv st) lid)) (srv st)"
  shows "reactor_inv {} {} (st\<lparr>srv := w\<rparr>) \<and> app_state w = app_state (srv st) \<and>
    (\<forall>d. held (st\<lparr>srv := w\<rparr>) d \<longleftrightarrow> held st d)"
proof -
  let ?l = "loops (srv st) lid"
  have ls: "loop_state_ok st lid" using inv lid by (simp add: reactor_inv_def)
  have "loop_ok (loop_quit tid ?l)" using ls by (subst loop_ok_cong[of _ ?l]) (simp_all add: loop_state_ok_def Let_def)
  moreover have "st\<lparr>srv := w\<rparr> = st\<lparr>srv := w, phase_of := (phase_of st)(lid := phase_of st lid)\<rparr>" by simp
  moreover have "set ps \<subseteq> ran (channels (loop_quit tid ?l))" if "phase_of st lid = Dispatching now ps" for now ps
    using ls that by (simp add: loop_state_ok_def Let_def)
  ultimately have "reactor_inv {} {} (st\<lparr>srv := w\<rparr>) \<and> (\<forall>d. held (st\<lparr>srv := w\<rparr>) d \<longleftrightarrow> held st d)"
    unfolding w by (intro phase_change[OF inv lid, where l = "loop_quit tid ?l" and p = "phase_of st lid"])
      (simp_all add: tasks_of_def waiting_tasks_def)
  moreover have "app_state w = app_state (srv st)" by (rule same_app_state) (simp add: w)
  ultimately show ?thesis by blast
qed

context server_threads
begin

lemma turn_ok:
  assumes inv: "reactor_inv {} {} st" and gd: "good (app_state (srv st))" and pl: "plausible tn st"
    and hw: "\<not> empty_high_water st (turn_loop tn)"
  shows "\<exists>st'. loop_turn k app tn st = Inr st' \<and> reactor_inv {} {} st' \<and> app_state (srv st') = app_state (srv st) \<and>
    ((\<forall>called. phase_of st (turn_loop tn) \<noteq> Calling called []) \<longrightarrow> (\<forall>d. held st d \<longrightarrow> held st' d))"
proof (cases "phase_of st (turn_loop tn)")
  case Waiting
  with waiting_turn[OF inv pl Waiting, of k app] show ?thesis by auto
next
  case (Dispatching now active)
  show ?thesis
  proof (cases active)
    case Nil
    with Dispatching swap_turn[OF inv pl, of now k app] show ?thesis by auto
  next
    case (Cons ptr ps)
    with Dispatching channel_turn[OF inv gd pl, of now ptr ps] show ?thesis by auto
  qed
next
  case (Calling called rest)
  show ?thesis
  proof (cases rest)
    case Nil
    with Calling end_turn[OF inv pl, of called k app] show ?thesis by auto
  next
    case (Cons t ts)
    with Calling hw have "\<And>c n. t \<noteq> ConnTask (HighWaterMark c False n)" by (auto simp: empty_high_water_def)
    with Calling Cons functor_turn[OF inv gd pl, of called t ts] show ?thesis by auto
  qed
qed

lemma high_water_turn:
  "empty_high_water st (turn_loop tn) \<Longrightarrow> loop_turn k app tn st = Inl BadFunctionCall"
  by (auto simp: empty_high_water_def loop_turn_def Let_def call_callback_def)

lemma reaches_ok:
  "reaches k app st st' \<Longrightarrow> reactor_inv {} {} st \<Longrightarrow> good (app_state (srv st)) \<Longrightarrow>
     reactor_inv {} {} st' \<and> app_state (srv st') = app_state (srv st)"
proof (induction rule: reaches.induct)
  case (reaches_turn st st' tn st'')
  then have i: "reactor_inv {} {} st'" "app_state (srv st') = app_state (srv st)" by auto
  have "\<not> empty_high_water st' (turn_loop tn)" using high_water_turn[of st' tn] reaches_turn(3) by auto
  with turn_ok[OF i(1) _ reaches_turn(2)] i(2) reaches_turn(3,6) show ?case by auto
next
  case (reaches_call st st' c tid op w)
  then have i: "reactor_inv {} {} st'" "app_state (srv st') = app_state (srv st)" by auto
  with other_thread_call[OF i(1) reaches_call(2,4,3), of k] reaches_call(5) show ?case by auto
next
  case (reaches_quit st st' lid tid)
  then have i: "reactor_inv {} {} st'" "app_state (srv st') = app_state (srv st)" by auto
  with quit_change[OF i(1) reaches_quit(2) refl, of tid] show ?case by auto
qed simp

end

text \<open>Nothing left to do: every loop waits, and no functor is queued. Then exactly the entries of the map are alive.\<close>

definition quiescent :: "'z server_world_scheme reactor \<Rightarrow> bool" where
  "quiescent st \<longleftrightarrow> (\<forall>lid \<in> set (loop_ids (srv st)). phase_of st lid = Waiting \<and> pendingFunctors (loops (srv st) lid) = [])"

lemma quiet_held:
  assumes inv: "reactor_inv {} {} st" and "quiescent st" and c: "held st c"
  shows "in_map (srv st) c" "conn_state (conns (srv st) c) \<in> {kConnected, kDisconnecting}"
proof -
  have none: "tasks_of st lid = []" "waiting_tasks st lid = []" if "lid \<in> set (loop_ids (srv st))" for lid
    using assms(2) that by (simp_all add: quiescent_def tasks_of_def waiting_tasks_def)
  then show m: "in_map (srv st) c" using c by (auto simp: held_def)
  have ids: "srv_loop (srv st) \<in> set (loop_ids (srv st))" "conn_loop (conns (srv st) c) \<in> set (loop_ids (srv st))"
    using held_flags(4)[OF inv c] by (simp_all add: loop_ids_def)
  from held_flags(8)[OF inv c] m none[OF ids(1)] none[OF ids(2)]
  show "conn_state (conns (srv st) c) \<in> {kConnected, kDisconnecting}"
    by (cases "conn_state (conns (srv st) c)") (simp_all add: in_order_def)
qed


section \<open>A server that starts\<close>

definition at_rest :: "'z server_world_scheme \<Rightarrow> 'z server_world_scheme reactor" where
  "at_rest w = \<lparr>srv = w, phase_of = \<lambda>_. Waiting\<rparr>"

lemma at_rest_simps [simp]: "srv (at_rest w) = w" "phase_of (at_rest w) lid = Waiting"
  by (simp_all add: at_rest_def)

lemma rest_inv:
  assumes "server_ok w" and "connections w = Map.empty"
    and loops: "\<And>lid. lid \<in> set (loop_ids w) \<Longrightarrow> loop_ok (loops w lid) \<and> loop_id (loops w lid) = lid \<and>
      pendingFunctors (loops w lid) = [] \<and> chan_owner w lid wakeup_ptr = WakeupOwner \<and>
      owns ({wakeup_ptr} \<union> (if lid = srv_loop w then {acc_channel (srv_acceptor w)} else {})) (loops w lid)"
  shows "reactor_inv {} {} (at_rest w)" "\<not> held (at_rest w) c" "quiescent (at_rest w)"
proof -
  show "quiescent (at_rest w)" using loops by (simp add: quiescent_def)
  have tasks: "tasks_of (at_rest w) i = []" "waiting_tasks (at_rest w) i = []" if "i \<in> set (loop_ids w)" for i
    using loops[OF that] by (simp_all add: tasks_of_def waiting_tasks_def)
  then show nh: "\<not> held (at_rest w) c" for c using assms(2) by (auto simp: held_def in_map_def)
  then have "own_channels (at_rest w) i = {wakeup_ptr} \<union> (if i = srv_loop w then {acc_channel (srv_acceptor w)} else {})" for i
    by (simp add: own_channels_def)
  then have "loop_state_ok (at_rest w) i" if "i \<in> set (loop_ids w)" for i
    using loops[OF that] tasks[OF that] by (simp add: loop_state_ok_def Let_def)
  with nh assms(1) show "reactor_inv {} {} (at_rest w)" by (simp add: reactor_inv_def)
qed

text \<open>The first \<open>start\<close> of a server with threads leaves its threads in order.\<close>

lemma server_start_inv:
  fixes w :: "'z server_world_scheme"
  assumes start: "server_start k False init spawn m 0 tid w = Inr w'"
    and k: "\<And>lid. accepts_legal (k_ctl k lid)" and "\<And>i. 0 \<le> sp_epollfd (spawn i) \<and> 0 \<le> sp_eventfd (spawn i)"
    and "inj (\<lambda>i. sp_loop (spawn i))" and "\<And>i. sp_loop (spawn i) \<noteq> srv_loop w"
    and "0 < numThreads (srv_pool w)" and "srv_pool w = setThreadNum n (new_thread_pool (srv_loop w) nm)"
    and "srv_started w = 0" and "\<not> srv_threadInitCallback_set w" and "acc_loop (srv_acceptor w) = srv_loop w"
    and base: "loop_ok (loops w (srv_loop w))" "owns {wakeup_ptr, acc_channel (srv_acceptor w)} (loops w (srv_loop w))"
    and "chan_events (chans (loops w (srv_loop w)) (acc_channel (srv_acceptor w))) = kNoneEvent"
    and "threadId (loops w (srv_loop w)) = tid" and idle: "pendingFunctors (loops w (srv_loop w)) = []"
      "loop_id (loops w (srv_loop w)) = srv_loop w"
    and owner: "\<And>lid. chan_owner w lid wakeup_ptr = WakeupOwner"
      "chan_owner w (srv_loop w) (acc_channel (srv_acceptor w)) = AcceptorOwner"
    and sw: "newConnectionCallback_set (srv_acceptor w)" "srv_connectionCallback_set w" "srv_messageCallback_set w"
      "nextConnId w = 1" "length (srv_ipPort w) \<le> 21" "connections w = Map.empty"
  shows "reactor_inv {} {} (at_rest w')" "app_state w' = app_state w" "\<not> held (at_rest w') c"
    "set (loop_ids w') = insert (srv_loop w) ((\<lambda>i. sp_loop (spawn i)) ` {..<nat n})"
    "quiescent (at_rest w')" "\<exists>fd. channels (loops w' (srv_loop w')) fd = Some (acc_channel (srv_acceptor w'))"
proof -
  let ?b = "srv_loop w" and ?a = "srv_acceptor w" and ?ptr = "acc_channel (srv_acceptor w)"
  let ?l = "updated ?ptr kReadEvent (loops w ?b)"
  have pool: "pool_loops (srv_pool w) = []" "next_loop (srv_pool w) = 0" "baseLoop (srv_pool w) = ?b"
    "numThreads (srv_pool w) = n"
    by (simp_all add: assms(7) setThreadNum_def new_thread_pool_def)
  from server_start_runs[OF k assms(3-6) pool(1,2) assms(8-10) base _ assms(13,14), of init m] start
  obtain w1 p where w': "w' = put_loop ?b ?l (log_sock (SockListen (acc_fd ?a))
        (w1\<lparr>srv_pool := p, srv_acceptor := ?a\<lparr>listenning := True\<rparr>\<rparr>))"
    and w1: "world.more w1 = world.more (w\<lparr>srv_started := 1\<rparr>)" "pool_wf p"
      "pool_loops p = map (\<lambda>i. sp_loop (spawn i)) [0..<nat n]" "baseLoop p = ?b"
      "\<And>i. i < nat n \<Longrightarrow> loop_ok (loops w1 (sp_loop (spawn i))) \<and> idle_loop (sp_loop (spawn i)) (loops w1 (sp_loop (spawn i)))"
    unfolding pool by auto
  have "world.more w' = world.more (w1\<lparr>srv_pool := p, srv_acceptor := ?a\<lparr>listenning := True\<rparr>\<rparr>)" by (simp add: w')
  note sv = same_server[OF w1(1)] and sv' = same_server[OF this] and ap = same_app_state[OF this]
  show "app_state w' = app_state w"
    unfolding ap using same_app_state[OF w1(1)] by (simp add: app_state_def)
  have ids: "loop_ids w' = ?b # map (\<lambda>i. sp_loop (spawn i)) [0..<nat n]"
    by (simp add: loop_ids_def sv sv' w1)
  then show "set (loop_ids w') = insert ?b ((\<lambda>i. sp_loop (spawn i)) ` {..<nat n})"
    by (auto simp: atLeast0LessThan)
  have ok: "server_ok w'"
    unfolding server_ok_def using w1(2,4) assms(10) owner sw by (simp add: sv' sv)
  have conns: "connections w' = Map.empty" by (simp add: sv sv' sw)
  have legal: "accepts_legal (\<lambda>_ _. 0)" by (simp add: accepts_legal_def)
  note step = channel_update_step(2,3)[OF base _ legal refl, of ?ptr kReadEvent, simplified]
  have lw: "loops w' = (loops w1)(?b := ?l)" by (simp add: w')
  have loops: "loop_ok (loops w' lid) \<and> loop_id (loops w' lid) = lid \<and> pendingFunctors (loops w' lid) = [] \<and>
      chan_owner w' lid wakeup_ptr = WakeupOwner \<and>
      owns ({wakeup_ptr} \<union> (if lid = srv_loop w' then {acc_channel (srv_acceptor w')} else {})) (loops w' lid)"
    if "lid \<in> set (loop_ids w')" for lid
  proof (cases "lid = ?b")
    case True
    have "loop_id ?l = ?b" "pendingFunctors ?l = []"
      using idle by (simp_all add: same_more[OF updated_more])
    with True step show ?thesis by (simp add: lw sv sv' owner insert_commute)
  next
    case False
    from that have "lid \<in> insert ?b ((\<lambda>i. sp_loop (spawn i)) ` {..<nat n})" unfolding ids by (auto simp: atLeast0LessThan)
    with False obtain i where i: "lid = sp_loop (spawn i)" "i < nat n" by blast
    with w1(5)[OF i(2)] False show ?thesis by (simp add: lw idle_loop_def sv sv' owner)
  qed
  from rest_inv[OF ok conns loops] show "reactor_inv {} {} (at_rest w')" "\<not> held (at_rest w') c" "quiescent (at_rest w')" by auto
  show "\<exists>fd. channels (loops w' (srv_loop w')) fd = Some (acc_channel (srv_acceptor w'))"
    by (rule exI[of _ "chan_fd (chans (loops w ?b) ?ptr)"]) (simp add: sv sv' lw updated_fields(10))
qed


section \<open>Calls from other threads\<close>


text \<open>A base loop without threads beside it, and one connection.\<close>

definition demo_living :: "server_world reactor" where
  "demo_living = at_rest (demo_server\<lparr>loops := \<lambda>_. demo_loop, nextConnId := 2,
     srv_acceptor := \<lparr>acc_loop = 1, acc_fd = 4, acc_channel = 4, newConnectionCallback_set = True, listenning = True\<rparr>,
     chan_owner := \<lambda>l p. if p = 0 then WakeupOwner else if p = 4 then AcceptorOwner else ConnOwner 0,
     conns := \<lambda>_. demo_conn\<lparr>conn_name := name_of demo_server 1\<rparr>, connections := [name_of demo_server 1 \<mapsto> 0]\<rparr>)"

lemma demo_living_facts:
  "reactor_inv {} {} demo_living" "held demo_living 0" "threadId (loop_of 0 (srv demo_living)) = 7"
  "conn_state (conns (srv demo_living) 0) = kConnected" "conn_loop (conns (srv demo_living) 0) = 1"
proof -
  let ?w = "srv demo_living"
  have w: "loops ?w = (\<lambda>_. demo_loop)" "conns ?w = (\<lambda>_. demo_conn\<lparr>conn_name := name_of demo_server 1\<rparr>)"
    "srv_loop ?w = 1" "loop_ids ?w = [1]" "nextConnId ?w = 2" "connections ?w = [name_of demo_server 1 \<mapsto> 0]"
    "chan_owner ?w = (\<lambda>l p. if p = 0 then WakeupOwner else if p = 4 then AcceptorOwner else ConnOwner 0)"
    "acc_channel (srv_acceptor ?w) = 4" "phase_of demo_living = (\<lambda>_. Waiting)" "name_of ?w i = name_of demo_server i"
    "srv_writeCompleteCallback_set ?w = False" for i
    by (simp_all add: demo_living_def at_rest_def demo_server_def loop_ids_def new_thread_pool_def name_of_def)
  have c: "conn_loop demo_conn = 1" "conn_channel demo_conn = 5" "conn_fd demo_conn = 5" "conn_state demo_conn = kConnected"
    "connectionCallback_set demo_conn" "messageCallback_set demo_conn" "closeCallback_set demo_conn"
    "\<not> highWaterMarkCallback_set demo_conn" "\<not> writeCompleteCallback_set demo_conn"
    "inputBuffer demo_conn = new_buffer 16" "outputBuffer demo_conn = new_buffer 16"
    by (simp_all add: demo_conn_def)
  have l: "channels demo_loop = Map.empty" "chans demo_loop 5 = new_channel 1 5" "pendingFunctors demo_loop = []"
    "loop_id demo_loop = 1" "threadId demo_loop = 7"
    by (simp_all add: demo_loop_def)
  show facts: "threadId (loop_of 0 ?w) = 7" "conn_state (conns ?w 0) = kConnected" "conn_loop (conns ?w 0) = 1"
    by (simp_all add: loop_of_def w c l)
  have map: "in_map ?w d \<longleftrightarrow> d = 0" for d by (auto simp: in_map_def w)
  have none: "tasks_of demo_living i = []" "waiting_tasks demo_living i = []" for i
    by (simp_all add: tasks_of_def waiting_tasks_def w l)
  have held: "held demo_living d \<longleftrightarrow> d = 0" for d by (simp add: held_def map none)
  then show "held demo_living 0" by simp
  have own: "own_channels demo_living 1 = {0, 4, 5}" by (auto simp: own_channels_def w c held wakeup_ptr_def)
  have "owns {0, 4, 5} demo_loop" by (auto simp: owns_def demo_loop_def new_channel_def inj_on_def)
  then have "loop_state_ok demo_living 1"
    using demo_loop_ok(1) by (simp add: loop_state_ok_def Let_def w l own[simplified] none wakeup_ptr_def)
  moreover have ch: "chan_of 0 ?w = new_channel 1 5" by (simp add: chan_of_def loop_of_def w c l)
  then have "conn_inv 0 ?w" by (simp add: conn_inv_def w c isWriting_def new_channel_def has_bits_def kNoneEvent_def)
  moreover have "\<not> registered ?w 0" "\<not> raw_waiting demo_living 0"
    by (simp_all add: registered_def raw_waiting_def loop_of_def w l none)
  then have "in_order demo_living 0" by (simp add: in_order_def w c)
  with ch map have "conn_ok {} demo_living 0"
    unfolding conn_ok_def Let_def by (simp add: w c new_channel_def) (rule bexI[of _ 1]; simp)
  moreover have "server_ok ?w"
    by (simp add: server_ok_def demo_living_def demo_server_def new_thread_pool_def pool_wf_def)
  ultimately show "reactor_inv {} {} demo_living" by (simp add: reactor_inv_def w held)
qed



text \<open>What the test of \<open>state_\<close> and the queueing are worth as one step: a thread that made the test while the connection was
  connected, and queues the functor when the connection is gone, makes the loop use a dead object. The loop polls
  once, swaps and calls.\<close>

theorem late_functor_dangles:
  assumes "phase_of st lid = Waiting" and "pendingFunctors (loops (srv st) lid) = []" and "\<not> quit_flag (loops (srv st) lid)"
    and "conn_loop (conns (srv st) c) = lid" and gone: "\<not> held st c" and t: "t \<in> {SendInLoop c s, ShutdownInLoop c}"
    and "turn_loop tn = lid" and "turn_epoll tn = Inr []"
  shows "foldR (loop_turn k app) [tn, tn, tn] (st\<lparr>srv := conn_queueInLoop tid c t (srv st)\<rparr>) = Inl OutOfBounds"
proof -
  define w where "w = conn_queueInLoop tid c t (srv st)"
  let ?l = "(set_calling True (loops w lid))\<lparr>pendingFunctors := []\<rparr>"
  let ?st = "st\<lparr>srv := put_loop lid ?l w, phase_of := (phase_of st)(lid := Calling [] [ConnTask t])\<rparr>"
  have raw: "holder_of (ConnTask t) = None" "raw_of (ConnTask t) = Some c" using t by auto
  have more: "world.more (srv ?st) = world.more (srv st)" by (simp add: w_def conn_queueInLoop_def)
  have "tasks_of ?st i = (if i = lid then [ConnTask t] else tasks_of st i)" for i
    by (simp add: w_def tasks_of_def conn_queueInLoop_def assms(4))
  moreover have "tasks_of st lid = []" using assms(1,2) by (simp add: tasks_of_def)
  moreover have "conns (srv ?st) = conns (srv st)" "connections (srv ?st) = connections (srv st)"
    by (simp add: w_def conn_queueInLoop_def, rule same_server[OF more])
  then have "in_map (srv ?st) c = in_map (srv st) c" by (simp only: in_map_def)
  ultimately have "held ?st c \<Longrightarrow> held st c"
    unfolding held_def same_loop_ids[OF more] using raw(1) by (auto split: if_splits)
  with gone have dead: "\<not> held ?st c" by blast
  have q: "pendingFunctors (loops w lid) = [ConnTask t]" "quit_flag (loops w lid) = False"
    using assms(2,3) by (simp_all add: w_def conn_queueInLoop_def loop_of_def assms(4))
  define st0 where "st0 = st\<lparr>srv := w\<rparr>"
  have 1: "loop_turn k app tn st0 = Inr (st0\<lparr>phase_of := (phase_of st)(lid := Dispatching (turn_now tn) [])\<rparr>)"
    using assms(1,7,8) q(2) by (simp add: loop_turn_def Let_def poller_poll_def st0_def)
  have 2: "loop_turn k app tn (st0\<lparr>phase_of := (phase_of st)(lid := Dispatching (turn_now tn) [])\<rparr>) = Inr ?st"
    using assms(7) q(1) by (simp add: loop_turn_def Let_def swap_pending_def st0_def)
  have 3: "loop_turn k app tn ?st = Inl OutOfBounds"
    using assms(7) dead raw(2) by (simp add: loop_turn_def Let_def)
  show ?thesis using 1 2 3 by (simp add: st0_def w_def)
qed

theorem late_functor_dangles_witness:
  "\<exists>tn. foldR (loop_turn demo_kernel (\<lambda>_. quiet_user)) [tn, tn, tn]
     (demo_living\<lparr>srv := conn_queueInLoop 8 1 (ShutdownInLoop 1) (srv demo_living)\<rparr>) = Inl OutOfBounds"
proof -
  let ?tn = "\<lparr>turn_loop = 1, turn_epoll = Inr [], turn_now = Timestamp 1, turn_env = demo_env\<rparr>"
  have "\<not> held demo_living 1"
    by (simp add: held_def in_map_def tasks_of_def demo_living_def demo_server_def demo_loop_def)
  moreover have "phase_of demo_living 1 = Waiting" "pendingFunctors (loops (srv demo_living) 1) = []"
    "\<not> quit_flag (loops (srv demo_living) 1)" "conn_loop (conns (srv demo_living) 1) = 1"
    by (simp_all add: demo_living_def demo_loop_def demo_conn_def)
  ultimately have "foldR (loop_turn demo_kernel (\<lambda>_. quiet_user)) [?tn, ?tn, ?tn]
     (demo_living\<lparr>srv := conn_queueInLoop 8 1 (ShutdownInLoop 1) (srv demo_living)\<rparr>) = Inl OutOfBounds"
    by (intro late_functor_dangles) simp_all
  then show ?thesis by blast
qed

end
