(* ===== verification/Built_Server.thy ===== *)
theory Built_Server
  imports Reactor_Turn
begin

text \<open>
  A server from its constructor to its running threads, whatever the application: a server that an application
  has constructed on a fresh loop and given its two callbacks can be started, and then its threads are in order,
  which the turns of its loops keep. The HTTP server and the chat server instantiate this.
\<close>

section \<open>The kernels\<close>

text \<open>The kernels a server relies on: they accept a legal \<open>epoll_ctl\<close>, and a \<open>write\<close> takes some prefix.\<close>

typedef fair_kernel = "{k. (\<forall>lid. accepts_legal (k_ctl k lid)) \<and> takes_prefix k}"
  morphisms kernel_of fair
proof
  show "demo_kernel \<in> {k. (\<forall>lid. accepts_legal (k_ctl k lid)) \<and> takes_prefix k}"
    using demo_world_facts(4) by (simp add: demo_kernel_def accepts_legal_def)
qed

lemma fair_kernel_laws [simp]: "accepts_legal (k_ctl (kernel_of K) lid)" "takes_prefix (kernel_of K)"
  using kernel_of[of K] by auto

lemma kernel_cases:
  assumes "\<And>lid. accepts_legal (k_ctl k lid)" and "takes_prefix k"
  obtains K where "k = kernel_of K"
  using that[of "fair k"] fair_inverse[of k] assms by simp

section \<open>A server that has been built\<close>

text \<open>
  The world that a server's constructor leaves, on an event loop that the thread \<open>tid\<close> has just made, after the
  connection and message callbacks and the number \<open>n\<close> of threads have been set. The addresses of the loop and of
  the acceptor's channel are the allocator's, the descriptors the kernel's.
\<close>

definition fresh_server :: "kernel \<Rightarrow> nat \<Rightarrow> int \<Rightarrow> 'z server_world_scheme \<Rightarrow> bool" where
  "fresh_server k tid n w \<longleftrightarrow>
     (\<exists>epollfd evtfd base ptr sockfd nm.
        0 \<le> epollfd \<and> 0 \<le> evtfd \<and>
        new_event_loop (k_ctl k (srv_loop w)) False epollfd evtfd False (srv_loop w) tid = Inr base \<and>
        ptr \<noteq> wakeup_ptr \<and> sockfd \<noteq> evtfd \<and>
        loops w (srv_loop w) = set_chan ptr (new_channel (srv_loop w) sockfd) base \<and>
        srv_acceptor w = \<lparr>acc_loop = srv_loop w, acc_fd = sockfd, acc_channel = ptr,
          newConnectionCallback_set = True, listenning = False\<rparr> \<and>
        (\<forall>l p. chan_owner w l p =
          (if l = srv_loop w \<and> p = ptr then AcceptorOwner else if p = wakeup_ptr then WakeupOwner else NoOwner)) \<and>
        srv_pool w = setThreadNum n (new_thread_pool (srv_loop w) nm)) \<and>
     srv_connectionCallback_set w \<and> srv_messageCallback_set w \<and> \<not> srv_threadInitCallback_set w \<and>
     srv_started w = 0 \<and> nextConnId w = 1 \<and> connections w = Map.empty \<and> length (srv_ipPort w) \<le> 21"

text \<open>What the system gives the threads that \<open>start\<close> creates.\<close>

definition spawns_for :: "(nat \<Rightarrow> spawned) \<Rightarrow> 'z server_world_scheme \<Rightarrow> bool" where
  "spawns_for spawn w \<longleftrightarrow>
     (\<forall>i. 0 \<le> sp_epollfd (spawn i) \<and> 0 \<le> sp_eventfd (spawn i) \<and> sp_loop (spawn i) \<noteq> srv_loop w) \<and>
     inj (\<lambda>i. sp_loop (spawn i))"

text \<open>What the kernel and the allocator give a \<open>main\<close> that makes a loop and a server: descriptors and distinct addresses.\<close>

definition main_given :: "nat \<Rightarrow> int \<Rightarrow> int \<Rightarrow> nat \<Rightarrow> int \<Rightarrow> (nat \<Rightarrow> spawned) \<Rightarrow> bool" where
  "main_given lid epollfd evtfd ptr sockfd spawn \<longleftrightarrow>
     0 \<le> epollfd \<and> 0 \<le> evtfd \<and> 0 \<le> sockfd \<and> ptr \<noteq> wakeup_ptr \<and> sockfd \<noteq> evtfd \<and>
     (\<forall>i. 0 \<le> sp_epollfd (spawn i) \<and> 0 \<le> sp_eventfd (spawn i) \<and> sp_loop (spawn i) \<noteq> lid) \<and>
     inj (\<lambda>i. sp_loop (spawn i))"

text \<open>The constructor of \<open>TcpServer\<close>, seen from the application that has called it.\<close>

lemma new_tcp_server_facts:
  assumes "new_tcp_server (Some b) ptr addr nm option sockfd rc w0 = Inr w"
  shows "loops w = (loops w0)(b := set_chan ptr (new_channel b sockfd) (loops w0 b))" "srv_loop w = b"
    "srv_acceptor w = \<lparr>acc_loop = b, acc_fd = sockfd, acc_channel = ptr, newConnectionCallback_set = True, listenning = False\<rparr>"
    "chan_owner w l p = (if l = b \<and> p = ptr then AcceptorOwner else if p = wakeup_ptr then WakeupOwner else NoOwner)"
    "srv_pool w = new_thread_pool b nm" "\<not> srv_writeCompleteCallback_set w" "\<not> srv_threadInitCallback_set w"
    "srv_started w = 0" "nextConnId w = 1" "connections w = Map.empty" "length (srv_ipPort w) \<le> 21"
  using assms(1) toIPport_facts[of addr]
  by (auto simp: new_tcp_server_def CheckLoopNotNull_def bindR_eq_Inr
      new_acceptor_def socket_bindAddress_def socket_setReuseAddr_def socket_setKeepAlive_def log_sock_def put_loop_def
      createNoneBlockingOrDie_def Let_def split: if_splits)

lemma fresh_server_facts:
  assumes "fresh_server k tid n w" and k: "\<And>lid. accepts_legal (k_ctl k lid)"
  shows "loop_ok (loops w (srv_loop w))" "owns {wakeup_ptr, acc_channel (srv_acceptor w)} (loops w (srv_loop w))"
    "chan_events (chans (loops w (srv_loop w)) (acc_channel (srv_acceptor w))) = kNoneEvent"
    "threadId (loops w (srv_loop w)) = tid" "pendingFunctors (loops w (srv_loop w)) = []"
    "loop_id (loops w (srv_loop w)) = srv_loop w" "\<And>l. chan_owner w l wakeup_ptr = WakeupOwner"
    "chan_owner w (srv_loop w) (acc_channel (srv_acceptor w)) = AcceptorOwner"
    "newConnectionCallback_set (srv_acceptor w)" "acc_loop (srv_acceptor w) = srv_loop w"
    "\<exists>nm. srv_pool w = setThreadNum n (new_thread_pool (srv_loop w) nm)"
    "srv_connectionCallback_set w" "srv_messageCallback_set w"
    "\<not> srv_threadInitCallback_set w" "srv_started w = 0" "nextConnId w = 1" "connections w = Map.empty"
    "length (srv_ipPort w) \<le> 21"
proof -
  let ?b = "srv_loop w"
  from assms(1) obtain epollfd evtfd base ptr sockfd nm where
    made: "0 \<le> epollfd" "0 \<le> evtfd" "new_event_loop (k_ctl k ?b) False epollfd evtfd False ?b tid = Inr base"
      "ptr \<noteq> wakeup_ptr" "sockfd \<noteq> evtfd" "loops w ?b = set_chan ptr (new_channel ?b sockfd) base"
    and acc: "srv_acceptor w = \<lparr>acc_loop = ?b, acc_fd = sockfd, acc_channel = ptr,
          newConnectionCallback_set = True, listenning = False\<rparr>"
    and owner: "\<And>l p. chan_owner w l p =
          (if l = ?b \<and> p = ptr then AcceptorOwner else if p = wakeup_ptr then WakeupOwner else NoOwner)"
    and pool: "srv_pool w = setThreadNum n (new_thread_pool ?b nm)"
    unfolding fresh_server_def by blast
  from new_event_loop_facts[OF k made(1,2), of ?b ?b tid] obtain l' :: "task event_loop" where
    l': "new_event_loop (k_ctl k ?b) False epollfd evtfd False ?b tid = Inr l'" "loop_ok l'" "pendingFunctors l' = []"
      "threadId l' = tid" "loop_id l' = ?b" "channels l' = [evtfd \<mapsto> wakeup_ptr]" "owns {wakeup_ptr} l'" by blast
  have "l' = base" using l'(1) made(3) by simp
  note lf = l'(2-7)[unfolded this]
  have "chan_fd (chans base wakeup_ptr) = evtfd"
    using lf(1,5) unfolding loop_ok_def poller_inv_def index_ok_def by (metis fun_upd_same)
  with add_channel[OF lf(1,6) _ _ lf(4), of ptr sockfd] made(4,5)
  show "loop_ok (loops w ?b)" "owns {wakeup_ptr, acc_channel (srv_acceptor w)} (loops w ?b)"
    by (auto simp: made(6) acc insert_commute)
  show "chan_events (chans (loops w ?b) (acc_channel (srv_acceptor w))) = kNoneEvent"
    by (simp add: made(6) acc new_channel_def kNoneEvent_def)
  show "threadId (loops w ?b) = tid" "pendingFunctors (loops w ?b) = []" "loop_id (loops w ?b) = ?b"
    using lf(2-4) by (simp_all add: made(6))
  show "chan_owner w l wakeup_ptr = WakeupOwner" for l using made(4) by (simp add: owner)
  show "chan_owner w ?b (acc_channel (srv_acceptor w)) = AcceptorOwner"
    "newConnectionCallback_set (srv_acceptor w)" "acc_loop (srv_acceptor w) = ?b"
    "\<exists>nm. srv_pool w = setThreadNum n (new_thread_pool ?b nm)"
    by (auto simp: owner acc pool)
  show "srv_connectionCallback_set w" "srv_messageCallback_set w"
    "\<not> srv_threadInitCallback_set w" "srv_started w = 0" "nextConnId w = 1" "connections w = Map.empty"
    "length (srv_ipPort w) \<le> 21"
    using assms(1) unfolding fresh_server_def by blast+
qed

section \<open>Started\<close>

text \<open>\<open>start\<close> succeeds, and leaves the threads in order; no connection is alive.\<close>

lemma fresh_server_starts:
  assumes "fresh_server k tid n w" and k: "\<And>lid. accepts_legal (k_ctl k lid)" and "0 < n" and "spawns_for spawn w"
  shows "\<exists>w'. server_start k False init spawn m 0 tid w = Inr w'"
proof -
  note bf = fresh_server_facts[OF assms(1) k]
  from bf(11) obtain nm where pool: "srv_pool w = setThreadNum n (new_thread_pool (srv_loop w) nm)" by blast
  show ?thesis
    using server_start_runs[OF k _ _ _ _ _ _ bf(15,14,10,1,2) _ bf(3,4), of spawn init m] assms(3,4)
    unfolding spawns_for_def pool setThreadNum_def new_thread_pool_def by simp blast
qed

lemma fresh_start_inv:
  assumes "fresh_server k tid n w" and k: "\<And>lid. accepts_legal (k_ctl k lid)" and "0 < n" and "spawns_for spawn w"
    and "server_start k False init spawn m 0 tid w = Inr w'"
  shows "reactor_inv {} {} (at_rest w')" "app_state w' = app_state w" "\<not> held (at_rest w') c" "quiescent (at_rest w')"
    "\<exists>fd. channels (loops w' (srv_loop w')) fd = Some (acc_channel (srv_acceptor w'))"
proof -
  note bf = fresh_server_facts[OF assms(1) k]
  from bf(11) obtain nm where pool: "srv_pool w = setThreadNum n (new_thread_pool (srv_loop w) nm)" by blast
  note si = server_start_inv[OF assms(5) k _ _ _ _ pool bf(15,14,10,1-7) bf(8,9,12,13,16,18,17)]
  from si(1-3,5,6) assms(3,4)
  show "reactor_inv {} {} (at_rest w')" "app_state w' = app_state w" "\<not> held (at_rest w') c" "quiescent (at_rest w')"
    "\<exists>fd. channels (loops w' (srv_loop w')) fd = Some (acc_channel (srv_acceptor w'))"
    by (simp_all add: spawns_for_def pool setThreadNum_def new_thread_pool_def)
qed

section \<open>Running\<close>

context server_threads
begin

text \<open>A turn fails in one way only.\<close>

lemma turn_fault_iff:
  assumes "reactor_inv {} {} st" and "good (app_state (srv st))" and "plausible tn st"
  shows "loop_turn k app tn st = Inl e \<longleftrightarrow> empty_high_water st (turn_loop tn) \<and> e = BadFunctionCall"
proof (cases "empty_high_water st (turn_loop tn)")
  case True
  with high_water_turn[OF True] show ?thesis by auto
next
  case False
  with turn_ok[OF assms False] show ?thesis by auto
qed

text \<open>And what a turn has done leaves the threads in order.\<close>

lemma turn_keeps:
  assumes "reactor_inv {} {} st" and "good (app_state (srv st))" and "plausible tn st"
    and "loop_turn k app tn st = Inr st'"
  shows "reactor_inv {} {} st' \<and> app_state (srv st') = app_state (srv st)"
  using reaches_ok[OF reaches_turn[OF reaches_refl assms(3,4)] assms(1,2)] .

end

section \<open>A concrete start\<close>

definition demo_spawn :: "nat \<Rightarrow> spawned" where
  "demo_spawn i = \<lparr>sp_tid = 8 + i, sp_loop = 2 + i, sp_epollfd = 10 + 2 * int i, sp_eventfd = 11 + 2 * int i\<rparr>"

lemma demo_spawns: "srv_loop w = 1 \<Longrightarrow> spawns_for demo_spawn w"
  by (simp add: spawns_for_def demo_spawn_def inj_def)

definition idle_turn :: "nat \<Rightarrow> 'z server_world_scheme turn" where
  "idle_turn lid = \<lparr>turn_loop = lid, turn_epoll = Inr [], turn_now = Timestamp 0,
     turn_env = demo_env\<rparr>"

lemma idle_plausible: "plausible (idle_turn (srv_loop w)) (at_rest w)"
  by (simp add: plausible_def idle_turn_def loop_ids_def fits_def)

definition demo_loopback :: sockaddr_in where
  "demo_loopback = \<lparr>sin_family = AF_INET, sin_port = htons 80, sin_addr = (127, 0, 0, 1)\<rparr>"

text \<open>A world with a loop that has just been made, and a server on it.\<close>

lemma demo_fresh_loop:
  assumes "\<And>lid. accepts_legal (k_ctl k lid)"
  obtains l and w :: server_world where "new_event_loop (k_ctl k 1) False 3 4 False 1 7 = Inr l"
    "new_tcp_server (Some 1) 5 demo_loopback ''web'' kNoReusePort 6 0 (demo_world\<lparr>loops := \<lambda>_. l\<rparr>) = Inr w"
proof -
  from new_event_loop_facts[OF assms[of 1], of 3 4 1 7] obtain l :: "task event_loop" where
    l: "new_event_loop (k_ctl k 1) False 3 4 False 1 7 = Inr l" by auto
  from toIPport_facts[of demo_loopback] obtain ip where "toIPport demo_loopback = Inr ip" by blast
  then obtain w where "new_tcp_server (Some 1) 5 demo_loopback ''web'' kNoReusePort 6 0 (demo_world\<lparr>loops := \<lambda>_. l\<rparr>) = Inr w"
    by (simp add: new_tcp_server_def CheckLoopNotNull_def new_acceptor_def
        createNoneBlockingOrDie_def socket_bindAddress_def Let_def)
  with l that show thesis by blast
qed

end
