(* ===== verification/Conn_Frame.thy ===== *)
theory Conn_Frame
  imports Tcp_Connection
begin

text \<open>
  What sending and half-closing leave alone: the input buffers, the callbacks and the rest of the world. An
  application that answers what it reads, the HTTP server or the chat server, rests on this.
\<close>

section \<open>What sending leaves alone\<close>

definition same_input :: "'z world_scheme \<Rightarrow> 'z world_scheme \<Rightarrow> bool" where
  "same_input w w' \<longleftrightarrow> (\<forall>c. inputBuffer (conns w' c) = inputBuffer (conns w c))"

lemma same_input_trans: "same_input w w' \<Longrightarrow> same_input w' w'' \<Longrightarrow> same_input w w''"
  by (simp add: same_input_def)

lemma same_input_prims [simp]:
  "same_input w w" "same_input w (put_loop lid l w)" "same_input w (log_sock e w)"
  "same_input w (setState st c w)" "same_input w (conn_queueInLoop tid c t w)"
  "same_input w (shutdownInLoop c w)"
  by (simp_all add: same_input_def shutdownInLoop_def)

lemma channel_op_input: "conn_channel_op f k tid c w = Inr w' \<Longrightarrow> same_input w w'"
  by (auto simp: conn_channel_op_def on_loop_def Let_def bindR_eq_Inr)

lemma keep_rest_input:
  assumes "keep_rest k tid c data nwrote remaining w = Inr w'"
  shows "same_input w w'"
proof -
  let ?conn = "conns w c"
  define w1 where "w1 = (let oldLen = of_nat (readableBytes (outputBuffer ?conn)) in
    if highWaterMark ?conn \<le> oldLen + remaining \<and> oldLen < highWaterMark ?conn \<and> highWaterMark ?conn \<noteq> 0
    then conn_queueInLoop tid c (HighWaterMark c (highWaterMarkCallback_set ?conn) (oldLen + remaining)) w else w)"
  have w1: "conns w1 = conns w" by (simp add: w1_def Let_def)
  from assms obtain rest where
    "(let w2 = set_conn c (?conn\<lparr>outputBuffer := buf_append rest (outputBuffer ?conn)\<rparr>) w1 in
      if \<not> isWriting (chan_of c w2) then conn_channel_op enableWriting k tid c w2 else Inr w2) = Inr w'"
    by (auto simp: keep_rest_def Let_def bindR_eq_Inr w1_def)
  moreover have "same_input w (set_conn c (?conn\<lparr>outputBuffer := buf_append rest (outputBuffer ?conn)\<rparr>) w1)"
    by (simp add: same_input_def w1)
  ultimately show ?thesis
    by (auto simp: Let_def split: if_splits intro: same_input_trans dest: channel_op_input)
qed

lemma sendInLoop_input:
  assumes "sendInLoop k tid c data len w = Inr w'"
  shows "same_input w w'"
proof (cases "conn_state (conns w c) = kDisconnected")
  case True
  with assms show ?thesis by (simp add: sendInLoop_def)
next
  case False
  with assms obtain nwrote remaining fe w1 where
    d: "(if \<not> isWriting (chan_of c w) \<and> readableBytes (outputBuffer (conns w c)) = 0
         then direct_write k tid c data len w else Inr ((0, len, False), w)) = Inr ((nwrote, remaining, fe), w1)"
    and r: "(if \<not> fe \<and> 0 < remaining then keep_rest k tid c data nwrote remaining w1 else Inr w1) = Inr w'"
    by (auto simp: sendInLoop_def bindR_eq_Inr)
  have "same_input w w1"
    using d by (auto simp: direct_write_def bindR_eq_Inr Let_def case_prod_unfold sys_write_def same_input_def
        split: if_splits sum.splits)
  with r show ?thesis by (auto split: if_splits dest: keep_rest_input intro: same_input_trans)
qed

lemma handleWrite_input:
  assumes "handleWrite k tid c w = Inr w'"
  shows "same_input w w'"
proof (cases "isWriting (chan_of c w)")
  case False
  with assms show ?thesis by (simp add: handleWrite_def)
next
  case True
  let ?conn = "conns w c"
  obtain n e s where wf: "writeFd (k_write k (sock_log w) (conn_fd ?conn) (readable (outputBuffer ?conn))) (outputBuffer ?conn) = (n, e, s)"
    by (metis surj_pair)
  define w1 where "w1 = log_sock (case e of Some e \<Rightarrow> WriteFailed (conn_fd ?conn) e | None \<Rightarrow> Wrote (conn_fd ?conn) s) w"
  define w2 where "w2 = set_conn c (?conn\<lparr>outputBuffer := retrieve (nat n) (outputBuffer ?conn)\<rparr>) w1"
  have same: "same_input w w1" "same_input w w2" by (simp_all add: same_input_def w1_def w2_def)
  have "w' = w1 \<or> w' = w2 \<or> (\<exists>w3. conn_channel_op disableWriting k tid c w2 = Inr w3 \<and> same_input w3 w')"
    using assms True wf
    by (auto simp: handleWrite_def Let_def bindR_eq_Inr w1_def[symmetric] w2_def[symmetric]
        split: if_splits intro: same_input_trans[OF same_input_prims(5) same_input_prims(6)])
  with same show ?thesis by (auto dest!: channel_op_input intro: same_input_trans)
qed

text \<open>What \<open>runInLoop\<close> does is what its functor does, or only to queue it.\<close>

lemma runInLoop_cases:
  assumes "conn_runInLoop tid c t run w = Inr w'"
  shows "run w = Inr w' \<or> w' = put_loop (conn_loop (conns w c))
    (queueInLoop tid (ConnTask t) (loops w (conn_loop (conns w c)))) w"
  using assms by (auto simp: conn_runInLoop_def runInLoop_def get_loop_def split: if_splits)

lemma conn_do_keeps:
  assumes "conn_do k tid c op w = Inr w'" and "op \<noteq> OpWritable"
  shows "conn_frame w w' \<and> same_input w w'"
proof -
  have ptr: "conn_frame w w' \<and> same_input w w'" if "sendInLoop_ptr k tid c addr len w = Inr w'" for addr len and w w' :: "'a world_scheme"
    using that by (auto simp: sendInLoop_ptr_def split: option.splits dest: sendInLoop_frame sendInLoop_input)
  have str: "conn_frame w w' \<and> same_input w w'" if "sendInLoop_string k tid c s w = Inr w'" for s and w w' :: "'a world_scheme"
    using that by (auto simp: sendInLoop_string_def dest: sendInLoop_frame sendInLoop_input)
  show ?thesis
  proof (cases op)
    case (OpSend addr s)
    let ?w = "w\<lparr>strings := (strings w)(addr \<mapsto> s)\<rparr>"
    from assms(1) OpSend obtain w1 where w1: "send_string k tid c addr ?w = Inr w1"
      "w' = w1\<lparr>strings := (strings w1)(addr := None)\<rparr>" by (auto simp: with_string_def bindR_eq_Inr)
    have "conn_frame ?w w1 \<and> same_input ?w w1"
    proof (cases "conn_state (conns w c) = kConnected")
      case True
      with w1(1) show ?thesis
        by (auto simp: send_string_def Let_def split: if_splits dest: ptr dest!: runInLoop_cases intro: frame_intros)
    qed (use w1(1) in \<open>simp add: send_string_def\<close>)
    then show ?thesis unfolding w1(2) by (auto simp: conn_frame_def same_input_def)
  next
    case (OpSendBuffer b)
    with assms(1) obtain b' where b': "send_buffer k tid c b w = Inr (b', w')" by (auto simp: bindR_eq_Inr)
    show ?thesis
    proof (cases "conn_state (conns w c) = kConnected")
      case True
      with b' show ?thesis
        by (auto simp: send_buffer_def bindR_eq_Inr split: if_splits
            dest: sendInLoop_frame sendInLoop_input str dest!: runInLoop_cases intro: frame_intros)
    qed (use b' in \<open>simp add: send_buffer_def\<close>)
  next
    case OpShutdown
    have st: "conn_frame w (setState kDisconnecting c w)" "same_input w (setState kDisconnecting c w)"
      by (simp_all add: frame_intros)
    show ?thesis
    proof (cases "conn_state (conns w c) = kConnected")
      case True
      with assms(1) OpShutdown have "conn_runInLoop tid c (ShutdownInLoop c) (\<lambda>w. Inr (shutdownInLoop c w))
          (setState kDisconnecting c w) = Inr w'" by (simp add: shutdown_def)
      then have "w' = shutdownInLoop c (setState kDisconnecting c w) \<or> (\<exists>lid l. w' = put_loop lid l (setState kDisconnecting c w))"
        by (auto dest!: runInLoop_cases)
      then show ?thesis
        using st(1) by (auto intro: frame_intros simp: same_input_def shutdownInLoop_def)
    qed (use assms(1) OpShutdown in \<open>simp add: shutdown_def\<close>)
  qed (use assms(2) in simp)
qed

section \<open>Several operations\<close>

lemma up_set_in:
  assumes "up k tid c log0 w" and "buf_wf b"
  shows "up k tid c log0 (set_conn c ((conns w c)\<lparr>inputBuffer := b\<rparr>) w)"
proof -
  let ?w = "set_conn c ((conns w c)\<lparr>inputBuffer := b\<rparr>) w"
  have same: "chan_of c ?w = chan_of c w" "loop_of c ?w = loop_of c w" by (simp_all add: chan_of_def loop_of_def)
  have "in_loop k tid c ?w"
    by (rule in_loop_same[of k tid c w]) (use assms same in \<open>simp_all add: up_def\<close>)
  with assms show ?thesis by (auto simp: up_def conn_inv_def calls_ok_def same)
qed

text \<open>Several operations, none of them an event of the kernel, keep the input and the server.\<close>

lemma conn_dos_keep:
  "foldR (conn_do k tid c) ops w = Inr w' \<Longrightarrow> OpWritable \<notin> set ops \<Longrightarrow> conn_frame w w' \<and> same_input w w'"
proof (induction ops arbitrary: w)
  case (Cons op ops)
  then obtain w1 where "conn_do k tid c op w = Inr w1" "foldR (conn_do k tid c) ops w1 = Inr w'"
    by (auto simp: bindR_eq_Inr)
  with Cons conn_do_keeps[of k tid c op w w1] show ?case
    by (auto intro: conn_frame_trans same_input_trans)
qed simp

end
