(* ===== verification/Std_Containers.thy ===== *)
theory Std_Containers
  imports Prelude
begin

text \<open>
  The two ordered containers of the standard library that the code uses: \<open>std::map\<close> (the HTTP
  headers) and \<open>std::set\<close> (the timers). Both are kept as what an iteration over them visits: a
  list in strictly increasing order of the keys. \<open>key_map\<close> and \<open>ordered_set\<close> are the contracts
  their clients rely on.
\<close>

section \<open>std::map\<close>

text \<open>\<open>m[k] = v\<close>.\<close>

fun map_put :: "'k::linorder \<Rightarrow> 'v \<Rightarrow> ('k \<times> 'v) list \<Rightarrow> ('k \<times> 'v) list" where
  "map_put k v [] = [(k, v)]"
| "map_put k v ((k', v') # m) =
     (if k < k' then (k, v) # (k', v') # m
      else if k = k' then (k, v) # m
      else (k', v') # map_put k v m)"

text \<open>\<open>m.find(k)\<close>, with \<open>None\<close> for \<open>m.end()\<close>.\<close>

definition map_find :: "'k \<Rightarrow> ('k \<times> 'v) list \<Rightarrow> 'v option" where
  "map_find k m = map_of m k"

definition map_wf :: "('k::linorder \<times> 'v) list \<Rightarrow> bool" where
  "map_wf m \<longleftrightarrow> sorted_wrt (<) (map fst m)"

lemma map_wf_Nil [simp]: "map_wf []"
  by (simp add: map_wf_def)

lemma set_keys_map_put: "fst ` set (map_put k v m) = insert k (fst ` set m)"
proof (induction m)
  case (Cons x m)
  then show ?case by (cases x) (simp add: insert_commute)
qed simp

lemma map_wf_put: "map_wf m \<Longrightarrow> map_wf (map_put k v m)"
proof (induction m)
  case (Cons x m)
  obtain k' v' where x: "x = (k', v')" by fastforce
  from Cons.prems have k': "\<forall>y \<in> fst ` set m. k' < y" and m: "map_wf m"
    by (auto simp: map_wf_def x)
  have keys: "\<forall>y \<in> fst ` set (map_put k v m). k' < y" if "k' < k"
    unfolding set_keys_map_put using that k' by simp
  show ?case
  proof (cases "k < k' \<or> k = k'")
    case True
    with k' m show ?thesis by (auto simp: map_wf_def x)
  next
    case False
    then have "k' < k" by auto
    with keys Cons.IH[OF m] show ?thesis by (auto simp: map_wf_def x)
  qed
qed (simp add: map_wf_def)

lemma map_find_put: "map_wf m \<Longrightarrow> map_find k (map_put k' v m) = (if k = k' then Some v else map_find k m)"
proof (induction m)
  case (Cons x m)
  then show ?case by (cases x) (auto simp: map_find_def map_wf_def)
qed (auto simp: map_find_def)

locale key_map =
  fixes invar :: "'m \<Rightarrow> bool"
    and empty :: "'m"
    and put :: "'k \<Rightarrow> 'v \<Rightarrow> 'm \<Rightarrow> 'm"
    and find :: "'k \<Rightarrow> 'm \<Rightarrow> 'v option"
  assumes invar_empty: "invar empty"
    and find_empty: "find k empty = None"
    and invar_put: "invar m \<Longrightarrow> invar (put k v m)"
    and find_put: "invar m \<Longrightarrow> find k (put k' v m) = (if k = k' then Some v else find k m)"
begin

lemma invar_puts: "invar m \<Longrightarrow> invar (fold (\<lambda>(k, v). put k v) kvs m)"
  by (induction kvs arbitrary: m) (auto simp: invar_put)

text \<open>After a list of insertions, a key has the last value it was given.\<close>

lemma find_puts:
  "invar m \<Longrightarrow> find k (fold (\<lambda>(k, v). put k v) kvs m) =
     (case map_of (rev kvs) k of None \<Rightarrow> find k m | Some v \<Rightarrow> Some v)"
proof (induction kvs arbitrary: m)
  case (Cons x kvs)
  then show ?case
    by (cases x) (auto simp: invar_put find_put map_add_def split: option.split)
qed simp

lemma find_puts_distinct:
  assumes "invar m" and "distinct (map fst kvs)" and "(k, v) \<in> set kvs"
  shows "find k (fold (\<lambda>(k, v). put k v) kvs m) = Some v"
proof -
  have "map_of (rev kvs) k = Some v"
    using assms(2,3) by (simp add: map_of_eq_Some_iff rev_map[symmetric])
  then show ?thesis using assms(1) by (simp add: find_puts)
qed

end

interpretation hdr: key_map map_wf "[]" map_put map_find
  by unfold_locales (simp_all add: map_wf_put map_find_put, simp add: map_find_def)

section \<open>std::set\<close>

fun set_insert :: "'a::linorder \<Rightarrow> 'a list \<Rightarrow> 'a list" where
  "set_insert x [] = [x]"
| "set_insert x (y # ys) =
     (if x < y then x # y # ys else if x = y then y # ys else y # set_insert x ys)"

definition set_erase :: "'a \<Rightarrow> 'a list \<Rightarrow> 'a list" where
  "set_erase x xs = filter (\<lambda>y. y \<noteq> x) xs"

text \<open>The elements before \<open>s.lower_bound(x)\<close>, and those from it on.\<close>

definition below :: "'a::linorder \<Rightarrow> 'a list \<Rightarrow> 'a list" where
  "below x xs = takeWhile (\<lambda>y. y < x) xs"

definition from_lower_bound :: "'a::linorder \<Rightarrow> 'a list \<Rightarrow> 'a list" where
  "from_lower_bound x xs = dropWhile (\<lambda>y. y < x) xs"

definition set_wf :: "'a::linorder list \<Rightarrow> bool" where
  "set_wf xs \<longleftrightarrow> sorted_wrt (<) xs"

lemma set_set_insert: "set (set_insert x xs) = insert x (set xs)"
  by (induction xs) auto

lemma set_wf_insert: "set_wf xs \<Longrightarrow> set_wf (set_insert x xs)"
proof (induction xs)
  case (Cons y ys)
  then show ?case by (auto simp: set_wf_def set_set_insert)
qed (simp add: set_wf_def)

lemma set_wf_filter: "set_wf xs \<Longrightarrow> set_wf (filter P xs)"
  by (simp add: set_wf_def sorted_wrt_filter)

lemma set_wf_erase: "set_wf xs \<Longrightarrow> set_wf (set_erase x xs)"
  by (simp add: set_erase_def set_wf_filter)

lemma below_eq_filter: "set_wf xs \<Longrightarrow> below x xs = filter (\<lambda>y. y < x) xs"
proof (induction xs)
  case (Cons y ys)
  then have "\<not> y < x \<Longrightarrow> filter (\<lambda>y. y < x) ys = []"
    by (auto simp: set_wf_def filter_empty_conv)
  with Cons show ?case by (auto simp: below_def set_wf_def)
qed (simp add: below_def)

lemma from_lower_bound_eq_filter: "set_wf xs \<Longrightarrow> from_lower_bound x xs = filter (\<lambda>y. \<not> y < x) xs"
proof (induction xs)
  case (Cons y ys)
  then have "\<not> y < x \<Longrightarrow> filter (\<lambda>y. \<not> y < x) ys = ys"
    by (intro filter_True) (auto simp: set_wf_def)
  with Cons show ?case by (auto simp: from_lower_bound_def set_wf_def)
qed (simp add: from_lower_bound_def)

locale ordered_set =
  fixes invar :: "'s \<Rightarrow> bool"
    and elems :: "'s \<Rightarrow> 'a::linorder set"
    and insert_one :: "'a \<Rightarrow> 's \<Rightarrow> 's"
    and erase_one :: "'a \<Rightarrow> 's \<Rightarrow> 's"
    and before :: "'a \<Rightarrow> 's \<Rightarrow> 'a list"
    and rest :: "'a \<Rightarrow> 's \<Rightarrow> 's"
  assumes invar_insert: "invar s \<Longrightarrow> invar (insert_one x s)"
    and elems_insert: "invar s \<Longrightarrow> elems (insert_one x s) = insert x (elems s)"
    and invar_erase: "invar s \<Longrightarrow> invar (erase_one x s)"
    and elems_erase: "invar s \<Longrightarrow> elems (erase_one x s) = elems s - {x}"
    and set_before: "invar s \<Longrightarrow> set (before x s) = {y \<in> elems s. y < x}"
    and invar_rest: "invar s \<Longrightarrow> invar (rest x s)"
    and elems_rest: "invar s \<Longrightarrow> elems (rest x s) = {y \<in> elems s. \<not> y < x}"
begin

lemma split_at: "invar s \<Longrightarrow> elems s = set (before x s) \<union> elems (rest x s)"
  by (auto simp: set_before elems_rest)

lemma split_disjoint: "invar s \<Longrightarrow> set (before x s) \<inter> elems (rest x s) = {}"
  by (auto simp: set_before elems_rest)

lemma elems_inserts: "invar s \<Longrightarrow> elems (fold insert_one xs s) = set xs \<union> elems s"
  by (induction xs arbitrary: s) (auto simp: invar_insert elems_insert)

lemma invar_inserts: "invar s \<Longrightarrow> invar (fold insert_one xs s)"
  by (induction xs arbitrary: s) (auto simp: invar_insert)

end

interpretation oset: ordered_set set_wf set set_insert set_erase below from_lower_bound
  by unfold_locales
    (auto simp: set_wf_insert set_set_insert set_wf_erase set_erase_def below_eq_filter
      from_lower_bound_eq_filter set_wf_filter)

end
