(* ===== verification/Http_Request.thy ===== *)
theory Http_Request
  imports Std_Containers Time_Stamp
begin

text \<open>
  \<open>HttpRequest\<close> (http/include/http/HttpRequest.h): the method, version, path, query, receive
  time and headers of a request. A range \<open>[start, end)\<close> of characters is the list of them.
\<close>

datatype http_method = kInvalid | kGet | kPost | kHead | kPut | kDelete

datatype http_version = kUnknown | kHttp10 | kHttp11

record http_request =
  req_method :: http_method
  req_version :: http_version
  req_path :: string
  req_query :: string
  req_receiveTime :: timestamp
  req_headers :: "(string \<times> string) list"

definition new_request :: http_request where
  "new_request =
     \<lparr>req_method = kInvalid, req_version = kUnknown, req_path = [], req_query = [],
      req_receiveTime = invalid_timestamp, req_headers = []\<rparr>"

definition setVersion :: "http_version \<Rightarrow> http_request \<Rightarrow> http_request" where
  "setVersion v r = r\<lparr>req_version := v\<rparr>"

definition method_of_string :: "string \<Rightarrow> http_method" where
  "method_of_string m =
     (if m = ''GET'' then kGet
      else if m = ''POST'' then kPost
      else if m = ''HEAD'' then kHead
      else if m = ''PUT'' then kPut
      else if m = ''DELETE'' then kDelete
      else kInvalid)"

definition setMethod :: "string \<Rightarrow> http_request \<Rightarrow> (bool \<times> http_request) outcome" where
  "setMethod m r =
     bindR (require AssertFailed (req_method r = kInvalid)) (\<lambda>_.
       let r' = r\<lparr>req_method := method_of_string m\<rparr>
       in Inr (req_method r' \<noteq> kInvalid, r'))"

definition methodString :: "http_request \<Rightarrow> string" where
  "methodString r =
     (case req_method r of
        kGet \<Rightarrow> ''GET''
      | kPost \<Rightarrow> ''POST''
      | kHead \<Rightarrow> ''HEAD''
      | kPut \<Rightarrow> ''PUT''
      | kDelete \<Rightarrow> ''DELETE''
      | kInvalid \<Rightarrow> ''UNKNOWN'')"

definition setPath :: "string \<Rightarrow> http_request \<Rightarrow> http_request" where
  "setPath p r = r\<lparr>req_path := p\<rparr>"

definition setQuery :: "string \<Rightarrow> http_request \<Rightarrow> http_request" where
  "setQuery q r = r\<lparr>req_query := q\<rparr>"

definition setReceiveTime :: "timestamp \<Rightarrow> http_request \<Rightarrow> http_request" where
  "setReceiveTime t r = r\<lparr>req_receiveTime := t\<rparr>"

text \<open>The second loop of \<open>addHeader\<close>: drop the last character while it is a space.\<close>

fun strip_trailing :: "string \<Rightarrow> string" where
  "strip_trailing [] = []"
| "strip_trailing (x # xs) =
     (let v = x # xs in if isspace (last v) then strip_trailing (butlast v) else v)"

text \<open>\<open>addHeader(start, colon, end)\<close> on the line \<open>[start, end)\<close> and the offset of its colon.\<close>

definition addHeader :: "string \<Rightarrow> nat \<Rightarrow> http_request \<Rightarrow> http_request" where
  "addHeader line colon r =
     (let field = take colon line;
          val = strip_trailing (dropWhile isspace (drop (Suc colon) line))
      in r\<lparr>req_headers := map_put field val (req_headers r)\<rparr>)"

definition getHeader :: "string \<Rightarrow> http_request \<Rightarrow> string" where
  "getHeader field r = (case map_find field (req_headers r) of Some v \<Rightarrow> v | None \<Rightarrow> [])"

text \<open>\<open>swap\<close> with another request: both requests afterwards.\<close>

definition swap_request :: "http_request \<Rightarrow> http_request \<Rightarrow> http_request \<times> http_request" where
  "swap_request this that =
     (\<lparr>req_method = req_method that, req_version = req_version that, req_path = req_path that,
       req_query = req_query that, req_receiveTime = req_receiveTime that,
       req_headers = req_headers that\<rparr>,
      \<lparr>req_method = req_method this, req_version = req_version this, req_path = req_path this,
       req_query = req_query this, req_receiveTime = req_receiveTime this,
       req_headers = req_headers this\<rparr>)"

section \<open>Lemmas\<close>

lemma swap_request_eq [simp]: "swap_request a b = (b, a)"
  by (simp add: swap_request_def)

lemma strip_trailing_eq: "strip_trailing xs = rev (dropWhile isspace (rev xs))"
proof (induction xs rule: rev_induct)
  case (snoc x xs)
  then show ?case by (cases xs) (auto simp: Let_def)
qed simp

definition trimmed :: "string \<Rightarrow> bool" where
  "trimmed v \<longleftrightarrow> v = [] \<or> \<not> isspace (hd v) \<and> \<not> isspace (last v)"

lemma strip_trailing_last: "strip_trailing xs = [] \<or> \<not> isspace (last (strip_trailing xs))"
proof -
  have "dropWhile isspace (rev xs) = [] \<or> \<not> isspace (hd (dropWhile isspace (rev xs)))"
    using hd_dropWhile[of isspace "rev xs"] by blast
  then show ?thesis by (auto simp: strip_trailing_eq last_rev)
qed

lemma strip_trailing_hd: "strip_trailing xs \<noteq> [] \<Longrightarrow> hd (strip_trailing xs) = hd xs"
proof -
  assume ne: "strip_trailing xs \<noteq> []"
  have "xs = strip_trailing xs @ rev (takeWhile isspace (rev xs))"
    by (metis rev_append rev_rev_ident strip_trailing_eq takeWhile_dropWhile_id)
  with ne show ?thesis by (metis hd_append2)
qed

lemma trimmed_strip: "trimmed (strip_trailing (dropWhile isspace xs))"
proof (cases "strip_trailing (dropWhile isspace xs) = []")
  case False
  then have "dropWhile isspace xs \<noteq> []" by (metis strip_trailing.simps(1))
  then have "\<not> isspace (hd (dropWhile isspace xs))" by (rule hd_dropWhile)
  with False strip_trailing_hd[OF False] strip_trailing_last[of "dropWhile isspace xs"]
  show ?thesis by (auto simp: trimmed_def)
qed (simp add: trimmed_def)

lemma strip_trimmed: "trimmed v \<Longrightarrow> strip_trailing v = v"
proof (cases v rule: rev_cases)
  case (snoc ys y)
  assume "trimmed v"
  with snoc show ?thesis by (auto simp: trimmed_def strip_trailing_eq)
qed simp

lemma dropWhile_trimmed: "trimmed v \<Longrightarrow> dropWhile isspace v = v"
  by (cases v) (auto simp: trimmed_def)

lemma isspace_space [simp]: "isspace (CHR '' '')"
  by (simp add: isspace_def)

lemma addHeader_formatted:
  assumes "trimmed v" and "CHR '':'' \<notin> set k"
  shows "addHeader (k @ '': '' @ v) (std_find (k @ '': '' @ v) (CHR '':'')) r =
    r\<lparr>req_headers := map_put k v (req_headers r)\<rparr>"
  using assms std_find_prefix[of "CHR '':''" k "CHR '' '' # v"]
  by (simp add: addHeader_def Let_def strip_trimmed dropWhile_trimmed)

lemma addHeader_fields [simp]:
  "req_method (addHeader l c r) = req_method r"
  "req_version (addHeader l c r) = req_version r"
  "req_path (addHeader l c r) = req_path r"
  "req_query (addHeader l c r) = req_query r"
  "req_receiveTime (addHeader l c r) = req_receiveTime r"
  by (simp_all add: addHeader_def Let_def)

lemma map_wf_addHeader: "map_wf (req_headers r) \<Longrightarrow> map_wf (req_headers (addHeader l c r))"
  by (simp add: addHeader_def Let_def map_wf_put)

section \<open>Properties\<close>

text \<open>\<open>addHeader\<close> stores, under the text before the colon, the text after it without leading
  and trailing white space; a later header of the same name replaces it and every other header
  stays as it was.\<close>

theorem addHeader_getHeader:
  assumes "map_wf (req_headers r)"
  shows "\<exists>val. getHeader (take colon line) (addHeader line colon r) = val \<and> trimmed val \<and>
      (\<exists>pre post. drop (Suc colon) line = pre @ val @ post \<and>
         list_all isspace pre \<and> list_all isspace post) \<and>
      (\<forall>f. f \<noteq> take colon line \<longrightarrow> getHeader f (addHeader line colon r) = getHeader f r)"
proof -
  let ?tail = "drop (Suc colon) line" and ?u = "dropWhile isspace (drop (Suc colon) line)"
  let ?val = "strip_trailing ?u"
  have u: "?u = ?val @ rev (takeWhile isspace (rev ?u))"
    by (metis rev_append rev_rev_ident strip_trailing_eq takeWhile_dropWhile_id)
  have "?tail = takeWhile isspace ?tail @ ?val @ rev (takeWhile isspace (rev ?u))"
    by (subst takeWhile_dropWhile_id[of isspace ?tail, symmetric]) (use u in metis)
  moreover have "list_all isspace (takeWhile isspace ?tail)"
    "list_all isspace (rev (takeWhile isspace (rev ?u)))"
    by (auto simp: list_all_iff dest: set_takeWhileD)
  moreover have "getHeader (take colon line) (addHeader line colon r) = ?val"
    "\<forall>f. f \<noteq> take colon line \<longrightarrow> getHeader f (addHeader line colon r) = getHeader f r"
    using assms by (simp_all add: getHeader_def addHeader_def Let_def map_find_put)
  ultimately show ?thesis using trimmed_strip[of ?tail] by metis
qed

theorem addHeader_getHeader_witness:
  "getHeader ''Host'' (addHeader ''Host:  a.b '' 4 new_request) = ''a.b'' \<and>
   trimmed (getHeader ''Host'' (addHeader ''Host:  a.b '' 4 new_request))"
proof -
  have wf: "map_wf (req_headers new_request)" by (simp add: new_request_def)
  have "getHeader ''Host'' (addHeader ''Host:  a.b '' 4 new_request) = ''a.b''" by code_simp
  moreover have "take 4 ''Host:  a.b '' = ''Host''" by simp
  ultimately show ?thesis using addHeader_getHeader[OF wf, of 4 "''Host:  a.b ''"] by auto
qed

end
