(* ===== verification/Http_Context.thy ===== *)
theory Http_Context
  imports Http_Request NetBuffer
begin

text \<open>
  \<open>HttpContext\<close> (http/include/http/HttpContext.h, http/src/HttpContext.cc): the state machine
  that reads a request out of a Buffer. \<open>parse_iter\<close> is one pass of the \<open>while (hasMore)\<close>
  loop and \<open>parse_loop\<close> the loop, whose value is \<open>None\<close> when it does not return. \<open>spec_parse\<close> is
  what the parser promises, on the text alone: it reads line after line.
\<close>

datatype parse_state = kExpectRequestLine | kExpectHeaders | kExpectBody | kGotAll

record http_context =
  ctx_state :: parse_state
  ctx_request :: http_request

definition new_context :: http_context where
  "new_context = \<lparr>ctx_state = kExpectRequestLine, ctx_request = new_request\<rparr>"

definition gotAll :: "http_context \<Rightarrow> bool" where
  "gotAll c \<longleftrightarrow> ctx_state c = kGotAll"

definition ctx_reset :: "http_context \<Rightarrow> http_context" where
  "ctx_reset c =
     (let (request, dummy) = swap_request (ctx_request c) new_request
      in c\<lparr>ctx_state := kExpectRequestLine, ctx_request := request\<rparr>)"

text \<open>\<open>processRequestLine(begin, end)\<close> on the line \<open>[begin, end)\<close>.\<close>

definition processRequestLine :: "string \<Rightarrow> http_context \<Rightarrow> (bool \<times> http_context) outcome" where
  "processRequestLine line c =
     (let space = std_find line (CHR '' '') in
      if space = length line then Inr (False, c)
      else bindR (setMethod (take space line) (ctx_request c)) (\<lambda>(known, r).
        if \<not> known then Inr (False, c\<lparr>ctx_request := r\<rparr>)
        else
          let start = drop (space + 1) line;
              space = std_find start (CHR '' '') in
          if space = length start then Inr (False, c\<lparr>ctx_request := r\<rparr>)
          else
            let target = take space start;
                question = std_find target (CHR ''?'');
                r = (if question \<noteq> space
                     then setQuery (drop question target) (setPath (take question target) r)
                     else setPath target r);
                version = drop (space + 1) start;
                succeed = (length version = 8 \<and> butlast version = ''HTTP/1.'') in
            if \<not> succeed then Inr (False, c\<lparr>ctx_request := r\<rparr>)
            else if last version = CHR ''1''
            then Inr (True, c\<lparr>ctx_request := setVersion kHttp11 r\<rparr>)
            else if last version = CHR ''0''
            then Inr (True, c\<lparr>ctx_request := setVersion kHttp10 r\<rparr>)
            else Inr (False, c\<lparr>ctx_request := r\<rparr>)))"

text \<open>The line \<open>[buf->peek(), crlf)\<close>.\<close>

definition line_before :: "nat \<Rightarrow> buffer \<Rightarrow> string" where
  "line_before crlf b = take (crlf - peek b) (readable b)"

text \<open>One pass of the loop, with \<open>ok\<close> before it; the result is \<open>(ok, hasMore, this, *buf)\<close> after it.\<close>

definition parse_iter ::
  "timestamp \<Rightarrow> bool \<Rightarrow> http_context \<Rightarrow> buffer \<Rightarrow> (bool \<times> bool \<times> http_context \<times> buffer) outcome" where
  "parse_iter receiveTime ok c b =
     (case ctx_state c of
        kExpectRequestLine \<Rightarrow>
          (case findCRLF b of
             Some crlf \<Rightarrow>
               bindR (processRequestLine (line_before crlf b) c) (\<lambda>(ok, c).
               if ok then
                 let c = c\<lparr>ctx_request := setReceiveTime receiveTime (ctx_request c)\<rparr> in
                 bindR (retrieveUntil (crlf + 2) b) (\<lambda>b.
                 Inr (ok, True, c\<lparr>ctx_state := kExpectHeaders\<rparr>, b))
               else Inr (ok, False, c, b))
           | None \<Rightarrow> Inr (ok, False, c, b))
      | kExpectHeaders \<Rightarrow>
          (case findCRLF b of
             Some crlf \<Rightarrow>
               let line = line_before crlf b;
                   colon = std_find line (CHR '':'');
                   (c, hasMore) =
                     (if colon \<noteq> length line
                      then (c\<lparr>ctx_request := addHeader line colon (ctx_request c)\<rparr>, True)
                      else (c\<lparr>ctx_state := kGotAll\<rparr>, False)) in
               bindR (retrieveUntil (crlf + 2) b) (\<lambda>b. Inr (ok, hasMore, c, b))
           | None \<Rightarrow> Inr (ok, False, c, b))
      | kExpectBody \<Rightarrow> Inr (ok, True, c, b)
      | kGotAll \<Rightarrow> Inr (ok, True, c, b))"

partial_function (option) parse_loop ::
  "timestamp \<Rightarrow> bool \<Rightarrow> http_context \<Rightarrow> buffer \<Rightarrow> (bool \<times> http_context \<times> buffer) outcome option" where
  "parse_loop receiveTime ok c b =
     (case parse_iter receiveTime ok c b of
        Inl e \<Rightarrow> Some (Inl e)
      | Inr (ok, hasMore, c, b) \<Rightarrow>
          if hasMore then parse_loop receiveTime ok c b else Some (Inr (ok, c, b)))"

definition parseRequest ::
  "buffer \<Rightarrow> timestamp \<Rightarrow> http_context \<Rightarrow> (bool \<times> http_context \<times> buffer) outcome option" where
  "parseRequest b receiveTime c = parse_loop receiveTime True c b"

section \<open>What the parser promises, on text\<close>

text \<open>The first line of a text and what follows its CRLF.\<close>

fun take_line :: "string \<Rightarrow> (string \<times> string) option" where
  "take_line [] = None"
| "take_line (x # s) =
     (if take 2 (x # s) = kCRLF then Some ([], drop 2 (x # s))
      else map_option (\<lambda>(l, r). (x # l, r)) (take_line s))"

lemma take_line_Some: "take_line s = Some (l, r) \<Longrightarrow> s = l @ kCRLF @ r"
proof (induction s arbitrary: l)
  case (Cons x s)
  show ?case
  proof (cases "take 2 (x # s) = kCRLF")
    case True
    with Cons.prems show ?thesis using append_take_drop_id[of 2 "x # s"] by simp
  qed (use Cons in auto)
qed simp

lemma take_line_shorter: "take_line s = Some (l, r) \<Longrightarrow> length r < length s"
  by (drule take_line_Some) (simp add: kCRLF_def)

lemma take_line_search:
  "take_line s =
     (if std_search s kCRLF = length s then None
      else Some (take (std_search s kCRLF) s, drop (std_search s kCRLF + 2) s))"
proof (induction s)
  case (Cons x s)
  then show ?case by (auto simp: kCRLF_def numeral_2_eq_2)
qed simp

lemma take_line_append: "take_line p = Some (l, r) \<Longrightarrow> take_line (p @ q) = Some (l, r @ q)"
proof -
  assume p: "take_line p = Some (l, r)"
  let ?n = "std_search p kCRLF"
  have lt: "?n < length p" using p std_search_le[of p kCRLF] by (auto simp: take_line_search split: if_splits)
  have "?n + 2 \<le> length p" using std_search_hit_room[OF lt] by (simp add: kCRLF_def)
  with p lt show ?thesis
    by (auto simp: take_line_search std_search_append[OF lt] split: if_splits)
qed

lemma take_line_format: "CHR 0x0D \<notin> set l \<Longrightarrow> take_line (l @ kCRLF @ r) = Some (l, r)"
  by (induction l) (auto simp: kCRLF_def numeral_2_eq_2)

function spec_parse ::
  "timestamp \<Rightarrow> http_context \<Rightarrow> string \<Rightarrow> (bool \<times> http_context \<times> string) outcome" where
  "spec_parse t c s =
     (case take_line s of
        None \<Rightarrow> Inr (True, c, s)
      | Some (line, rest) \<Rightarrow>
          (case ctx_state c of
             kExpectRequestLine \<Rightarrow>
               (case processRequestLine line c of
                  Inl e \<Rightarrow> Inl e
                | Inr (ok, c') \<Rightarrow>
                    if ok
                    then spec_parse t
                      \<lparr>ctx_state = kExpectHeaders, ctx_request = setReceiveTime t (ctx_request c')\<rparr> rest
                    else Inr (False, c', s))
           | kExpectHeaders \<Rightarrow>
               if CHR '':'' \<in> set line
               then spec_parse t
                 (c\<lparr>ctx_request := addHeader line (std_find line (CHR '':'')) (ctx_request c)\<rparr>) rest
               else Inr (True, c\<lparr>ctx_state := kGotAll\<rparr>, rest)
           | _ \<Rightarrow> Inr (True, c, s)))"
  by pat_completeness auto
termination
  by (relation "measure (\<lambda>(t, c, s). length s)") (auto dest: take_line_shorter)

declare spec_parse.simps [simp del]

section \<open>The buffer parser against the text parser\<close>

text \<open>The states in which a pass of the loop makes progress or stops.\<close>

definition live :: "http_context \<Rightarrow> bool" where
  "live c \<longleftrightarrow> ctx_state c = kExpectRequestLine \<or> ctx_state c = kExpectHeaders"

definition abs_result ::
  "(bool \<times> http_context \<times> buffer) outcome \<Rightarrow> (bool \<times> http_context \<times> string) outcome" where
  "abs_result res = map_sum id (\<lambda>(ok, c, b). (ok, c, readable b)) res"

lemma abs_result_simps [simp]:
  "abs_result (Inl e) = Inl e"
  "abs_result (Inr (ok, c, b)) = Inr (ok, c, readable b)"
  by (simp_all add: abs_result_def)

lemma take_line_findCRLF:
  assumes "buf_wf b"
  shows "take_line (readable b) =
    map_option (\<lambda>p. (line_before p b, drop (p + 2 - peek b) (readable b))) (findCRLF b)"
proof (cases "findCRLF b")
  case None
  then show ?thesis using assms by (simp add: take_line_search findCRLF_None_iff)
next
  case (Some p)
  then have "p = peek b + std_search (readable b) kCRLF"
    and "std_search (readable b) kCRLF < length (readable b)"
    using assms by (simp_all add: findCRLF_Some_iff)
  with Some show ?thesis by (simp add: take_line_search line_before_def)
qed

lemma retrieveUntil_line:
  assumes "buf_wf b" and "findCRLF b = Some p"
  shows "retrieveUntil (p + 2) b = Inr (retrieve (p + 2 - peek b) b)"
proof -
  from assms have p: "p = peek b + std_search (readable b) kCRLF"
    and lt: "std_search (readable b) kCRLF < length (readable b)"
    by (simp_all add: findCRLF_Some_iff)
  have "std_search (readable b) kCRLF + 2 \<le> readableBytes b"
    using std_search_hit_room[OF lt] assms(1) by (simp add: kCRLF_def length_readable)
  from retrieveUntil_Inr[OF assms(1) this] show ?thesis by (simp add: p add.assoc)
qed

lemma context_update:
  "c\<lparr>ctx_request := r, ctx_state := s\<rparr> = \<lparr>ctx_state = s, ctx_request = r\<rparr>"
  by (cases c) simp

lemma spec_parse_None: "take_line s = None \<Longrightarrow> spec_parse t c s = Inr (True, c, s)"
  by (subst spec_parse.simps) simp

lemma parse_loop_refines:
  assumes "buf_wf b" and "live c"
  shows "\<exists>res. parse_loop t True c b = Some res \<and> abs_result res = spec_parse t c (readable b) \<and>
    (\<forall>ok c' b'. res = Inr (ok, c', b') \<longrightarrow> buf_wf b')"
  using assms
proof (induction "length (readable b)" arbitrary: b c rule: less_induct)
  case less
  show ?case
  proof (cases "findCRLF b")
    case None
    with less.prems have "parse_loop t True c b = Some (Inr (True, c, b))"
      by (subst parse_loop.simps) (auto simp: parse_iter_def live_def)
    with None less.prems show ?thesis
      by (simp add: take_line_findCRLF spec_parse_None)
  next
    case (Some p)
    let ?line = "line_before p b" and ?b' = "retrieve (p + 2 - peek b) b"
    have tl: "take_line (readable b) = Some (?line, readable ?b')"
      using Some less.prems(1) by (simp add: take_line_findCRLF readable_retrieve)
    have wf: "buf_wf ?b'" using less.prems(1) by (rule buf_wf_retrieve)
    have shorter: "length (readable ?b') < length (readable b)"
      using take_line_shorter[OF tl] .
    note ru = retrieveUntil_line[OF less.prems(1) Some]
    show ?thesis
    proof (cases "ctx_state c = kExpectRequestLine")
      case True
      show ?thesis
      proof (cases "processRequestLine ?line c")
        case (Inl e)
        then show ?thesis
          by (subst parse_loop.simps, subst spec_parse.simps)
            (simp add: parse_iter_def True Some tl)
      next
        case (Inr r)
        obtain ok c1 where r: "r = (ok, c1)" by fastforce
        let ?c2 = "\<lparr>ctx_state = kExpectHeaders, ctx_request = setReceiveTime t (ctx_request c1)\<rparr>"
        have "live ?c2" by (simp add: live_def)
        from less.hyps[OF shorter wf this] True Some ru less.prems(1) tl Inr r show ?thesis
          by (subst parse_loop.simps, subst spec_parse.simps)
            (simp add: parse_iter_def context_update Let_def)
      qed
    next
      case False
      with less.prems(2) have st: "ctx_state c = kExpectHeaders" by (simp add: live_def)
      let ?c2 = "c\<lparr>ctx_request := addHeader ?line (std_find ?line (CHR '':'')) (ctx_request c)\<rparr>"
      have "live ?c2" using st by (simp add: live_def)
      from less.hyps[OF shorter wf this] st Some ru tl wf show ?thesis
        by (subst parse_loop.simps, subst spec_parse.simps)
          (auto simp: parse_iter_def Let_def std_find_eq_length_iff)
    qed
  qed
qed

lemma parse_loop_live: "parse_loop t ok c b = Some res \<Longrightarrow> live c"
proof (rule parse_loop.raw_induct[where P = "\<lambda>t ok c b res. live c"])
  fix f t ok c b res
  assume IH: "\<And>t ok c b res. f t ok c b = Some res \<Longrightarrow> live c"
    and eq: "(case parse_iter t ok c b of Inl e \<Rightarrow> Some (Inl e)
       | Inr (ok, hasMore, c, b) \<Rightarrow> if hasMore then f t ok c b else Some (Inr (ok, c, b))) = Some res"
  show "live c"
  proof (rule ccontr)
    assume dead: "\<not> live c"
    then have "parse_iter t ok c b = Inr (ok, True, c, b)"
      by (cases "ctx_state c") (auto simp: parse_iter_def live_def)
    with eq have "f t ok c b = Some res" by simp
    with IH dead show False by blast
  qed
qed

section \<open>Contexts that cannot fail the assertion of setMethod\<close>

definition fresh :: "http_context \<Rightarrow> bool" where
  "fresh c \<longleftrightarrow> (ctx_state c = kExpectRequestLine \<longrightarrow> req_method (ctx_request c) = kInvalid)"

lemma fresh_new [simp]: "fresh new_context" "live new_context"
  by (simp_all add: fresh_def live_def new_context_def new_request_def)

lemma ctx_reset_eq: "ctx_reset c = new_context"
  by (cases c) (simp add: ctx_reset_def new_context_def)

lemma processRequestLine_fresh:
  assumes "req_method (ctx_request c) = kInvalid"
  obtains ok c' where "processRequestLine l c = Inr (ok, c')"
proof -
  have "processRequestLine l c \<noteq> Inl e" for e
    using assms by (simp add: processRequestLine_def setMethod_def Let_def)
  with that show thesis by (cases "processRequestLine l c") auto
qed

lemma spec_parse_no_fault: "fresh c \<Longrightarrow> spec_parse t c s \<noteq> Inl e"
proof (induction t c s rule: spec_parse.induct)
  case (1 t c s)
  show ?case
  proof (cases "take_line s")
    case (Some lr)
    obtain l r where lr: "lr = (l, r)" by fastforce
    show ?thesis
    proof (cases "ctx_state c")
      case kExpectRequestLine
      with 1(3) have "req_method (ctx_request c) = kInvalid" by (simp add: fresh_def)
      then obtain ok c' where "processRequestLine l c = Inr (ok, c')"
        by (rule processRequestLine_fresh)
      with 1(1)[OF Some lr[symmetric] kExpectRequestLine this refl] kExpectRequestLine show ?thesis
        by (subst spec_parse.simps) (simp add: Some lr fresh_def)
    next
      case kExpectHeaders
      with 1(2)[OF Some lr[symmetric] kExpectHeaders] show ?thesis
        by (subst spec_parse.simps) (simp add: Some lr fresh_def)
    qed (simp_all add: spec_parse.simps Some lr)
  qed (simp add: spec_parse_None)
qed

section \<open>Text that arrives in pieces\<close>

lemma spec_parse_dead: "\<not> live c \<Longrightarrow> spec_parse t c s = Inr (True, c, s)"
  by (subst spec_parse.simps) (auto simp: live_def split: option.split parse_state.split)

lemma spec_parse_append:
  "spec_parse t c (p @ q) =
     (case spec_parse t c p of
        Inl e \<Rightarrow> Inl e
      | Inr (ok, c', rest) \<Rightarrow>
          if ok \<and> live c' then spec_parse t c' (rest @ q) else Inr (ok, c', rest @ q))"
proof (induction t c p rule: spec_parse.induct)
  case (1 t c p)
  show ?case
  proof (cases "take_line p")
    case None
    then show ?thesis by (simp add: spec_parse_None spec_parse_dead)
  next
    case (Some lr)
    obtain l r where lr: "lr = (l, r)" by fastforce
    have pq: "take_line (p @ q) = Some (l, r @ q)" using Some lr by (simp add: take_line_append)
    show ?thesis
    proof (cases "ctx_state c")
      case kExpectRequestLine
      show ?thesis
      proof (cases "processRequestLine l c")
        case (Inr x)
        obtain ok c' where x: "x = (ok, c')" by fastforce
        show ?thesis
          using 1(1)[OF Some lr[symmetric] kExpectRequestLine Inr x[symmetric]] kExpectRequestLine Inr x
          by (subst (1 2) spec_parse.simps) (simp add: Some lr pq)
      qed (subst (1 2) spec_parse.simps, simp add: Some lr pq kExpectRequestLine)
    next
      case kExpectHeaders
      then show ?thesis
        using 1(2)[OF Some lr[symmetric] kExpectHeaders]
        by (subst (1 2) spec_parse.simps) (simp add: Some lr pq live_def)
    qed (simp_all add: spec_parse_dead live_def)
  qed
qed

section \<open>Printed requests\<close>

text \<open>A request as a client writes it, and the parts for which it is unambiguous.\<close>

definition version_char :: "http_version \<Rightarrow> char" where
  "version_char v = (if v = kHttp11 then CHR ''1'' else CHR ''0'')"

definition header_text :: "(string \<times> string) list \<Rightarrow> string" where
  "header_text hs = concat (map (\<lambda>(k, v). (k @ '': '' @ v) @ kCRLF) hs)"

definition request_line :: "http_method \<Rightarrow> string \<Rightarrow> string \<Rightarrow> http_version \<Rightarrow> string" where
  "request_line m path query v =
     methodString (new_request\<lparr>req_method := m\<rparr>) @ '' '' @ path @ query @ '' HTTP/1.'' @ [version_char v]"

definition request_text ::
  "http_method \<Rightarrow> string \<Rightarrow> string \<Rightarrow> http_version \<Rightarrow> (string \<times> string) list \<Rightarrow> string" where
  "request_text m path query v hs =
     request_line m path query v @ kCRLF @ header_text hs @ kCRLF"

definition plain_target :: "string \<Rightarrow> string \<Rightarrow> bool" where
  "plain_target path query \<longleftrightarrow>
     {CHR '' '', CHR ''?'', CHR 0x0D} \<inter> set path = {} \<and> {CHR '' '', CHR 0x0D} \<inter> set query = {} \<and>
     (query = [] \<or> hd query = CHR ''?'')"

definition plain_headers :: "(string \<times> string) list \<Rightarrow> bool" where
  "plain_headers hs \<longleftrightarrow>
     list_all (\<lambda>(k, v). CHR '':'' \<notin> set k \<and> CHR 0x0D \<notin> set k \<and> CHR 0x0D \<notin> set v \<and> trimmed v) hs"

lemma method_of_methodString:
  "req_method r \<noteq> kInvalid \<Longrightarrow> method_of_string (methodString r) = req_method r"
  by (cases "req_method r") (simp_all add: methodString_def method_of_string_def)

lemma methodString_chars:
  "CHR '' '' \<notin> set (methodString r)" "CHR 0x0D \<notin> set (methodString r)"
  by (cases "req_method r"; simp add: methodString_def)+

lemma find_space: "CHR '' '' \<notin> set w \<Longrightarrow> std_find (w @ '' '' @ rest) (CHR '' '') = length w"
  using std_find_prefix[of "CHR '' ''" w rest] by simp

lemma processRequestLine_format:
  assumes "m \<noteq> kInvalid" and "v \<noteq> kUnknown" and "plain_target path query"
  shows "processRequestLine (request_line m path query v) new_context =
    Inr (True, new_context\<lparr>ctx_request :=
      new_request\<lparr>req_method := m, req_version := v, req_path := path, req_query := query\<rparr>\<rparr>)"
proof -
  let ?m = "methodString (new_request\<lparr>req_method := m\<rparr>)"
  let ?ver = "''HTTP/1.'' @ [version_char v]" and ?start = "path @ query @ '' HTTP/1.'' @ [version_char v]"
  have line: "request_line m path query v = ?m @ '' '' @ ?start" by (simp add: request_line_def)
  have start: "?start = (path @ query) @ '' '' @ ?ver" by simp
  have sp1: "std_find (?m @ '' '' @ ?start) (CHR '' '') = length ?m"
    by (rule find_space) (rule methodString_chars)
  have sp2: "std_find ?start (CHR '' '') = length (path @ query)"
    unfolding start by (rule find_space) (use assms(3) in \<open>auto simp: plain_target_def\<close>)
  have qm: "std_find (path @ query) (CHR ''?'') = length path"
  proof (cases query)
    case Nil
    with assms(3) show ?thesis by (simp add: std_find_notin plain_target_def)
  next
    case (Cons c cs)
    with assms(3) show ?thesis using std_find_prefix[of "CHR ''?''" path cs]
      by (simp add: plain_target_def)
  qed
  show ?thesis
    unfolding line processRequestLine_def sp1 using assms(1,2) sp2 qm
    by (cases v) (auto simp: Let_def setMethod_def new_context_def method_of_methodString
        setPath_def setQuery_def setVersion_def version_char_def new_request_def)
qed

lemma spec_parse_headers:
  assumes "plain_headers hs" and "ctx_state c = kExpectHeaders"
  shows "spec_parse t c (header_text hs @ kCRLF @ rest) =
    Inr (True, \<lparr>ctx_state = kGotAll, ctx_request = (ctx_request c)\<lparr>req_headers :=
      fold (\<lambda>(k, v). map_put k v) hs (req_headers (ctx_request c))\<rparr>\<rparr>, rest)"
  using assms
proof (induction hs arbitrary: c)
  case Nil
  have "take_line (kCRLF @ rest) = Some ([], rest)" using take_line_format[of "[]" rest] by simp
  with Nil show ?case
    by (subst spec_parse.simps) (cases c, simp add: header_text_def)
next
  case (Cons kv hs)
  obtain k v where kv: "kv = (k, v)" by fastforce
  from Cons.prems(1) have kvp: "CHR '':'' \<notin> set k" "CHR 0x0D \<notin> set k" "CHR 0x0D \<notin> set v" "trimmed v"
    and hs: "plain_headers hs" by (auto simp: plain_headers_def kv)
  let ?c = "c\<lparr>ctx_request := (ctx_request c)\<lparr>req_headers := map_put k v (req_headers (ctx_request c))\<rparr>\<rparr>"
  have expand: "header_text (kv # hs) @ kCRLF @ rest =
      (k @ '': '' @ v) @ kCRLF @ header_text hs @ kCRLF @ rest"
    by (simp add: header_text_def kv)
  have "CHR 0x0D \<notin> set (k @ '': '' @ v)" using kvp by simp
  from take_line_format[OF this, of "header_text hs @ kCRLF @ rest"]
  have "take_line (header_text (kv # hs) @ kCRLF @ rest) =
      Some (k @ '': '' @ v, header_text hs @ kCRLF @ rest)"
    unfolding expand .
  moreover have "addHeader (k @ '': '' @ v) (std_find (k @ '': '' @ v) (CHR '':'')) (ctx_request c) =
      (ctx_request c)\<lparr>req_headers := map_put k v (req_headers (ctx_request c))\<rparr>"
    using kvp by (intro addHeader_formatted) auto
  ultimately have "spec_parse t c (header_text (kv # hs) @ kCRLF @ rest) =
      spec_parse t ?c (header_text hs @ kCRLF @ rest)"
    using Cons.prems(2) by (subst spec_parse.simps) simp
  also have "\<dots> = Inr (True, \<lparr>ctx_state = kGotAll, ctx_request = (ctx_request ?c)\<lparr>req_headers :=
      fold (\<lambda>(k, v). map_put k v) hs (req_headers (ctx_request ?c))\<rparr>\<rparr>, rest)"
    using hs Cons.prems(2) by (intro Cons.IH) simp_all
  finally show ?case by (simp add: kv)
qed

lemma spec_parse_request_text:
  assumes "m \<noteq> kInvalid" and "v \<noteq> kUnknown" and "plain_target path query" and "plain_headers hs"
  shows "spec_parse t new_context (request_text m path query v hs @ rest) =
    Inr (True, \<lparr>ctx_state = kGotAll, ctx_request =
      \<lparr>req_method = m, req_version = v, req_path = path, req_query = query, req_receiveTime = t,
       req_headers = fold (\<lambda>(k, v). map_put k v) hs []\<rparr>\<rparr>, rest)"
proof -
  let ?tail = "header_text hs @ kCRLF @ rest"
  have expand: "request_text m path query v hs @ rest = request_line m path query v @ kCRLF @ ?tail"
    by (simp add: request_text_def)
  have "CHR 0x0D \<notin> set (request_line m path query v)"
    using assms(3) methodString_chars(2) by (auto simp: request_line_def plain_target_def version_char_def)
  from take_line_format[OF this, of ?tail]
  have tl: "take_line (request_text m path query v hs @ rest) = Some (request_line m path query v, ?tail)"
    unfolding expand .
  show ?thesis
    using processRequestLine_format[OF assms(1,2,3)] spec_parse_headers[OF assms(4), of _ t rest]
    by (subst spec_parse.simps)
      (simp add: tl new_context_def setReceiveTime_def new_request_def)
qed

section \<open>Properties\<close>

text \<open>C5: \<open>parseRequest\<close> on a Buffer does what reading its text line by line does: the same verdict,
  the same context, and the buffer keeps exactly the unread text, whatever its indices and free
  space are. In particular the loop returns.\<close>

theorem parseRequest_refines:
  assumes "buf_wf b" and "live c"
  shows "\<exists>res. parseRequest b t c = Some res \<and> abs_result res = spec_parse t c (readable b) \<and>
    (\<forall>ok c' b'. res = Inr (ok, c', b') \<longrightarrow> buf_wf b')"
  unfolding parseRequest_def using assms by (rule parse_loop_refines)

theorem parseRequest_refines_witness:
  "\<exists>res. parseRequest (buf_append ''GET / HTTP/1.1'' (new_buffer 4)) (Timestamp 7) new_context = Some res \<and>
     abs_result res = spec_parse (Timestamp 7) new_context ''GET / HTTP/1.1''"
proof -
  let ?b = "buf_append ''GET / HTTP/1.1'' (new_buffer 4)"
  have wf: "buf_wf ?b" by (rule buf_wf_append[OF buf_wf_new])
  have rd: "readable ?b = ''GET / HTTP/1.1''" using readable_append[OF buf_wf_new] by simp
  show ?thesis using parseRequest_refines[OF wf fresh_new(2), of "Timestamp 7"] unfolding rd by blast
qed

text \<open>C33: the loop of \<open>parseRequest\<close> returns exactly in the states \<open>kExpectRequestLine\<close> and
  \<open>kExpectHeaders\<close>: called on a context that already has its request (\<open>kGotAll\<close>, before \<open>reset\<close>)
  or in \<open>kExpectBody\<close>, no branch changes \<open>hasMore\<close> and the loop runs forever.\<close>

theorem parseRequest_returns_iff:
  assumes "buf_wf b"
  shows "(\<exists>res. parseRequest b t c = Some res) \<longleftrightarrow>
    ctx_state c = kExpectRequestLine \<or> ctx_state c = kExpectHeaders"
  using parse_loop_refines[OF assms, of c t] parse_loop_live[of t True c b]
  unfolding parseRequest_def live_def by blast

theorem parseRequest_returns_iff_witness:
  "parseRequest (new_buffer 1) (Timestamp 0) (new_context\<lparr>ctx_state := kGotAll\<rparr>) = None"
  using parseRequest_returns_iff[OF buf_wf_new, of 1 "Timestamp 0" "new_context\<lparr>ctx_state := kGotAll\<rparr>"] by auto

text \<open>C34: the assertion of \<open>setMethod\<close> (and those of \<open>retrieveUntil\<close>) never fail when a request is
  parsed with a new or reset context, whatever the bytes are.\<close>

theorem parseRequest_fresh_safe:
  assumes "buf_wf b"
  shows "\<exists>ok c' b'. parseRequest b t (ctx_reset c) = Some (Inr (ok, c', b')) \<and> buf_wf b'"
proof -
  from parse_loop_refines[OF assms, of new_context t] obtain res where
    res: "parse_loop t True new_context b = Some res" "abs_result res = spec_parse t new_context (readable b)"
    "\<forall>ok c' b'. res = Inr (ok, c', b') \<longrightarrow> buf_wf b'" by auto
  show ?thesis
  proof (cases res)
    case (Inl e)
    with res(2) spec_parse_no_fault[OF fresh_new(1), of t "readable b" e] show ?thesis by simp
  next
    case (Inr x)
    with res show ?thesis by (cases x) (auto simp: parseRequest_def ctx_reset_eq)
  qed
qed

theorem parseRequest_fresh_safe_witness:
  "\<exists>ok c' b'. parseRequest (buf_append (kCRLF @ kCRLF) (new_buffer 0)) (Timestamp 0) (ctx_reset new_context)
     = Some (Inr (ok, c', b'))"
  using parseRequest_fresh_safe[OF buf_wf_append[OF buf_wf_new], of "kCRLF @ kCRLF" 0] by blast

text \<open>C26: the parser is incremental. When it stopped for want of bytes, appending the missing bytes
  and calling it again on the same context ends exactly as one call on all of the bytes would have.\<close>

theorem parseRequest_incremental:
  assumes "buf_wf b" and "parseRequest b t c = Some (Inr (True, c1, b1))" and "live c1"
  shows "map_option abs_result (parseRequest (buf_append q b1) t c1) =
    map_option abs_result (parseRequest (buf_append q b) t c)"
proof -
  have c: "live c" using assms(2) parse_loop_live by (auto simp: parseRequest_def)
  from parse_loop_refines[OF assms(1) c, of t] assms(2)
  have b1: "buf_wf b1" and sp: "spec_parse t c (readable b) = Inr (True, c1, readable b1)"
    by (auto simp: parseRequest_def)
  have "map_option abs_result (parseRequest (buf_append q b1) t c1) = Some (spec_parse t c1 (readable b1 @ q))"
    using parse_loop_refines[OF buf_wf_append[OF b1, of q] assms(3), of t] b1
    by (auto simp: parseRequest_def readable_append)
  also have "spec_parse t c1 (readable b1 @ q) = spec_parse t c (readable b @ q)"
    by (simp add: spec_parse_append[of t c] sp assms(3))
  also have "Some \<dots> = map_option abs_result (parseRequest (buf_append q b) t c)"
    using parse_loop_refines[OF buf_wf_append[OF assms(1), of q] c, of t] assms(1)
    by (auto simp: parseRequest_def readable_append)
  finally show ?thesis .
qed

theorem parseRequest_incremental_witness:
  "\<exists>c1 b1. parseRequest (new_buffer 8) (Timestamp 0) new_context = Some (Inr (True, c1, b1)) \<and> live c1 \<and>
     map_option abs_result (parseRequest (buf_append ''GET'' b1) (Timestamp 0) c1) =
     map_option abs_result (parseRequest (buf_append ''GET'' (new_buffer 8)) (Timestamp 0) new_context)"
proof -
  have "findCRLF (new_buffer 8) = None" by code_simp
  then have "parseRequest (new_buffer 8) (Timestamp 0) new_context = Some (Inr (True, new_context, new_buffer 8))"
    by (subst parseRequest_def, subst parse_loop.simps) (simp add: parse_iter_def new_context_def)
  from this parseRequest_incremental[OF buf_wf_new this fresh_new(2)] show ?thesis by auto
qed

text \<open>C25: a printed request is read back. On the text of a request line and headers followed by an
  empty line, the parser succeeds, has its method, path, query, version and headers (the last of
  two headers of one name), and leaves the bytes that follow in the buffer.\<close>

theorem parseRequest_roundtrip:
  assumes "buf_wf b" and "readable b = request_text m path query v hs @ rest"
    and "m \<noteq> kInvalid" and "v \<noteq> kUnknown" and "plain_target path query" and "plain_headers hs"
  shows "\<exists>c' b'. parseRequest b t new_context = Some (Inr (True, c', b')) \<and> gotAll c' \<and>
    readable b' = rest \<and>
    ctx_request c' = \<lparr>req_method = m, req_version = v, req_path = path, req_query = query,
      req_receiveTime = t, req_headers = fold (\<lambda>(k, v). map_put k v) hs []\<rparr> \<and>
    (distinct (map fst hs) \<longrightarrow> (\<forall>(k, v) \<in> set hs. getHeader k (ctx_request c') = v))"
proof -
  let ?r = "\<lparr>req_method = m, req_version = v, req_path = path, req_query = query,
      req_receiveTime = t, req_headers = fold (\<lambda>(k, v). map_put k v) hs []\<rparr>"
  obtain res where res: "parse_loop t True new_context b = Some res"
    "abs_result res = spec_parse t new_context (readable b)"
    using parse_loop_refines[OF assms(1) fresh_new(2)] by blast
  then obtain b' where "res = Inr (True, \<lparr>ctx_state = kGotAll, ctx_request = ?r\<rparr>, b')" "readable b' = rest"
    unfolding assms(2) spec_parse_request_text[OF assms(3-6)] by (cases res) auto
  moreover have "distinct (map fst hs) \<longrightarrow> (\<forall>(k, v) \<in> set hs. getHeader k ?r = v)"
    using hdr.find_puts_distinct[OF hdr.invar_empty, of hs] by (auto simp: getHeader_def)
  ultimately show ?thesis using res(1) by (auto simp: parseRequest_def gotAll_def)
qed

theorem parseRequest_roundtrip_witness:
  "\<exists>c' b'. parseRequest
       (buf_append (request_text kGet ''/x'' ''?a=1'' kHttp11 [(''Host'', ''h'')]) (new_buffer 4))
       (Timestamp 9) new_context = Some (Inr (True, c', b')) \<and>
     req_path (ctx_request c') = ''/x'' \<and> req_query (ctx_request c') = ''?a=1'' \<and>
     getHeader ''Host'' (ctx_request c') = ''h''"
proof -
  define b where "b = buf_append (request_text kGet ''/x'' ''?a=1'' kHttp11 [(''Host'', ''h'')]) (new_buffer 4)"
  have b: "buf_wf b" "readable b = request_text kGet ''/x'' ''?a=1'' kHttp11 [(''Host'', ''h'')] @ []"
    by (simp_all add: b_def buf_append_facts)
  have p: "plain_target ''/x'' ''?a=1''" "plain_headers [(''Host'', ''h'')]" by code_simp+
  show ?thesis
    using parseRequest_roundtrip[OF b _ _ p, of "Timestamp 9"] unfolding b_def[symmetric] by auto
qed

end
