(* ===== verification/Http_Response.thy ===== *)
theory Http_Response
  imports Http_Context
begin

text \<open>
  \<open>HttpResponse\<close> (http/include/http/HttpResponse.h, http/src/HttpResponse.cc): a response and how
  it is written to a Buffer. \<open>response_text\<close> is the text it stands for, and \<open>read_head\<close> how a
  client takes it apart again.
\<close>

datatype http_status = kStatusUnknown | k200Ok | k301MovedPermanently | k400BadRequest | k404NotFound

fun status_code :: "http_status \<Rightarrow> int" where
  "status_code kStatusUnknown = 0"
| "status_code k200Ok = 200"
| "status_code k301MovedPermanently = 301"
| "status_code k400BadRequest = 400"
| "status_code k404NotFound = 404"

record http_response =
  resp_headers :: "(string \<times> string) list"
  statusCode :: http_status
  statusMessage :: string
  closeConnection :: bool
  resp_body :: string

definition new_response :: "bool \<Rightarrow> http_response" where
  "new_response close =
     \<lparr>resp_headers = [], statusCode = kStatusUnknown, statusMessage = [], closeConnection = close,
      resp_body = []\<rparr>"

definition setStatusCode :: "http_status \<Rightarrow> http_response \<Rightarrow> http_response" where
  "setStatusCode code r = r\<lparr>statusCode := code\<rparr>"

definition setStatusMessage :: "string \<Rightarrow> http_response \<Rightarrow> http_response" where
  "setStatusMessage message r = r\<lparr>statusMessage := message\<rparr>"

definition setCloseConnection :: "bool \<Rightarrow> http_response \<Rightarrow> http_response" where
  "setCloseConnection on r = r\<lparr>closeConnection := on\<rparr>"

definition resp_addHeader :: "string \<Rightarrow> string \<Rightarrow> http_response \<Rightarrow> http_response" where
  "resp_addHeader key val r = r\<lparr>resp_headers := map_put key val (resp_headers r)\<rparr>"

definition setContentType :: "string \<Rightarrow> http_response \<Rightarrow> http_response" where
  "setContentType contentType r = resp_addHeader ''Content-Type'' contentType r"

definition setBody :: "string \<Rightarrow> http_response \<Rightarrow> http_response" where
  "setBody body r = r\<lparr>resp_body := body\<rparr>"

definition appendToBuffer :: "http_response \<Rightarrow> buffer \<Rightarrow> buffer" where
  "appendToBuffer r output =
     (let output = buf_append (snprintf 32 (''HTTP/1.1 '' @ show_int (status_code (statusCode r)) @ '' '')) output;
          output = buf_append (statusMessage r) output;
          output = buf_append kCRLF output;
          output =
            (if closeConnection r
             then buf_append (''Connection: close'' @ kCRLF) output
             else let output = buf_append (snprintf 32 (''Content-Length: '' @
                        show_nat (length (resp_body r)) @ kCRLF)) output
                  in buf_append (''Connection: Keep-Alive'' @ kCRLF) output);
          output = fold (\<lambda>(key, val) output.
                     let output = buf_append key output;
                         output = buf_append '': '' output;
                         output = buf_append val output
                     in buf_append kCRLF output) (resp_headers r) output;
          output = buf_append kCRLF output
      in buf_append (resp_body r) output)"

section \<open>The text of a response\<close>

definition status_line :: "http_response \<Rightarrow> string" where
  "status_line r = ''HTTP/1.1 '' @ show_int (status_code (statusCode r)) @ '' '' @ statusMessage r"

definition head_lines :: "http_response \<Rightarrow> string list" where
  "head_lines r =
     status_line r #
     (if closeConnection r then [''Connection: close'']
      else [''Content-Length: '' @ show_nat (length (resp_body r)), ''Connection: Keep-Alive'']) @
     map (\<lambda>(k, v). k @ '': '' @ v) (resp_headers r)"

definition response_text :: "http_response \<Rightarrow> string" where
  "response_text r = concat (map (\<lambda>l. l @ kCRLF) (head_lines r)) @ kCRLF @ resp_body r"

lemma status_prefix_fits:
  "snprintf 32 (''HTTP/1.1 '' @ show_int (status_code (statusCode r)) @ '' '') =
     ''HTTP/1.1 '' @ show_int (status_code (statusCode r)) @ '' ''"
proof -
  have "length (show_int (status_code (statusCode r))) \<le> 3"
    by (cases "statusCode r") (simp_all add: length_show_nat show_int_def)
  then show ?thesis by (simp add: snprintf_fits)
qed

lemma content_length_fits:
  assumes "length body < 10 ^ 13"
  shows "snprintf 32 (''Content-Length: '' @ show_nat (length body) @ kCRLF) =
    ''Content-Length: '' @ show_nat (length body) @ kCRLF"
proof -
  have "length (show_nat (length body)) \<le> 13" using assms by (intro length_show_nat) simp_all
  then show ?thesis by (simp add: snprintf_fits kCRLF_def)
qed

lemma append_header_lines:
  "buf_wf b \<Longrightarrow>
     let b' = fold (\<lambda>(key, val) b.
       let b = buf_append key b; b = buf_append '': '' b; b = buf_append val b
       in buf_append kCRLF b) hs b
     in buf_wf b' \<and> readable b' = readable b @ concat (map (\<lambda>(k, v). (k @ '': '' @ v) @ kCRLF) hs)"
proof (induction hs arbitrary: b)
  case (Cons kv hs)
  obtain k v where "kv = (k, v)" by fastforce
  with Cons.IH[of "buf_append kCRLF (buf_append v (buf_append '': '' (buf_append k b)))"] Cons.prems
  show ?case by (simp add: Let_def buf_append_facts)
qed simp

text \<open>A client reads lines up to the empty one; the rest is the body and what follows it.\<close>

function read_head :: "string \<Rightarrow> (string list \<times> string) option" where
  "read_head s =
     (case take_line s of
        None \<Rightarrow> None
      | Some (l, rest) \<Rightarrow>
          if l = [] then Some ([], rest)
          else map_option (\<lambda>(ls, body). (l # ls, body)) (read_head rest))"
  by pat_completeness auto
termination
  by (relation "measure length") (auto dest: take_line_shorter)

declare read_head.simps [simp del]

lemma read_head_lines:
  assumes "\<forall>l \<in> set ls. l \<noteq> [] \<and> CHR 0x0D \<notin> set l"
  shows "read_head (concat (map (\<lambda>l. l @ kCRLF) ls) @ kCRLF @ rest) = Some (ls, rest)"
  using assms
proof (induction ls)
  case Nil
  have "take_line (kCRLF @ rest) = Some ([], rest)" using take_line_format[of "[]" rest] by simp
  then show ?case by (subst read_head.simps) simp
next
  case (Cons l ls)
  then show ?case
    using take_line_format[of l "concat (map (\<lambda>l. l @ kCRLF) ls) @ kCRLF @ rest"]
    by (subst read_head.simps) simp
qed

definition plain_response :: "http_response \<Rightarrow> bool" where
  "plain_response r \<longleftrightarrow> CHR 0x0D \<notin> set (statusMessage r) \<and>
     list_all (\<lambda>(k, v). CHR 0x0D \<notin> set k \<and> CHR 0x0D \<notin> set v) (resp_headers r)"

lemma digit_char_not_CR: "d < 10 \<Longrightarrow> digit_char d \<noteq> CHR 0x0D"
proof
  assume "d < 10" "digit_char d = CHR 0x0D"
  then have "(of_char (digit_char d) :: nat) = 13" by simp
  with \<open>d < 10\<close> show False by (simp add: digit_char_def)
qed

lemma show_nat_no_CR: "CHR 0x0D \<notin> set (show_nat n)"
proof (induction n rule: show_nat.induct)
  case (1 n)
  then show ?case
    using digit_char_not_CR[of n] digit_char_not_CR[of "n mod 10"]
    by (subst show_nat.simps) (auto dest: not_sym)
qed

lemma head_lines_plain:
  assumes "plain_response r"
  shows "\<forall>l \<in> set (head_lines r). l \<noteq> [] \<and> CHR 0x0D \<notin> set l"
proof -
  have "CHR 0x0D \<notin> set (show_int (status_code (statusCode r)))"
    by (cases "statusCode r") (simp_all add: show_int_def show_nat_no_CR)
  with assms show ?thesis
    by (auto simp: head_lines_def status_line_def plain_response_def list_all_iff show_nat_no_CR)
qed

section \<open>Properties\<close>

lemma appendToBuffer_facts:
  assumes "buf_wf b" and "closeConnection r \<or> length (resp_body r) < 10 ^ 13"
  shows "readable (appendToBuffer r b) = readable b @ response_text r \<and> buf_wf (appendToBuffer r b)"
proof -
  let ?hd = "concat (map (\<lambda>(k, v). (k @ '': '' @ v) @ kCRLF) (resp_headers r))"
  have hd: "concat (map (\<lambda>l. l @ kCRLF) (map (\<lambda>(k, v). k @ '': '' @ v) (resp_headers r))) = ?hd"
    by (rule arg_cong[of _ _ concat]) (simp add: case_prod_unfold)
  show ?thesis
  proof (cases "closeConnection r")
    case True
    with append_header_lines[of _ "resp_headers r"] assms(1) hd show ?thesis
      unfolding appendToBuffer_def response_text_def head_lines_def status_line_def Let_def
        status_prefix_fits
      by (simp add: buf_append_facts)
  next
    case False
    with assms(2) have "length (resp_body r) < 10 ^ 13" by simp
    note cl = content_length_fits[OF this]
    from False append_header_lines[of _ "resp_headers r"] assms(1) hd show ?thesis
      unfolding appendToBuffer_def response_text_def head_lines_def status_line_def Let_def
        status_prefix_fits cl
      by (simp add: buf_append_facts)
  qed
qed

text \<open>\<open>appendToBuffer\<close> appends exactly the response's text: the status line, either
  \<open>Connection: close\<close> or the length of the body and \<open>Connection: Keep-Alive\<close>, the headers in the
  order of the map, an empty line and the body. The 32-byte array cuts nothing off for bodies
  below 10^13 bytes.\<close>

theorem appendToBuffer_text:
  assumes "buf_wf b" and "closeConnection r \<or> length (resp_body r) < 10 ^ 13"
  shows "readable (appendToBuffer r b) = readable b @ response_text r \<and> buf_wf (appendToBuffer r b)"
  by (rule appendToBuffer_facts[OF assms])

theorem appendToBuffer_text_witness:
  "readable (appendToBuffer (setBody ''hi'' (setStatusCode k200Ok (new_response False))) (new_buffer 8)) =
     response_text (setBody ''hi'' (setStatusCode k200Ok (new_response False)))"
  using appendToBuffer_text[OF buf_wf_new, of "setBody ''hi'' (setStatusCode k200Ok (new_response False))" 8]
  by (simp add: setBody_def)



end
