(* ===== verification/Http_Server.thy ===== *)
theory Http_Server
  imports Tcp_Server Conn_Frame Http_Response
begin

text \<open>
  \<open>HttpServer\<close> (http/include/http/HttpServer.h, http/src/HttpServer.cc): the HTTP server as an
  application of the TCP server. Its state is the server's world with the HTTP callback; its members
  are the connection and message callbacks of the TCP server.
\<close>

section \<open>State\<close>

record http_world = server_world +
  httpCallback :: "(http_request \<Rightarrow> http_response \<Rightarrow> http_response) option"

definition defaultHttpCallback :: "http_request \<Rightarrow> http_response \<Rightarrow> http_response" where
  "defaultHttpCallback req resp =
     setCloseConnection True (setStatusMessage ''Not Found'' (setStatusCode k404NotFound resp))"

definition new_http_server ::
  "nat option \<Rightarrow> nat \<Rightarrow> sockaddr_in \<Rightarrow> string \<Rightarrow> reuse_option \<Rightarrow> int \<Rightarrow> int \<Rightarrow> world \<Rightarrow> http_world outcome" where
  "new_http_server loop ptr listenAddr name option sockfd rc w =
     bindR (new_tcp_server loop ptr listenAddr name option sockfd rc w) (\<lambda>s.
     Inr (server_world.extend
       (server_setMessageCallback True (server_setConnectionCallback True s))
       (http_world.fields (Some defaultHttpCallback))))"

definition setHttpCallback ::
  "(http_request \<Rightarrow> http_response \<Rightarrow> http_response) option \<Rightarrow> 'z http_world_scheme \<Rightarrow> 'z http_world_scheme" where
  "setHttpCallback cb w = w\<lparr>httpCallback := cb\<rparr>"

definition http_setThreadNum :: "int \<Rightarrow> 'z http_world_scheme \<Rightarrow> 'z http_world_scheme" where
  "http_setThreadNum n w = server_setThreadNum n w"

definition http_start ::
  "kernel \<Rightarrow> bool \<Rightarrow> (nat \<Rightarrow> 'z http_world_scheme \<Rightarrow> 'z http_world_scheme outcome) \<Rightarrow> (nat \<Rightarrow> spawned) \<Rightarrow>
   int \<Rightarrow> int \<Rightarrow> nat \<Rightarrow> 'z http_world_scheme \<Rightarrow> 'z http_world_scheme outcome" where
  "http_start k use_poll init spawn numCreated rc tid w = server_start k use_poll init spawn numCreated rc tid w"

section \<open>The callbacks\<close>

text \<open>\<open>onConnection\<close> only logs.\<close>

definition onConnection :: "nat \<Rightarrow> 'z http_world_scheme \<Rightarrow> 'z http_world_scheme outcome" where
  "onConnection c w = Inr w"

definition onRequest ::
  "kernel \<Rightarrow> nat \<Rightarrow> nat \<Rightarrow> http_request \<Rightarrow> 'z http_world_scheme \<Rightarrow> 'z http_world_scheme outcome" where
  "onRequest k tid c req w =
     (let connection = getHeader ''Connection'' req;
          close = (connection = ''close'' \<or> req_version req = kHttp10 \<and> connection \<noteq> ''Keep-Alive'')
      in case httpCallback w of
           None \<Rightarrow> Inl BadFunctionCall
         | Some cb \<Rightarrow>
             let response = cb req (new_response close);
                 buf = appendToBuffer response (new_buffer kInitialSize)
             in bindR (send_buffer k tid c buf w) (\<lambda>(buf, w).
                if closeConnection response then shutdown tid c w else Inr w))"

definition bad_request :: string where
  "bad_request = ''HTTP/1.1 400 Bad Request'' @ kCRLF @ kCRLF"

text \<open>
  \<open>onMessage\<close>: each message is parsed with a new context. \<open>tmp\<close> is where the temporary string of the
  400 answer lives.
\<close>

definition onMessage ::
  "kernel \<Rightarrow> nat \<Rightarrow> nat \<Rightarrow> nat \<Rightarrow> timestamp \<Rightarrow> 'z http_world_scheme \<Rightarrow> 'z http_world_scheme outcome" where
  "onMessage k tmp tid c receiveTime w =
     (case parseRequest (inputBuffer (conns w c)) receiveTime new_context of
        None \<Rightarrow> Inl NoReturn
      | Some parsed \<Rightarrow>
          bindR parsed (\<lambda>(ok, context, buf).
          let w = set_conn c ((conns w c)\<lparr>inputBuffer := buf\<rparr>) w in
          bindR
            (if \<not> ok
             then bindR (with_string tmp bad_request (send_string k tid c tmp) w) (shutdown tid c)
             else Inr w)
            (\<lambda>w. if gotAll context then onRequest k tid c (ctx_request context) w else Inr w)))"

text \<open>The server sets no write-complete and no high-water callback.\<close>

definition http_app :: "kernel \<Rightarrow> nat \<Rightarrow> nat \<Rightarrow> 'z http_world_scheme user_code" where
  "http_app k tmp tid =
     \<lparr>on_connection = onConnection, on_message = onMessage k tmp tid,
      on_writeComplete = (\<lambda>c w. Inl BadFunctionCall), on_highWaterMark = (\<lambda>c n w. Inl BadFunctionCall),
      on_close = (\<lambda>c w. Inl BadFunctionCall)\<rparr>"

section \<open>The callbacks as sequences of connection operations\<close>

definition wants_close :: "http_request \<Rightarrow> bool" where
  "wants_close req \<longleftrightarrow> getHeader ''Connection'' req = ''close'' \<or>
     req_version req = kHttp10 \<and> getHeader ''Connection'' req \<noteq> ''Keep-Alive''"

definition reply_ops :: "http_response \<Rightarrow> conn_op list" where
  "reply_ops r = OpSendBuffer (appendToBuffer r (new_buffer kInitialSize)) # (if closeConnection r then [OpShutdown] else [])"

lemma bindR_done: "bindR m (foldR f []) = m"
  by (cases m) simp_all

lemma onRequest_ops:
  "httpCallback w = Some cb \<Longrightarrow>
     onRequest k tid c req w = foldR (conn_do k tid c) (reply_ops (cb req (new_response (wants_close req)))) w"
  by (auto simp: onRequest_def reply_ops_def wants_close_def Let_def bindR_assoc case_prod_unfold bindR_done)

lemma parse_new:
  assumes "buf_wf b"
  shows "\<exists>ok ctx b'. parseRequest b t new_context = Some (Inr (ok, ctx, b')) \<and> buf_wf b' \<and>
    spec_parse t new_context (readable b) = Inr (ok, ctx, readable b')"
proof -
  from parse_loop_refines[OF assms fresh_new(2), of t] obtain res where
    res: "parseRequest b t new_context = Some res" "abs_result res = spec_parse t new_context (readable b)"
    "\<forall>ok c' b'. res = Inr (ok, c', b') \<longrightarrow> buf_wf b'" by (auto simp: parseRequest_def)
  show ?thesis
  proof (cases res)
    case (Inl e)
    with res(2) spec_parse_no_fault[OF fresh_new(1), of t "readable b" e] show ?thesis by simp
  qed (use res in auto)
qed

lemma onMessage_ops:
  assumes "parseRequest (inputBuffer (conns w c)) t new_context = Some (Inr (ok, ctx, b))"
  shows "onMessage k tmp tid c t w =
    bindR (foldR (conn_do k tid c) (if ok then [] else [OpSend tmp bad_request, OpShutdown])
        (set_conn c ((conns w c)\<lparr>inputBuffer := b\<rparr>) w))
      (\<lambda>w. if gotAll ctx then onRequest k tid c (ctx_request ctx) w else Inr w)"
  using assms by (simp add: onMessage_def Let_def bindR_assoc)

text \<open>What is parsed decides what is done to the connection.\<close>

definition message_ops ::
  "(http_request \<Rightarrow> http_response \<Rightarrow> http_response) \<Rightarrow> nat \<Rightarrow> bool \<Rightarrow> http_context \<Rightarrow> conn_op list" where
  "message_ops cb tmp ok ctx = (if ok then [] else [OpSend tmp bad_request, OpShutdown]) @
     (if gotAll ctx then reply_ops (cb (ctx_request ctx) (new_response (wants_close (ctx_request ctx)))) else [])"

lemma onMessage_run:
  fixes w :: "'z http_world_scheme"
  assumes "parseRequest (inputBuffer (conns w c)) t new_context = Some (Inr (ok, ctx, b))" and "httpCallback w = Some cb"
  shows "onMessage k tmp tid c t w =
    foldR (conn_do k tid c) (message_ops cb tmp ok ctx) (set_conn c ((conns w c)\<lparr>inputBuffer := b\<rparr>) w)"
proof -
  let ?w1 = "set_conn c ((conns w c)\<lparr>inputBuffer := b\<rparr>) w"
  let ?err = "if ok then [] else [OpSend tmp bad_request, OpShutdown]"
  have cb: "httpCallback w2 = Some cb" if "foldR (conn_do k tid c) ?err ?w1 = Inr w2" for w2
  proof -
    have "OpWritable \<notin> set ?err" by simp
    from conn_dos_keep[OF that this] have "world.more w2 = world.more w" by (simp add: conn_frame_def)
    then have "httpCallback w2 = httpCallback w" by (cases w; cases w2; simp)
    with assms(2) show ?thesis by simp
  qed
  show ?thesis
    unfolding onMessage_ops[OF assms(1)] message_ops_def foldR_append
    by (cases "foldR (conn_do k tid c) ?err ?w1") (auto simp: onRequest_ops[OF cb])
qed

text \<open>A message on a connection that is up.\<close>

lemma message_facts:
  fixes w :: "'z http_world_scheme"
  assumes "up k tid c log0 w" and "conn_state (conns w c) = kConnected" and "takes_prefix k"
    and "parseRequest (inputBuffer (conns w c)) t new_context = Some (Inr (ok, ctx, b))" and "buf_wf b"
    and "ops = (if ok then [] else [OpSend tmp bad_request, OpShutdown]) @
      (if gotAll ctx then reply_ops (cb (ctx_request ctx) (new_response (wants_close (ctx_request ctx)))) else [])"
    and "httpCallback w = Some cb" and "\<forall>op \<in> set ops. op_fits op"
  shows "\<exists>w'. onMessage k tmp tid c t w = Inr w' \<and> up k tid c log0 w' \<and>
    out_stream c w' = out_stream c w @ submitted ops \<and> inputBuffer (conns w' c) = b \<and>
    conn_state (conns w' c) = (if OpShutdown \<in> set ops then kDisconnecting else kConnected) \<and>
    world.more w' = world.more w \<and> conn_fd (conns w' c) = conn_fd (conns w c) \<and>
    messageCallback_set (conns w' c) = messageCallback_set (conns w c)"
proof -
  let ?w1 = "set_conn c ((conns w c)\<lparr>inputBuffer := b\<rparr>) w"
  have w1: "up k tid c log0 ?w1" "conn_state (conns ?w1 c) = kConnected" "out_stream c ?w1 = out_stream c w"
    using up_set_in[OF assms(1,5)] assms(2) by (simp_all add: out_stream_def)
  have nw: "OpWritable \<notin> set ops" using assms(6) by (auto simp: reply_ops_def)
  from up_run[OF w1(1) assms(3,8)] obtain w' where
    w': "foldR (conn_do k tid c) ops ?w1 = Inr w'" "up k tid c log0 w'"
      "conn_fd (conns w' c) = conn_fd (conns w c)"
      "conn_state (conns w' c) = (if OpShutdown \<in> set ops then kDisconnecting else kConnected)"
      "out_stream c w' = out_stream c w @ submitted ops"
    unfolding w1(2,3) by auto
  from conn_dos_keep[OF w'(1) nw] have keep: "conn_frame ?w1 w'" "same_input ?w1 w'" by simp_all
  have "onMessage k tmp tid c t w = foldR (conn_do k tid c) ops ?w1"
    unfolding assms(6) message_ops_def[symmetric] by (rule onMessage_run[OF assms(4,7)])
  with w' keep show ?thesis
    by (intro exI[of _ w']) (simp add: conn_frame_def same_input_def)
qed

section \<open>A message as it arrives\<close>

text \<open>The callbacks that the server gives a connection of the HTTP server.\<close>

abbreviation http_user :: "kernel \<Rightarrow> nat \<Rightarrow> nat \<Rightarrow> 'z http_world_scheme user_code" where
  "http_user k tmp tid \<equiv> server_user (http_app k tmp tid) tid"

lemma gotAll_failed: "spec_parse t c s = Inr (False, ctx, r) \<Longrightarrow> \<not> gotAll c \<Longrightarrow> \<not> gotAll ctx"
proof (induction t c s rule: spec_parse.induct)
  case (1 t c s)
  have keep: "ctx_state c' = ctx_state c" if "processRequestLine l c = Inr (ok, c')" for l ok c'
    using that by (auto simp: processRequestLine_def Let_def bindR_eq_Inr split: if_splits prod.splits)
  from 1(3)[unfolded spec_parse.simps[of t c s]] 1(1,2,4) keep show ?case
    by (auto simp: gotAll_def split: option.splits parse_state.splits sum.splits if_splits prod.splits)
qed

text \<open>Bytes that arrive are appended to the input buffer, and the callback is called.\<close>

lemma handleRead_message:
  fixes w :: "'z http_world_scheme"
  assumes "in_loop k tid c w" and "conn_inv c w" and "conn_state (conns w c) = kConnected"
    and "messageCallback_set (conns w c)" and "k_read k (sock_log w) (conn_fd (conns w c)) = Inr d" and "d \<noteq> []"
  shows "\<exists>w1 b. handleRead k (http_user k tmp tid) tid c t w = onMessage k tmp tid c t w1 \<and>
    up k tid c (sock_log w @ [ReadData (conn_fd (conns w c)) d]) w1 \<and>
    conns w1 = (conns w)(c := (conns w c)\<lparr>inputBuffer := b\<rparr>) \<and> buf_wf b \<and>
    readable b = readable (inputBuffer (conns w c)) @ d \<and> out_stream c w1 = out_stream c w \<and>
    world.more w1 = world.more w"
  using handleRead_arrival[OF assms, of "http_user k tmp tid" t] by (simp add: server_user_def http_app_def)

text \<open>From the socket to the socket: what was parsed decides the writes.\<close>

lemma arrival_facts:
  fixes w :: "'z http_world_scheme"
  assumes "in_loop k tid c w" and "conn_inv c w" and "conn_state (conns w c) = kConnected"
    and "takes_prefix k" and "messageCallback_set (conns w c)" and "httpCallback w = Some cb"
    and "k_read k (sock_log w) (conn_fd (conns w c)) = Inr d" and "d \<noteq> []"
    and "spec_parse t new_context (readable (inputBuffer (conns w c)) @ d) = Inr (ok, ctx, rest)"
    and "ops = (if ok then [] else [OpSend tmp bad_request, OpShutdown]) @
      (if gotAll ctx then reply_ops (cb (ctx_request ctx) (new_response (wants_close (ctx_request ctx)))) else [])"
    and "\<forall>op \<in> set ops. op_fits op"
  shows "\<exists>w' evs. handleRead k (http_user k tmp tid) tid c t w = Inr w' \<and>
    in_loop k tid c w' \<and> conn_inv c w' \<and>
    out_stream c w' = out_stream c w @ submitted ops \<and> readable (inputBuffer (conns w' c)) = rest \<and>
    conn_state (conns w' c) = (if OpShutdown \<in> set ops then kDisconnecting else kConnected) \<and>
    wrote_only (conn_fd (conns w c)) evs \<and>
    sock_log w' = sock_log w @ ReadData (conn_fd (conns w c)) d # evs @
      (if OpShutdown \<in> set ops \<and> readable (outputBuffer (conns w' c)) = [] then [ShutWr (conn_fd (conns w c))] else []) \<and>
    world.more w' = world.more w \<and> conn_fd (conns w' c) = conn_fd (conns w c) \<and>
    messageCallback_set (conns w' c) = messageCallback_set (conns w c)"
proof -
  let ?fd = "conn_fd (conns w c)" and ?log = "sock_log w @ [ReadData (conn_fd (conns w c)) d]"
  from handleRead_message[OF assms(1-3,5,7,8), where tmp = tmp and t = t] obtain w1 b where
    w1: "handleRead k (http_user k tmp tid) tid c t w = onMessage k tmp tid c t w1" "up k tid c ?log w1"
      "conns w1 = (conns w)(c := (conns w c)\<lparr>inputBuffer := b\<rparr>)" "buf_wf b"
      "readable b = readable (inputBuffer (conns w c)) @ d" "out_stream c w1 = out_stream c w"
      "world.more w1 = world.more w" by blast
  from parse_new[OF w1(4), of t] assms(9) w1(5) obtain b' where
    b': "parseRequest b t new_context = Some (Inr (ok, ctx, b'))" "buf_wf b'" "readable b' = rest" by auto
  have st: "conn_state (conns w1 c) = kConnected" "inputBuffer (conns w1 c) = b" using assms(3) by (simp_all add: w1(3))
  have cb: "httpCallback w1 = Some cb" using w1(7) assms(6) by (cases w; cases w1; simp)
  from message_facts[OF w1(2) st(1) assms(4) _ b'(2) assms(10) cb assms(11), where t = t] b'(1) st(2) obtain w' where
    w': "onMessage k tmp tid c t w1 = Inr w'" "up k tid c ?log w'" "out_stream c w' = out_stream c w @ submitted ops"
      "inputBuffer (conns w' c) = b'" "conn_state (conns w' c) = (if OpShutdown \<in> set ops then kDisconnecting else kConnected)"
      "world.more w' = world.more w" "conn_fd (conns w' c) = ?fd"
      "messageCallback_set (conns w' c) = messageCallback_set (conns w c)"
    using w1(3,6,7) by auto
  have u: "in_loop k tid c w'" "conn_inv c w'" "calls_ok ?log c w'" using w'(2) by (simp_all add: up_def)
  have wr: "isWriting (chan_of c w') \<longleftrightarrow> readable (outputBuffer (conns w' c)) \<noteq> []"
    using u(2) w'(5) by (auto simp: conn_inv_def split: if_splits)
  from u(3) obtain evs where evs: "wrote_only ?fd evs" "sock_log w' = ?log @ evs @
      (if conn_state (conns w' c) = kDisconnecting \<and> \<not> isWriting (chan_of c w') then [ShutWr ?fd] else [])"
    unfolding calls_ok_def w'(7) by blast
  then have "sock_log w' = ?log @ evs @
      (if OpShutdown \<in> set ops \<and> readable (outputBuffer (conns w' c)) = [] then [ShutWr ?fd] else [])"
    unfolding wr w'(5) by (cases "OpShutdown \<in> set ops") simp_all
  with evs(1) w1(1) w' u b'(3) show ?thesis by (intro exI[of _ w'] exI[of _ evs]) simp
qed

section \<open>A concrete server\<close>

text \<open>A kernel that has bytes to read, as a function of the socket calls so far, and a server on it.\<close>

definition reading_kernel :: "(sock_event list \<Rightarrow> string) \<Rightarrow> kernel" where
  "reading_kernel f = demo_kernel\<lparr>k_read := \<lambda>log fd. Inr (f log)\<rparr>"

definition demo_http :: http_world where
  "demo_http = server_world.extend (demo_server\<lparr>loops := \<lambda>_. demo_loop\<rparr>)
     (http_world.fields (Some defaultHttpCallback))"

lemma demo_http_facts:
  "in_loop (reading_kernel f) 7 0 demo_http" "conn_inv 0 demo_http" "conn_state (conns demo_http 0) = kConnected"
  "takes_prefix (reading_kernel f)" "messageCallback_set (conns demo_http 0)"
  "httpCallback demo_http = Some defaultHttpCallback" "sock_log demo_http = []" "out_stream 0 demo_http = []"
  "readable (inputBuffer (conns demo_http 0)) = []" "conn_fd (conns demo_http 0) = 5"
proof -
  have http: "conns demo_http 0 = demo_conn" "loops demo_http = (\<lambda>_. demo_loop)" "sock_log demo_http = []"
    "httpCallback demo_http = Some defaultHttpCallback"
    by (simp_all add: demo_http_def demo_server_def server_world.defs http_world.defs)
  have l: "loop_of 0 demo_http = demo_loop" "chan_of 0 demo_http = new_channel 1 5"
    by (simp_all add: loop_of_def chan_of_def http) (simp add: demo_conn_def demo_loop_def)
  have nw: "\<not> isWriting (chan_of 0 demo_http)" by (simp add: l isWriting_def new_channel_def has_bits_def)
  have d: "conn_channel demo_conn = 5" "conn_loop demo_conn = 1" "outputBuffer demo_conn = new_buffer 16"
    "inputBuffer demo_conn = new_buffer 16" "conn_state demo_conn = kConnected" "messageCallback_set demo_conn"
    "conn_fd demo_conn = 5"
    by (simp_all add: demo_conn_def)
  show "in_loop (reading_kernel f) 7 0 demo_http"
    unfolding in_loop_def l http d using demo_loop_ok
    by (auto simp: reading_kernel_def demo_kernel_def accepts_legal_def) (simp add: demo_loop_def)
  show "takes_prefix (reading_kernel f)" unfolding takes_prefix_def reading_kernel_def demo_kernel_def
    by (auto intro!: exI[of _ "min 2 (length _)"])
  show "conn_inv 0 demo_http" using nw by (simp add: conn_inv_def http d)
  show "out_stream 0 demo_http = []" by (simp add: out_stream_def http d)
  show "readable (inputBuffer (conns demo_http 0)) = []" by (simp add: http d)
qed (simp_all add: demo_http_def demo_server_def server_world.defs http_world.defs demo_conn_def)

section \<open>Properties\<close>

text \<open>The request that \<open>request_text\<close> stands for, and the answer of a server to it.\<close>

definition request_of ::
  "http_method \<Rightarrow> string \<Rightarrow> string \<Rightarrow> http_version \<Rightarrow> (string \<times> string) list \<Rightarrow> timestamp \<Rightarrow> http_request" where
  "request_of m path query v hs t =
     \<lparr>req_method = m, req_version = v, req_path = path, req_query = query, req_receiveTime = t,
      req_headers = fold (\<lambda>(k, v). map_put k v) hs []\<rparr>"

definition answer ::
  "(http_request \<Rightarrow> http_response \<Rightarrow> http_response) \<Rightarrow> http_request \<Rightarrow> http_response" where
  "answer cb req = cb req (new_response (wants_close req))"

text \<open>The answer fits a buffer in memory, and a \<open>Content-Length\<close> line.\<close>

definition answer_fits :: "http_response \<Rightarrow> bool" where
  "answer_fits r \<longleftrightarrow> (closeConnection r \<or> length (resp_body r) < 10 ^ 13) \<and> length (response_text r) < 2 ^ 63"

text \<open>A buffer grows by no more than what is appended to it.\<close>

definition grows :: "buffer \<Rightarrow> buffer \<Rightarrow> bool" where
  "grows b b' \<longleftrightarrow> buf_wf b' \<and> length (bytes b') + length (readable b) \<le> length (bytes b) + length (readable b')"

lemma grows_refl: "buf_wf b \<Longrightarrow> grows b b"
  by (simp add: grows_def)

lemma grows_append: "grows b b' \<Longrightarrow> grows b (buf_append s b')"
proof -
  assume g: "grows b b'"
  then have wf: "buf_wf b'" by (simp add: grows_def)
  have "length (bytes (ensureWritableBytes (length s) b')) \<le> length (bytes b') + length s"
    using wf length_readable[OF wf]
    by (auto simp: ensureWritableBytes_def makeSpace_def buf_wf_def buf_sizes vec_resize_def Let_def blit_def)
  moreover have "length (bytes (buf_append s b')) = length (bytes (ensureWritableBytes (length s) b'))"
    using buf_wf_ensure[OF wf, of "length s"] writable_ensure[OF wf, of "length s"]
    by (auto simp: buf_append_def Let_def buf_wf_def buf_sizes blit_def)
  ultimately show ?thesis
    using g buf_append_facts[OF wf, of s] by (simp add: grows_def)
qed

lemma grows_headers:
  "grows b0 b \<Longrightarrow> grows b0 (fold (\<lambda>(key, val) b.
     let b = buf_append key b; b = buf_append '': '' b; b = buf_append val b in buf_append kCRLF b) hs b)"
  by (induction hs arbitrary: b) (auto simp: Let_def grows_append)

lemma grows_response: "buf_wf b \<Longrightarrow> grows b (appendToBuffer r b)"
  unfolding appendToBuffer_def Let_def
  by (cases "closeConnection r") (simp_all add: grows_append grows_headers[unfolded Let_def] grows_refl)

lemma reply_ops_facts:
  assumes "answer_fits r"
  shows "submitted (reply_ops r) = response_text r" "\<forall>op \<in> set (reply_ops r). op_fits op"
    "OpShutdown \<in> set (reply_ops r) \<longleftrightarrow> closeConnection r"
proof -
  let ?b = "appendToBuffer r (new_buffer kInitialSize)"
  have b: "readable ?b = response_text r" "buf_wf ?b"
    using appendToBuffer_facts[OF buf_wf_new, of r kInitialSize] assms by (simp_all add: answer_fits_def)
  have "grows (new_buffer kInitialSize) ?b" by (rule grows_response) simp
  then have "length (bytes ?b) \<le> length (bytes (new_buffer kInitialSize)) + length (response_text r)"
    by (simp add: grows_def b)
  also have "\<dots> < 2 ^ 64"
    using assms by (simp add: answer_fits_def new_buffer_def kInitialSize_def kCheapPretend_def)
  finally have len: "length (bytes ?b) < 2 ^ 64" .
  show "submitted (reply_ops r) = response_text r" by (simp add: reply_ops_def b)
  show "\<forall>op \<in> set (reply_ops r). op_fits op" using len b by (auto simp: reply_ops_def)
  show "OpShutdown \<in> set (reply_ops r) \<longleftrightarrow> closeConnection r" by (simp add: reply_ops_def)
qed

lemma new_response_close: "closeConnection (new_response b) = b"
  by (simp add: new_response_def)

lemma request_answered_facts:
  fixes w :: "'z http_world_scheme"
  assumes "in_loop k tid c w" and "conn_inv c w" and "conn_state (conns w c) = kConnected" and "takes_prefix k"
    and "messageCallback_set (conns w c)" and "httpCallback w = Some cb"
    and "k_read k (sock_log w) (conn_fd (conns w c)) = Inr d" and "d \<noteq> []"
    and "readable (inputBuffer (conns w c)) @ d = request_text m path query v hs @ rest"
    and "m \<noteq> kInvalid" and "v \<noteq> kUnknown" and "plain_target path query" and "plain_headers hs"
    and "r = answer cb (request_of m path query v hs t)" and "answer_fits r"
  shows "\<exists>w' evs. handleRead k (http_user k tmp tid) tid c t w = Inr w' \<and>
    out_stream c w' = out_stream c w @ response_text r \<and> readable (inputBuffer (conns w' c)) = rest \<and>
    conn_state (conns w' c) = (if closeConnection r then kDisconnecting else kConnected) \<and>
    wrote_only (conn_fd (conns w c)) evs \<and>
    sock_log w' = sock_log w @ ReadData (conn_fd (conns w c)) d # evs @
      (if closeConnection r \<and> readable (outputBuffer (conns w' c)) = [] then [ShutWr (conn_fd (conns w c))] else []) \<and>
    in_loop k tid c w' \<and> conn_inv c w'"
proof -
  let ?ctx = "\<lparr>ctx_state = kGotAll, ctx_request = request_of m path query v hs t\<rparr>"
  have sp: "spec_parse t new_context (readable (inputBuffer (conns w c)) @ d) = Inr (True, ?ctx, rest)"
    unfolding assms(9) request_of_def by (rule spec_parse_request_text[OF assms(10-13)])
  have ops: "reply_ops r = (if True then [] else [OpSend tmp bad_request, OpShutdown]) @
      (if gotAll ?ctx then reply_ops (cb (ctx_request ?ctx) (new_response (wants_close (ctx_request ?ctx)))) else [])"
    by (simp add: gotAll_def assms(14) answer_def)
  from arrival_facts[OF assms(1-8) sp ops reply_ops_facts(2)[OF assms(15)]] show ?thesis
    unfolding reply_ops_facts(1,3)[OF assms(15)] by blast
qed

text \<open>C1: a request that has arrived is answered. When bytes from the socket complete, in the input buffer of a
  connection that is up, the text of a request, \<open>handleRead\<close> calls the application once with the request
  that the text stands for, and the bytes that the kernel takes, followed by those in the output
  buffer, grow by exactly the text of its response. The connection stays open if the response says so,
  which by default is the keep-alive rule of HTTP/1.0 and 1.1; otherwise it is half-closed as soon as
  everything has been written, and that is its last call. Bytes behind the request, a second request
  for instance, stay in the buffer and are not looked at before more bytes arrive.\<close>

theorem http_request_answered:
  fixes w :: "'z http_world_scheme"
  assumes "in_loop k tid c w" and "conn_inv c w" and "conn_state (conns w c) = kConnected" and "takes_prefix k"
    and "messageCallback_set (conns w c)" and "httpCallback w = Some cb"
    and "k_read k (sock_log w) (conn_fd (conns w c)) = Inr d" and "d \<noteq> []"
    and "readable (inputBuffer (conns w c)) @ d = request_text m path query v hs @ rest"
    and "m \<noteq> kInvalid" and "v \<noteq> kUnknown" and "plain_target path query" and "plain_headers hs"
    and "r = answer cb (request_of m path query v hs t)" and "answer_fits r"
  shows "\<exists>w' evs. handleRead k (http_user k tmp tid) tid c t w = Inr w' \<and>
    out_stream c w' = out_stream c w @ response_text r \<and> readable (inputBuffer (conns w' c)) = rest \<and>
    conn_state (conns w' c) = (if closeConnection r then kDisconnecting else kConnected) \<and>
    wrote_only (conn_fd (conns w c)) evs \<and>
    sock_log w' = sock_log w @ ReadData (conn_fd (conns w c)) d # evs @
      (if closeConnection r \<and> readable (outputBuffer (conns w' c)) = [] then [ShutWr (conn_fd (conns w c))] else []) \<and>
    in_loop k tid c w' \<and> conn_inv c w'"
  by (rule request_answered_facts[OF assms])

theorem http_request_answered_witness:
  "\<exists>w'. handleRead (reading_kernel (\<lambda>_. ''GET / HTTP/1.1'' @ kCRLF @ kCRLF)) (http_user (reading_kernel (\<lambda>_. ''GET / HTTP/1.1'' @ kCRLF @ kCRLF)) 9 7)
       7 0 (Timestamp 3) demo_http = Inr w' \<and>
     out_stream 0 w' = ''HTTP/1.1 404 Not Found'' @ kCRLF @ ''Connection: close'' @ kCRLF @ kCRLF \<and>
     conn_state (conns w' 0) = kDisconnecting"
proof -
  let ?d = "''GET / HTTP/1.1'' @ kCRLF @ kCRLF" and ?r = "setCloseConnection True (setStatusMessage ''Not Found'' (setStatusCode k404NotFound (new_response False)))"
  have d: "readable (inputBuffer (conns demo_http 0)) @ ?d = request_text kGet ''/'' [] kHttp11 [] @ []"
    unfolding demo_http_facts(9) by code_simp
  have p: "plain_target ''/'' []" "plain_headers []" by code_simp+
  have r: "answer defaultHttpCallback (request_of kGet ''/'' [] kHttp11 [] (Timestamp 3)) = ?r" by code_simp
  have shown: "response_text ?r = ''HTTP/1.1 404 Not Found'' @ kCRLF @ ''Connection: close'' @ kCRLF @ kCRLF" by code_simp
  have fits: "answer_fits ?r" unfolding answer_fits_def shown by (simp add: kCRLF_def setCloseConnection_def)
  have rd: "k_read (reading_kernel (\<lambda>_. ?d)) (sock_log demo_http) (conn_fd (conns demo_http 0)) = Inr ?d"
    by (simp add: reading_kernel_def)
  from http_request_answered[OF demo_http_facts(1-6) rd _ d _ _ p r[symmetric] fits, of 9] show ?thesis
    unfolding shown demo_http_facts(8) by (auto simp: setCloseConnection_def)
qed

text \<open>C29: what is not a request is refused. When the bytes in the input buffer of a connection that is up
  do not start with a request line the parser accepts, \<open>handleRead\<close> sends exactly the line 400 Bad
  Request and an empty line and half-closes the connection; the application is not called.\<close>

theorem http_bad_request:
  fixes w :: "'z http_world_scheme"
  assumes "in_loop k tid c w" and "conn_inv c w" and "conn_state (conns w c) = kConnected" and "takes_prefix k"
    and "messageCallback_set (conns w c)" and "httpCallback w = Some cb"
    and "k_read k (sock_log w) (conn_fd (conns w c)) = Inr d" and "d \<noteq> []"
    and "spec_parse t new_context (readable (inputBuffer (conns w c)) @ d) = Inr (False, ctx, rest)"
  shows "\<exists>w' evs. handleRead k (http_user k tmp tid) tid c t w = Inr w' \<and>
    out_stream c w' = out_stream c w @ ''HTTP/1.1 400 Bad Request'' @ kCRLF @ kCRLF \<and>
    conn_state (conns w' c) = kDisconnecting \<and> wrote_only (conn_fd (conns w c)) evs \<and>
    sock_log w' = sock_log w @ ReadData (conn_fd (conns w c)) d # evs @
      (if readable (outputBuffer (conns w' c)) = [] then [ShutWr (conn_fd (conns w c))] else []) \<and>
    in_loop k tid c w' \<and> conn_inv c w'"
proof -
  have "\<not> gotAll ctx" by (rule gotAll_failed[OF assms(9)]) (simp add: gotAll_def new_context_def)
  then have ops: "[OpSend tmp bad_request, OpShutdown] = (if False then [] else [OpSend tmp bad_request, OpShutdown]) @
      (if gotAll ctx then reply_ops (cb (ctx_request ctx) (new_response (wants_close (ctx_request ctx)))) else [])"
    by simp
  have fits: "\<forall>op \<in> set [OpSend tmp bad_request, OpShutdown]. op_fits op" by (simp add: bad_request_def kCRLF_def)
  from arrival_facts[OF assms ops fits] show ?thesis
    by (auto simp: bad_request_def)
qed

theorem http_bad_request_witness:
  "\<exists>w'. handleRead (reading_kernel (\<lambda>_. ''HELLO'' @ kCRLF)) (http_user (reading_kernel (\<lambda>_. ''HELLO'' @ kCRLF)) 9 7)
       7 0 (Timestamp 3) demo_http = Inr w' \<and>
     out_stream 0 w' = ''HTTP/1.1 400 Bad Request'' @ kCRLF @ kCRLF \<and> conn_state (conns w' 0) = kDisconnecting"
proof -
  let ?d = "''HELLO'' @ kCRLF"
  have "take_line (''HELLO'' @ kCRLF @ []) = Some (''HELLO'', [])" by (rule take_line_format) simp
  moreover have "processRequestLine ''HELLO'' new_context = Inr (False, new_context)" by code_simp
  ultimately have sp: "spec_parse (Timestamp 3) new_context (readable (inputBuffer (conns demo_http 0)) @ ?d) =
      Inr (False, new_context, ''HELLO'' @ kCRLF)"
    unfolding demo_http_facts(9) by (subst spec_parse.simps) (simp add: new_context_def)
  have rd: "k_read (reading_kernel (\<lambda>_. ?d)) (sock_log demo_http) (conn_fd (conns demo_http 0)) = Inr ?d"
    by (simp add: reading_kernel_def)
  from http_bad_request[OF demo_http_facts(1-6) rd _ sp, of 9] show ?thesis
    unfolding demo_http_facts(8) by auto
qed

text \<open>A header line is not a request line.\<close>

lemma header_not_request_line:
  assumes "CHR '' '' \<notin> set key" and "CHR '':'' \<notin> set key"
  shows "processRequestLine (key @ '': '' @ val) new_context = Inr (False, new_context)"
proof -
  have line: "key @ '': '' @ val = (key @ '':'') @ '' '' @ val" by simp
  have sp: "std_find ((key @ '':'') @ '' '' @ val) (CHR '' '') = length (key @ '':'')"
    by (rule find_space) (use assms(1) in simp)
  have "method_of_string (key @ '':'') = kInvalid"
    by (simp add: method_of_string_def)
  then show ?thesis
    unfolding line processRequestLine_def sp
    by (simp add: setMethod_def new_context_def new_request_def)
qed

lemma spec_parse_line_only:
  assumes "m \<noteq> kInvalid" and "v \<noteq> kUnknown" and "plain_target path query"
  shows "\<exists>ctx. spec_parse t new_context (request_line m path query v @ kCRLF) = Inr (True, ctx, []) \<and> \<not> gotAll ctx"
proof -
  have "CHR 0x0D \<notin> set (request_line m path query v)"
    using assms(3) methodString_chars(2) by (auto simp: request_line_def plain_target_def version_char_def)
  from take_line_format[OF this, of "[]"]
  have tl: "take_line (request_line m path query v @ kCRLF) = Some (request_line m path query v, [])" by simp
  have nil: "spec_parse t c [] = Inr (True, c, [])" for c by (subst spec_parse.simps) simp
  show ?thesis
    using processRequestLine_format[OF assms]
    by (subst spec_parse.simps) (simp add: tl nil new_context_def gotAll_def)
qed

text \<open>C30: a request that arrives in two pieces is refused, although the parser could continue. When the request
  line arrives first, \<open>onMessage\<close> parses it into a context that is destroyed at the end of the call, and
  sends nothing; when the headers arrive next, they are parsed as the request line of a new
  request and answered by 400 Bad Request, and the connection is half-closed. The same bytes in one piece
  are a whole request.\<close>

theorem http_split_request_refused:
  fixes w :: "'z http_world_scheme"
  assumes "in_loop k tid c w" and "conn_inv c w" and "conn_state (conns w c) = kConnected" and "takes_prefix k"
    and "messageCallback_set (conns w c)" and "httpCallback w = Some cb" and "readable (inputBuffer (conns w c)) = []"
    and "m \<noteq> kInvalid" and "v \<noteq> kUnknown" and "plain_target path query"
    and "plain_headers ((key, val) # hs)" and "CHR '' '' \<notin> set key"
    and "k_read k (sock_log w) (conn_fd (conns w c)) = Inr (request_line m path query v @ kCRLF)"
    and "\<And>evs. k_read k (sock_log w @ ReadData (conn_fd (conns w c)) (request_line m path query v @ kCRLF) # evs)
      (conn_fd (conns w c)) = Inr (header_text ((key, val) # hs) @ kCRLF)"
  shows "\<exists>w1 w2. handleRead k (http_user k tmp tid) tid c t w = Inr w1 \<and> out_stream c w1 = out_stream c w \<and>
    conn_state (conns w1 c) = kConnected \<and>
    handleRead k (http_user k tmp tid) tid c t w1 = Inr w2 \<and>
    out_stream c w2 = out_stream c w @ ''HTTP/1.1 400 Bad Request'' @ kCRLF @ kCRLF \<and>
    conn_state (conns w2 c) = kDisconnecting \<and>
    (\<exists>ctx. spec_parse t new_context ((request_line m path query v @ kCRLF) @ header_text ((key, val) # hs) @ kCRLF) =
      Inr (True, ctx, []) \<and> gotAll ctx)"
proof -
  let ?d1 = "request_line m path query v @ kCRLF" and ?d2 = "header_text ((key, val) # hs) @ kCRLF"
  let ?fd = "conn_fd (conns w c)"
  obtain ctx where sp1: "spec_parse t new_context ?d1 = Inr (True, ctx, [])" "\<not> gotAll ctx"
    using spec_parse_line_only[OF assms(8-10)] by blast
  have ops1: "[] = (if True then [] else [OpSend tmp bad_request, OpShutdown]) @
      (if gotAll ctx then reply_ops (cb (ctx_request ctx) (new_response (wants_close (ctx_request ctx)))) else [])"
    using sp1(2) by simp
  have ne: "?d1 \<noteq> []" "?d2 \<noteq> []" by (simp_all add: kCRLF_def)
  have sp1': "spec_parse t new_context (readable (inputBuffer (conns w c)) @ ?d1) = Inr (True, ctx, [])"
    using sp1(1) by (simp add: assms(7))
  from arrival_facts[OF assms(1-6,13) ne(1) sp1' ops1] obtain w1 evs where
    w1: "handleRead k (http_user k tmp tid) tid c t w = Inr w1" "in_loop k tid c w1" "conn_inv c w1"
      "out_stream c w1 = out_stream c w" "readable (inputBuffer (conns w1 c)) = []"
      "conn_state (conns w1 c) = kConnected" "sock_log w1 = sock_log w @ ReadData ?fd ?d1 # evs"
      "world.more w1 = world.more w" "conn_fd (conns w1 c) = ?fd" "messageCallback_set (conns w1 c)"
    using assms(5) by auto
  have cb: "httpCallback w1 = Some cb" using w1(8) assms(6) by (cases w; cases w1; simp)
  have rd: "k_read k (sock_log w1) (conn_fd (conns w1 c)) = Inr ?d2" unfolding w1(7,9) by (rule assms(14))
  have key: "CHR '':'' \<notin> set key" "CHR 0x0D \<notin> set (key @ '': '' @ val)"
    using assms(11) by (auto simp: plain_headers_def)
  have d2: "?d2 = (key @ '': '' @ val) @ kCRLF @ header_text hs @ kCRLF" by (simp add: header_text_def)
  have tl: "take_line ?d2 = Some (key @ '': '' @ val, header_text hs @ kCRLF)"
    unfolding d2 by (rule take_line_format[OF key(2)])
  have sp2: "spec_parse t new_context (readable (inputBuffer (conns w1 c)) @ ?d2) = Inr (False, new_context, ?d2)"
    unfolding w1(5) using header_not_request_line[OF assms(12) key(1)]
    by (subst spec_parse.simps) (simp add: tl new_context_def)
  have ops2: "[OpSend tmp bad_request, OpShutdown] = (if False then [] else [OpSend tmp bad_request, OpShutdown]) @
      (if gotAll new_context then reply_ops (cb (ctx_request new_context) (new_response (wants_close (ctx_request new_context)))) else [])"
    by (simp add: gotAll_def new_context_def)
  have fits: "\<forall>op \<in> set [OpSend tmp bad_request, OpShutdown]. op_fits op" by (simp add: bad_request_def kCRLF_def)
  from arrival_facts[OF w1(2,3,6) assms(4) w1(10) cb rd ne(2) sp2 ops2 fits] obtain w2 where
    "handleRead k (http_user k tmp tid) tid c t w1 = Inr w2"
    "out_stream c w2 = out_stream c w @ bad_request" "conn_state (conns w2 c) = kDisconnecting"
    by (auto simp: w1(4))
  moreover have "(request_line m path query v @ kCRLF) @ ?d2 = request_text m path query v ((key, val) # hs) @ []"
    by (simp add: request_text_def)
  ultimately show ?thesis
    using w1(1,4,6) spec_parse_request_text[OF assms(8-11), of t "[]"]
    by (intro exI[of _ w1] exI[of _ w2]) (auto simp: bad_request_def gotAll_def)
qed

theorem http_split_request_refused_witness:
  "\<exists>k w1 w2. handleRead k (http_user k 9 7) 7 0 (Timestamp 3) demo_http = Inr w1 \<and> out_stream 0 w1 = [] \<and>
     handleRead k (http_user k 9 7) 7 0 (Timestamp 3) w1 = Inr w2 \<and>
     out_stream 0 w2 = ''HTTP/1.1 400 Bad Request'' @ kCRLF @ kCRLF"
proof -
  let ?d1 = "request_line kGet ''/'' [] kHttp11 @ kCRLF" and ?d2 = "header_text [(''Host'', ''h'')] @ kCRLF"
  let ?k = "reading_kernel (\<lambda>log. if log = [] then ?d1 else ?d2)"
  have p: "plain_target ''/'' []" "plain_headers [(''Host'', ''h'')]" by code_simp+
  have r1: "k_read ?k (sock_log demo_http) (conn_fd (conns demo_http 0)) = Inr ?d1"
    by (simp add: reading_kernel_def demo_http_facts(7))
  have r2: "k_read ?k (sock_log demo_http @ ReadData (conn_fd (conns demo_http 0)) ?d1 # evs) (conn_fd (conns demo_http 0)) = Inr ?d2" for evs
    by (simp add: reading_kernel_def)
  have "\<exists>w1 w2. handleRead ?k (http_user ?k 9 7) 7 0 (Timestamp 3) demo_http = Inr w1 \<and> out_stream 0 w1 = out_stream 0 demo_http \<and>
      conn_state (conns w1 0) = kConnected \<and> handleRead ?k (http_user ?k 9 7) 7 0 (Timestamp 3) w1 = Inr w2 \<and>
      out_stream 0 w2 = out_stream 0 demo_http @ ''HTTP/1.1 400 Bad Request'' @ kCRLF @ kCRLF \<and>
      conn_state (conns w2 0) = kDisconnecting \<and>
      (\<exists>ctx. spec_parse (Timestamp 3) new_context (?d1 @ ?d2) = Inr (True, ctx, []) \<and> gotAll ctx)"
    by (rule http_split_request_refused[OF demo_http_facts(1-6,9) _ _ p _ r1 r2]) simp_all
  then show ?thesis unfolding demo_http_facts(8) by (intro exI[of _ ?k]) auto
qed

text \<open>A freshly constructed HTTP server cannot be started as it is: it has no threads, and nothing sets the
  init callback that \<open>EventLoopThreadPool::start\<close> then calls, so \<open>start\<close> ends with a
  \<open>bad_function_call\<close> before the server listens. With \<open>setThreadNum\<close> of a positive number the pool does not
  make that call.\<close>

theorem http_default_cannot_start:
  assumes "new_http_server loop ptr addr nm option sockfd rc w0 = Inr w"
  shows "http_start k use_poll init spawn m lrc tid w = Inl BadFunctionCall \<and>
    (\<forall>cb. http_start k use_poll init spawn m lrc tid (setHttpCallback cb w) = Inl BadFunctionCall) \<and>
    (0 < n \<longrightarrow> numThreads (srv_pool (http_setThreadNum n w)) = n \<and> pool_loops (srv_pool (http_setThreadNum n w)) = [])"
proof -
  from assms have w: "srv_started w = 0" "\<not> srv_threadInitCallback_set w" "numThreads (srv_pool w) = 0" "pool_loops (srv_pool w) = []"
    by (auto simp: new_http_server_def new_tcp_server_def bindR_eq_Inr server_world.defs http_world.defs new_thread_pool_def)
  have same: "srv_started (setHttpCallback cb w) = srv_started w"
    "srv_threadInitCallback_set (setHttpCallback cb w) = srv_threadInitCallback_set w"
    "srv_pool (setHttpCallback cb w) = srv_pool w" for cb
    by (simp_all add: setHttpCallback_def)
  have start: "http_start k use_poll init spawn m lrc tid v = Inl BadFunctionCall"
    if "srv_started v = 0" "\<not> srv_threadInitCallback_set v" "numThreads (srv_pool v) = 0" for v :: http_world
    using that by (simp add: http_start_def server_start_def pool_start_def)
  show ?thesis
    using start w same by (simp add: http_setThreadNum_def server_setThreadNum_def setThreadNum_def)
qed

theorem http_default_cannot_start_witness:
  "\<exists>w. new_http_server (Some 1) 5 \<lparr>sin_family = AF_INET, sin_port = htons 80, sin_addr = (127, 0, 0, 1)\<rparr> ''web''
      kNoReusePort 5 0 demo_world = Inr w \<and>
    http_start demo_kernel False (\<lambda>_. Inr) (\<lambda>i. \<lparr>sp_tid = 8, sp_loop = 2, sp_epollfd = 3, sp_eventfd = 4\<rparr>) 0 0 7 w = Inl BadFunctionCall"
proof -
  let ?a = "\<lparr>sin_family = AF_INET, sin_port = htons 80, sin_addr = (127, 0, 0, 1)\<rparr>"
  from toIPport_facts[of ?a] obtain ip where "toIPport ?a = Inr ip" by blast
  then obtain w where "new_http_server (Some 1) 5 ?a ''web'' kNoReusePort 5 0 demo_world = Inr w"
    by (simp add: new_http_server_def new_tcp_server_def CheckLoopNotNull_def new_acceptor_def
        createNoneBlockingOrDie_def socket_bindAddress_def Let_def)
  with http_default_cannot_start[OF this] show ?thesis by blast
qed

section \<open>The HTTP server as an application that keeps the server's invariant\<close>

lemma onMessage_frame:
  assumes "onMessage k tmp tid c t w = Inr w'" and "buf_wf (inputBuffer (conns w c))"
  shows "conn_frame w w'"
proof -
  from parse_new[OF assms(2), of t] obtain ok ctx b where
    p: "parseRequest (inputBuffer (conns w c)) t new_context = Some (Inr (ok, ctx, b))" "buf_wf b" by blast
  let ?w1 = "set_conn c ((conns w c)\<lparr>inputBuffer := b\<rparr>) w" and ?err = "if ok then [] else [OpSend tmp bad_request, OpShutdown]"
  from assms(1) obtain w2 where w2: "foldR (conn_do k tid c) ?err ?w1 = Inr w2"
    and w': "(if gotAll ctx then onRequest k tid c (ctx_request ctx) w2 else Inr w2) = Inr w'"
    unfolding onMessage_ops[OF p(1)] bindR_eq_Inr by blast
  have f1: "conn_frame w ?w1" by (rule conn_frame_set_in[OF conn_frame_refl]) (rule p(2))
  have f2: "conn_frame ?w1 w2" using conn_dos_keep[OF w2] by simp
  have f3: "conn_frame w2 w'"
  proof (cases "gotAll ctx")
    case True
    with w' obtain cb where "httpCallback w2 = Some cb"
      by (cases "httpCallback w2") (simp_all add: onRequest_def Let_def)
    with w' True have run: "foldR (conn_do k tid c)
        (reply_ops (cb (ctx_request ctx) (new_response (wants_close (ctx_request ctx))))) w2 = Inr w'"
      by (simp add: onRequest_ops)
    show ?thesis using conn_dos_keep[OF run] by (simp add: reply_ops_def)
  qed (use w' in simp)
  show ?thesis by (rule conn_frame_trans[OF conn_frame_trans[OF f1 f2] f3])
qed

lemma http_app_keeps: "app_keeps (http_app k tmp tid)"
  unfolding app_keeps_def
proof (intro allI impI conjI)
  fix w w' :: "'a http_world_scheme" and c t
  assume inv: "server_inv w" and run: "on_message (http_app k tmp tid) c t w = Inr w'"
  have "buf_wf (inputBuffer (conns w c))" using inv by (simp add: server_inv_def bufs_wf_def)
  then have "conn_frame w w'" using run by (intro onMessage_frame) (simp_all add: http_app_def)
  then show "server_inv w'" by (rule server_inv_frame[OF inv])
qed (auto simp: http_app_def onConnection_def)

text \<open>
  An allocator for the connection objects: an address above every one in use. What \<open>accept4\<close> and
  \<open>getsockname\<close> answer, the channel's address and what \<open>listen\<close> answers are arbitrary.
\<close>

definition heap_env ::
  "('z server_world_scheme \<Rightarrow> int \<times> sockaddr_in) \<Rightarrow> ('z server_world_scheme \<Rightarrow> nat) \<Rightarrow>
   ('z server_world_scheme \<Rightarrow> sockaddr_in option) \<Rightarrow> int \<Rightarrow> 'z server_world_scheme environment" where
  "heap_env acc chan local rc =
     \<lparr>env_accept = acc,
      env_arrival = (\<lambda>w. \<lparr>arr_conn = Suc (Max (insert 0 (ran (connections w)))), arr_channel = chan w, arr_local = local w\<rparr>),
      env_listen = rc\<rparr>"

lemma heap_env_fresh: "fresh_env (heap_env acc chan local rc)"
proof -
  have "Suc (Max (insert 0 A)) \<notin> A" if "finite A" for A :: "nat set"
    using that by (metis Max_ge Suc_n_not_le_n finite_insert insertI2)
  then show ?thesis by (simp add: fresh_env_def heap_env_def finite_ran)
qed

interpretation http: server_setup k "http_app k tmp tid" "heap_env acc chan local rc" tid lid
  for k tmp tid lid acc chan local rc
  by unfold_locales (rule http_app_keeps, rule heap_env_fresh)

text \<open>C11: the map of connections of an HTTP server stays in order from its construction on. Construct the
  server, then run its loop over any answers of \<open>epoll_wait\<close>, \<open>accept\<close>, \<open>read\<close>
  and \<open>write\<close>, and any HTTP callback: as long as the run does not fault and the connection counter fits
  an \<open>int\<close>, every entry is stored under its own connection's name, no connection has two entries, and the
  next connection's name is free.\<close>

theorem http_server_connections:
  fixes w0 :: world
  assumes "new_http_server loop ptr addr nm option sockfd rc w0 = Inr w" and "\<And>c. bufs_wf (conns w0 c)"
    and "server_run k (http_app k tmp tid) (heap_env acc chan local lrc) tid lid eps (setHttpCallback cb w) = Inr w'"
    and "nextConnId w' < 2 ^ 31"
  shows "(\<forall>nm c. connections w' nm = Some c \<longrightarrow> conn_name (conns w' c) = nm \<and> closeCallback_set (conns w' c)) \<and>
    inj_on (connections w') (dom (connections w')) \<and> connections w' (connection_name w') = None"
proof -
  have "conns w = conns w0" "connections w = Map.empty" "nextConnId w = 1" "length (srv_ipPort w) \<le> 21"
    using assms(1) toIPport_facts[of addr]
    by (auto simp: new_http_server_def new_tcp_server_def bindR_eq_Inr server_world.defs http_world.defs
        new_acceptor_def socket_bindAddress_def socket_setReuseAddr_def socket_setKeepAlive_def Let_def split: if_splits)
  then have "server_inv (setHttpCallback cb w)"
    using assms(2) by (simp add: server_inv_def entries_ok_def setHttpCallback_def)
  from server_inv_named[OF http.server_run_inv[OF this assms(3)] assms(4)] show ?thesis by blast
qed

theorem http_server_connections_witness:
  "\<exists>w w'. new_http_server (Some 1) 5 \<lparr>sin_family = AF_INET, sin_port = htons 80, sin_addr = (127, 0, 0, 1)\<rparr> ''web''
      kNoReusePort 5 0 demo_world = Inr w \<and>
    server_run demo_kernel (http_app demo_kernel 9 7)
      (heap_env (\<lambda>w. (6, \<lparr>sin_family = 2, sin_port = 0, sin_addr = (127, 0, 0, 1)\<rparr>)) (\<lambda>w. 6) (\<lambda>w. None) 0) 7 1
      [(Inr [], Timestamp 0)] (setHttpCallback None w) = Inr w' \<and> connections w' (connection_name w') = None"
proof -
  let ?a = "\<lparr>sin_family = AF_INET, sin_port = htons 80, sin_addr = (127, 0, 0, 1)\<rparr>"
  let ?env = "heap_env (\<lambda>w. (6, \<lparr>sin_family = 2, sin_port = 0, sin_addr = (127, 0, 0, 1)\<rparr>)) (\<lambda>w. 6) (\<lambda>w. None) 0"
  from toIPport_facts[of ?a] obtain ip where "toIPport ?a = Inr ip" by blast
  then obtain w where w: "new_http_server (Some 1) 5 ?a ''web'' kNoReusePort 5 0 demo_world = Inr w"
    and w1: "pendingFunctors (loops w 1) = []" "nextConnId w = 1"
    by (simp add: new_http_server_def new_tcp_server_def CheckLoopNotNull_def new_acceptor_def
        createNoneBlockingOrDie_def socket_bindAddress_def Let_def server_world.defs http_world.defs
        socket_setReuseAddr_def socket_setKeepAlive_def log_sock_def put_loop_def set_chan_def demo_world_def demo_loop_def)
  obtain w' where w': "server_run demo_kernel (http_app demo_kernel 9 7) ?env 7 1 [(Inr [], Timestamp 0)] (setHttpCallback None w) = Inr w'"
    "nextConnId w' = 1"
    using w1 by (simp add: server_run_def loop_run_def loop_iteration_def poller_poll_def get_loop_def put_loop_def
        doPendingFunctors_def swap_pending_def set_calling_def setHttpCallback_def)
  have "bufs_wf (conns demo_world c)" for c by (simp add: demo_world_def demo_conn_def bufs_wf_def)
  from http_server_connections[OF w this w'(1)] w w' show ?thesis by auto
qed

end
