(* ===== verification/Http_Reactor.thy ===== *)
theory Http_Reactor
  imports Built_Server Http_Server
begin

text \<open>
  The HTTP server on its threads: its callbacks keep the contract of \<open>server_threads\<close>, so the turns of its
  loops keep the invariant of the threads, in every interleaving.
\<close>

section \<open>The callbacks\<close>

lemma conn_dos_acts:
  assumes "foldR (conn_do k tid c) ops w = Inr w'" and "up k tid c log0 w" and "takes_prefix k" and "\<forall>op \<in> set ops. op_fits op"
  shows "conn_acts tid c w w'"
  using assms
proof (induction ops arbitrary: w)
  case (Cons op ops)
  from up_op[OF Cons.prems(2,3), of op] Cons.prems(4) obtain w1 where
    w1: "conn_do k tid c op w = Inr w1" "up k tid c log0 w1" by auto
  with Cons have "conn_acts tid c w1 w'" by simp
  moreover have "conn_acts tid c w w1"
    using conn_do_acts[OF w1(1)] Cons.prems(2) by (simp add: up_def is_up_def)
  ultimately show ?case by (rule conn_acts_trans)
qed (simp add: acts_refl)

text \<open>The application's own state: an HTTP callback that answers, and no write-complete callback.\<close>

definition answering :: "bool \<times> unit http_world_ext \<Rightarrow> bool" where
  "answering s \<longleftrightarrow> (\<exists>cb. s = (False, http_world.fields (Some cb)) \<and> (\<forall>req. answer_fits (answer cb req)))"

lemma http_state: "app_state w = (srv_writeCompleteCallback_set w, http_world.fields (httpCallback w))" for w :: http_world
  by (cases w) (simp add: app_state_def http_world.defs)

lemma http_fields_inject: "http_world.fields a = http_world.fields b \<longleftrightarrow> a = b"
  by (simp add: http_world.defs)

lemma answering_callback:
  "answering (app_state w) \<longleftrightarrow>
     \<not> srv_writeCompleteCallback_set w \<and> (\<exists>cb. httpCallback w = Some cb \<and> (\<forall>req. answer_fits (answer cb req)))"
  for w :: http_world
  by (auto simp: answering_def http_state http_fields_inject)

lemma message_ops_fit: "(\<forall>req. answer_fits (answer cb req)) \<Longrightarrow> \<forall>op \<in> set (message_ops cb tmp ok ctx). op_fits op"
  using reply_ops_facts(2)
  by (auto simp: message_ops_def answer_def bad_request_def kCRLF_def split: if_splits)

lemma message_own_call:
  fixes w :: http_world
  assumes "in_loop k tid c w" and "conn_inv c w" and "conn_state (conns w c) \<noteq> kConnecting" and "takes_prefix k"
    and "answering (app_state w)"
  shows "own_call_ok tid c w (onMessage k tmp tid c t w)"
proof -
  have wf: "buf_wf (inputBuffer (conns w c))" using assms(2) by (simp add: conn_inv_def)
  from parse_new[OF wf, of t] obtain ok ctx b where
    p: "parseRequest (inputBuffer (conns w c)) t new_context = Some (Inr (ok, ctx, b))" "buf_wf b" by blast
  from assms(5) obtain cb where cb: "httpCallback w = Some cb" "\<forall>req. answer_fits (answer cb req)"
    by (auto simp: answering_callback)
  let ?w1 = "set_conn c ((conns w c)\<lparr>inputBuffer := b\<rparr>) w" and ?ops = "message_ops cb tmp ok ctx"
  have run: "onMessage k tmp tid c t w = foldR (conn_do k tid c) ?ops ?w1" by (rule onMessage_run[OF p(1) cb(1)])
  have a1: "conn_acts tid c w ?w1" by (rule acts_in[OF acts_refl])
  have i1: "in_loop k tid c ?w1" "conn_inv c ?w1"
    using acts_in_loop[OF a1 assms(1)] assms(2) p(2) by (simp_all add: conn_inv_def chan_of_def loop_of_def)
  show ?thesis
  proof (cases "conn_state (conns w c) = kConnected")
    case True
    then have up: "up k tid c (sock_log w) ?w1" using i1 by (simp add: up_def calls_ok_def wrote_only_def)
    note fit = message_ops_fit[OF cb(2)]
    from up_run[OF up assms(4) fit] obtain w' where w': "foldR (conn_do k tid c) ?ops ?w1 = Inr w'" "up k tid c (sock_log w) w'"
      by blast
    with conn_acts_trans[OF conn_dos_acts[OF w'(1) up assms(4) fit] a1] show ?thesis
      by (auto simp: own_call_ok_def run up_def)
  next
    case False
    have "OpWritable \<notin> set ?ops" by (simp add: message_ops_def reply_ops_def)
    with conn_dos_ignored[of ?w1 c ?ops k tid] False obtain m where
      "foldR (conn_do k tid c) ?ops ?w1 = Inr (?w1\<lparr>strings := m\<rparr>)" by auto
    with i1(2) acts_strings[OF a1, of m] show ?thesis by (auto simp: own_call_ok_def run)
  qed
qed

section \<open>The contract\<close>

interpretation http_threads: server_threads "kernel_of K" "http_app (kernel_of K) tmp" answering for K tmp
proof unfold_locales
  show "own_call_ok tid c w (on_connection (http_app (kernel_of K) tmp tid) c w)" if "conn_inv c w" for tid c and w :: http_world
    using that by (auto simp: own_call_ok_def http_app_def onConnection_def intro: acts_refl)
  show "own_call_ok tid c w (on_message (http_app (kernel_of K) tmp tid) c t w)"
    if "in_loop (kernel_of K) tid c w" "conn_inv c w" "conn_state (conns w c) \<noteq> kConnecting" "answering (app_state w)"
    for tid c t and w :: http_world
    using message_own_call[OF that(1-3) _ that(4)] by (simp add: http_app_def)
qed (auto simp: answering_callback)


section \<open>Built and started\<close>

text \<open>
  A server as its \<open>main\<close> builds it: an event loop in this thread, the server on it, its callback and a number of
  threads, and then \<open>start\<close>. The addresses of the loops and of the acceptor's channel, and the descriptors, are
  the allocator's and the kernel's.
\<close>

definition http_built :: "kernel \<Rightarrow> (http_request \<Rightarrow> http_response \<Rightarrow> http_response) \<Rightarrow> nat \<Rightarrow> int \<Rightarrow> http_world \<Rightarrow> bool" where
  "http_built k cb tid n w \<longleftrightarrow>
     (\<exists>b epollfd evtfd ptr addr nm option sockfd w0 w1.
        0 \<le> epollfd \<and> 0 \<le> evtfd \<and> new_event_loop (k_ctl k b) False epollfd evtfd False b tid = Inr (loops w0 b) \<and>
        ptr \<noteq> wakeup_ptr \<and> sockfd \<noteq> evtfd \<and>
        new_http_server (Some b) ptr addr nm option sockfd 0 w0 = Inr w1 \<and>
        w = http_setThreadNum n (setHttpCallback (Some cb) w1))"

definition http_runs ::
  "kernel \<Rightarrow> (http_request \<Rightarrow> http_response \<Rightarrow> http_response) \<Rightarrow> http_world reactor \<Rightarrow> bool" where
  "http_runs k cb st \<longleftrightarrow>
     (\<exists>tid n w init spawn m w'. http_built k cb tid n w \<and> 0 < n \<and> spawns_for spawn w \<and>
        http_start k False init spawn m 0 tid w = Inr w' \<and> st = at_rest w')"

lemma http_built_facts:
  assumes "http_built k cb tid n w"
  shows "fresh_server k tid n w" "\<not> srv_writeCompleteCallback_set w" "httpCallback w = Some cb"
proof -
  from assms obtain b epollfd evtfd ptr addr nm option sockfd w0 w1 where
    built: "0 \<le> epollfd" "0 \<le> evtfd" "new_event_loop (k_ctl k b) False epollfd evtfd False b tid = Inr (loops w0 b)"
      "ptr \<noteq> wakeup_ptr" "sockfd \<noteq> evtfd"
      "new_http_server (Some b) ptr addr nm option sockfd 0 w0 = Inr w1"
      "w = http_setThreadNum n (setHttpCallback (Some cb) w1)" by (auto simp: http_built_def)
  from built(6) obtain s where s: "new_tcp_server (Some b) ptr addr nm option sockfd 0 w0 = Inr s"
    "w1 = server_world.extend (s\<lparr>srv_connectionCallback_set := True, srv_messageCallback_set := True\<rparr>)
       (http_world.fields (Some defaultHttpCallback))"
    by (auto simp: new_http_server_def bindR_eq_Inr)
  note defs = built(7) s(2) http_setThreadNum_def server_setThreadNum_def setHttpCallback_def server_world.defs http_world.defs
  note nf = new_tcp_server_facts[OF s(1)]
  have sl: "srv_loop w = b" by (simp add: defs nf)
  show "fresh_server k tid n w"
    unfolding fresh_server_def sl
  proof (intro conjI)
    show "\<exists>epollfd evtfd base ptr sockfd nm. 0 \<le> epollfd \<and> 0 \<le> evtfd \<and>
        new_event_loop (k_ctl k b) False epollfd evtfd False b tid = Inr base \<and> ptr \<noteq> wakeup_ptr \<and> sockfd \<noteq> evtfd \<and>
        loops w b = set_chan ptr (new_channel b sockfd) base \<and>
        srv_acceptor w = \<lparr>acc_loop = b, acc_fd = sockfd, acc_channel = ptr, newConnectionCallback_set = True, listenning = False\<rparr> \<and>
        (\<forall>l p. chan_owner w l p = (if l = b \<and> p = ptr then AcceptorOwner else if p = wakeup_ptr then WakeupOwner else NoOwner)) \<and>
        srv_pool w = setThreadNum n (new_thread_pool b nm)"
      by (rule exI[of _ epollfd], rule exI[of _ evtfd], rule exI[of _ "loops w0 b"], rule exI[of _ ptr], rule exI[of _ sockfd],
          rule exI[of _ nm]) (use built(1-5) in \<open>simp add: defs nf\<close>)
  qed (use nf(11) in \<open>simp_all add: defs nf\<close>)
  show "\<not> srv_writeCompleteCallback_set w" "httpCallback w = Some cb" by (simp_all add: defs nf)
qed

lemma http_start_inv:
  assumes "http_runs k cb st" and k: "\<And>lid. accepts_legal (k_ctl k lid)" and cb: "\<forall>req. answer_fits (answer cb req)"
  shows "reactor_inv {} {} st" "answering (app_state (srv st))" "\<not> held st c" "quiescent st"
    "\<exists>fd. channels (loops (srv st) (srv_loop (srv st))) fd = Some (acc_channel (srv_acceptor (srv st)))"
proof -
  from assms(1) obtain tid n w init spawn m w' where
    b: "http_built k cb tid n w" "0 < n" "spawns_for spawn w" "server_start k False init spawn m 0 tid w = Inr w'"
      "st = at_rest w'" by (auto simp: http_runs_def http_start_def)
  note bf = http_built_facts[OF b(1)]
  from fresh_start_inv[OF bf(1) k b(2-4)] b(5)
  show "reactor_inv {} {} st" "\<not> held st c" "quiescent st"
    "\<exists>fd. channels (loops (srv st) (srv_loop (srv st))) fd = Some (acc_channel (srv_acceptor (srv st)))"
    by simp_all
  have "answering (app_state w)" using bf(2,3) cb by (simp add: answering_callback)
  then show "answering (app_state (srv st))" using fresh_start_inv(2)[OF bf(1) k b(2-4)] b(5) by simp
qed

section \<open>A concrete server\<close>

lemma demo_kernel_fair:
  "accepts_legal (k_ctl (reading_kernel (\<lambda>_. [])) lid)" "takes_prefix (reading_kernel (\<lambda>_. []))"
  using demo_http_facts(4)[of "\<lambda>_. []"] by (simp_all add: reading_kernel_def demo_kernel_def accepts_legal_def)

lemma default_answers: "\<forall>req. answer_fits (answer defaultHttpCallback req)"
proof
  fix req
  have fit: "answer_fits (defaultHttpCallback req (new_response b))" for b
  proof -
    have shown: "response_text (defaultHttpCallback req (new_response b)) =
        ''HTTP/1.1 404 Not Found'' @ kCRLF @ ''Connection: close'' @ kCRLF @ kCRLF"
      by (cases b; simp add: defaultHttpCallback_def; code_simp)
    show ?thesis
      unfolding answer_fits_def shown by (simp add: kCRLF_def defaultHttpCallback_def setCloseConnection_def)
  qed
  show "answer_fits (answer defaultHttpCallback req)" unfolding answer_def by (rule fit)
qed

lemma demo_http_runs:
  "\<exists>st. http_runs (reading_kernel (\<lambda>_. [])) defaultHttpCallback st \<and> plausible (idle_turn (srv_loop (srv st))) st"
proof -
  let ?k = "reading_kernel (\<lambda>_. [])"
  from demo_fresh_loop[OF demo_kernel_fair(1)] obtain l s where l: "new_event_loop (k_ctl ?k 1) False 3 4 False 1 7 = Inr l"
    and s: "new_tcp_server (Some 1) 5 demo_loopback ''web'' kNoReusePort 6 0 (demo_world\<lparr>loops := \<lambda>_. l\<rparr>) = Inr s" by blast
  let ?w0 = "demo_world\<lparr>loops := \<lambda>_. l\<rparr>"
  from s obtain w1 where w1: "new_http_server (Some 1) 5 demo_loopback ''web'' kNoReusePort 6 0 ?w0 = Inr w1"
    and sl1: "srv_loop w1 = 1"
    by (simp add: new_http_server_def server_world.defs new_tcp_server_facts(2)[OF s])
  define w where "w = http_setThreadNum 2 (setHttpCallback (Some defaultHttpCallback) w1)"
  have b: "http_built ?k defaultHttpCallback 7 2 w"
    unfolding http_built_def
    by (rule exI[of _ 1], rule exI[of _ 3], rule exI[of _ 4], rule exI[of _ 5], rule exI[of _ demo_loopback], rule exI[of _ "''web''"],
        rule exI[of _ kNoReusePort], rule exI[of _ 6], rule exI[of _ ?w0], rule exI[of _ w1])
      (use l w1 in \<open>simp add: w_def wakeup_ptr_def\<close>)
  have sp: "spawns_for demo_spawn w"
    by (rule demo_spawns) (simp add: sl1 w_def http_setThreadNum_def server_setThreadNum_def setHttpCallback_def)
  from fresh_server_starts[OF http_built_facts(1)[OF b] demo_kernel_fair(1) _ sp, of "\<lambda>_. Inr" 0] obtain w' where
    "http_start ?k False (\<lambda>_. Inr) demo_spawn 0 0 7 w = Inr w'" by (auto simp: http_start_def)
  with b sp have "http_runs ?k defaultHttpCallback (at_rest w')"
    unfolding http_runs_def by (intro exI[of _ 7] exI[of _ 2] exI[of _ w] exI[of _ "\<lambda>_. Inr"] exI[of _ demo_spawn] exI[of _ 0] exI[of _ w']) simp
  with idle_plausible show ?thesis by (intro exI[of _ "at_rest w'"]) simp
qed

section \<open>Properties\<close>

text \<open>The state of a server that was built, started and has run.\<close>

lemma http_reaches_inv:
  assumes "http_runs k cb st0" and "\<And>lid. accepts_legal (k_ctl k lid)" and "takes_prefix k"
    and "\<forall>req. answer_fits (answer cb req)" and "reaches k (http_app k tmp) st0 st"
  shows "reactor_inv {} {} st \<and> answering (app_state (srv st))"
proof -
  note i = http_start_inv[OF assms(1,2,4)]
  from kernel_cases[OF assms(2,3)] obtain K where K: "k = kernel_of K" by blast
  from http_threads.reaches_ok[OF assms(5)[unfolded K] i(1,2)] i(2) show ?thesis by simp
qed




text \<open>C3: connections outlive their channels. In every reached state of an HTTP server, whatever is registered with a
  poller is the loop's own eventfd, the acceptor in the base loop, or the channel of a connection that something
  still holds (the server's map or a functor), which runs in that loop, was established, and whose descriptor no other
  living connection shares: an event never reaches a destroyed connection, nor one that belongs to another.\<close>

theorem http_connections_alive:
  assumes "http_runs k cb st0" and "\<And>lid. accepts_legal (k_ctl k lid)" and "takes_prefix k"
    and "\<forall>req. answer_fits (answer cb req)" and "reaches k (http_app k tmp) st0 st"
    and "lid \<in> set (loop_ids (srv st))" and "channels (loops (srv st) lid) fd = Some ptr"
  shows "ptr = wakeup_ptr \<and> chan_owner (srv st) lid ptr = WakeupOwner \<or>
    lid = srv_loop (srv st) \<and> ptr = acc_channel (srv_acceptor (srv st)) \<and> chan_owner (srv st) lid ptr = AcceptorOwner \<or>
    (\<exists>c. chan_owner (srv st) lid ptr = ConnOwner c \<and> held st c \<and> conn_loop (conns (srv st) c) = lid \<and>
      conn_channel (conns (srv st) c) = ptr \<and> conn_fd (conns (srv st) c) = fd \<and> conn_state (conns (srv st) c) \<noteq> kConnecting \<and>
      (\<forall>d. held st d \<longrightarrow> d \<noteq> c \<longrightarrow> conn_fd (conns (srv st) d) \<noteq> fd))"
proof -
  have inv: "reactor_inv {} {} st" using http_reaches_inv[OF assms(1-5)] by blast
  have ls: "loop_state_ok st lid" using inv assms(6) by (simp add: reactor_inv_def)
  have ran: "ptr \<in> ran (channels (loops (srv st) lid))" using assms(7) by (rule ranI)
  have fd: "chan_fd (chans (loops (srv st) lid) ptr) = fd"
    using ls assms(7) by (simp add: loop_state_ok_def Let_def loop_ok_def poller_inv_def index_ok_def)
  have conn: "conn_fd (conns (srv st) c) = fd \<and> (\<forall>d. held st d \<longrightarrow> d \<noteq> c \<longrightarrow> conn_fd (conns (srv st) d) \<noteq> fd)"
    if "held st c" "conn_loop (conns (srv st) c) = lid" "ptr = conn_channel (conns (srv st) c)" for c
  proof -
    have own: "conn_fd (conns (srv st) c) = fd"
      using held_flags(9)[OF inv that(1)] that(2,3) fd by (simp add: chan_of_def loop_of_def)
    with held_distinct[OF inv that(1)] show ?thesis by simp
  qed
  from active_channel(2)[OF inv assms(6) ran] show ?thesis
  proof (elim disjE exE conjE)
    fix c
    assume c: "held st c" "conn_loop (conns (srv st) c) = lid" "ptr = conn_channel (conns (srv st) c)"
      "chan_owner (srv st) lid ptr = ConnOwner c" "conn_state (conns (srv st) c) \<noteq> kConnecting"
    from conn[OF c(1-3)] c show ?thesis by (intro disjI2 exI[of _ c]) simp
  qed simp_all
qed

theorem http_connections_alive_witness:
  "\<exists>st fd. http_runs (reading_kernel (\<lambda>_. [])) defaultHttpCallback st \<and>
     channels (loops (srv st) (srv_loop (srv st))) fd = Some (acc_channel (srv_acceptor (srv st))) \<and>
     (\<forall>c. chan_owner (srv st) (srv_loop (srv st)) (acc_channel (srv_acceptor (srv st))) \<noteq> ConnOwner c)"
proof -
  from demo_http_runs obtain st where st: "http_runs (reading_kernel (\<lambda>_. [])) defaultHttpCallback st" by blast
  note i = http_start_inv[OF st demo_kernel_fair(1) default_answers]
  from i(5) obtain fd where fd: "channels (loops (srv st) (srv_loop (srv st))) fd = Some (acc_channel (srv_acceptor (srv st)))"
    by blast
  have "srv_loop (srv st) \<in> set (loop_ids (srv st))" by (simp add: loop_ids_def)
  from http_connections_alive[OF st demo_kernel_fair default_answers reaches_refl this fd] i(3) st fd show ?thesis
    by (intro exI[of _ st] exI[of _ fd]) auto
qed

text \<open>C6: no connection leaks. Whenever an HTTP server has come to rest, every loop waiting in \<open>epoll_wait\<close> with no
  functor queued, the connections that are alive are exactly those in the server's map, and each of them is
  established and not closed: every closed connection has been destroyed, and none is stuck half-way in or out.\<close>
theorem http_no_leak:
  assumes "http_runs k cb st0" and "\<And>lid. accepts_legal (k_ctl k lid)" and "takes_prefix k"
    and "\<forall>req. answer_fits (answer cb req)" and "reaches k (http_app k tmp) st0 st" and "quiescent st"
  shows "held st c \<longleftrightarrow> in_map (srv st) c \<and> conn_state (conns (srv st) c) \<in> {kConnected, kDisconnecting}"
proof -
  have inv: "reactor_inv {} {} st" using http_reaches_inv[OF assms(1-5)] by blast
  have "in_map (srv st) c \<Longrightarrow> held st c" by (simp add: held_def)
  with quiet_held[OF inv assms(6), of c] show ?thesis by blast
qed

theorem http_no_leak_witness:
  "\<exists>st. http_runs (reading_kernel (\<lambda>_. [])) defaultHttpCallback st \<and>
     (\<forall>c. held st c \<longleftrightarrow> in_map (srv st) c \<and> conn_state (conns (srv st) c) \<in> {kConnected, kDisconnecting})"
proof -
  from demo_http_runs obtain st where st: "http_runs (reading_kernel (\<lambda>_. [])) defaultHttpCallback st" by blast
  have "quiescent st" by (rule http_start_inv(4)[OF st demo_kernel_fair(1) default_answers])
  with http_no_leak[OF st demo_kernel_fair default_answers reaches_refl] st show ?thesis by blast
qed


text \<open>C7: a socket is closed once, by the thread that drops the last reference, and after its channel has left the poller. In a
  turn of a running HTTP server, connections are destroyed only at the end of \<open>doPendingFunctors\<close>, when the vector of
  called functors goes: the descriptors closed there are those of the connections that were alive before the turn
  and are not after it, one \<open>close\<close> each, and no poller of their loop knows the descriptor any more.\<close>

theorem http_sockets_closed_once:
  assumes "http_runs k cb st0" and "\<And>lid. accepts_legal (k_ctl k lid)" and "takes_prefix k"
    and "\<forall>req. answer_fits (answer cb req)" and "reaches k (http_app k tmp) st0 st" and "plausible tn st"
    and "loop_turn k (http_app k tmp) tn st = Inr st'"
  shows "\<exists>cs. distinct cs \<and> set cs = {c. held st c \<and> \<not> held st' c} \<and>
    (case phase_of st (turn_loop tn) of
       Calling called [] \<Rightarrow> sock_log (srv st') = sock_log (srv st) @ map (\<lambda>c. SockClose (conn_fd (conns (srv st) c))) cs
     | _ \<Rightarrow> cs = []) \<and>
    (\<forall>c \<in> set cs. channels (loops (srv st') (conn_loop (conns (srv st) c))) (conn_fd (conns (srv st) c)) = None)"
proof (cases "\<exists>called. phase_of st (turn_loop tn) = Calling called []")
  case True
  have "reactor_inv {} {} st" using http_reaches_inv[OF assms(1-5)] by blast
  with True end_turn_closes[OF _ assms(6) _ assms(7)] show ?thesis by auto
next
  case False
  note i = http_reaches_inv[OF assms(1-5)]
  from kernel_cases[OF assms(2,3)] obtain K where K: "k = kernel_of K" by blast
  have "\<not> empty_high_water st (turn_loop tn)"
    using http_threads.high_water_turn[of st tn K tmp] assms(7) by (auto simp: K)
  with http_threads.turn_ok[of st tn K tmp] i assms(6,7) False have "\<forall>d. held st d \<longrightarrow> held st' d" by (simp add: K)
  with False show ?thesis by (intro exI[of _ "[]"]) (auto split: loop_phase.split list.split)
qed

theorem http_sockets_closed_once_witness:
  "\<exists>st st' tn cs. http_runs (reading_kernel (\<lambda>_. [])) defaultHttpCallback st \<and>
     loop_turn (reading_kernel (\<lambda>_. [])) (http_app (reading_kernel (\<lambda>_. [])) 9) tn st = Inr st' \<and>
     set cs = {c. held st c \<and> \<not> held st' c}"
proof -
  from demo_http_runs obtain st where st: "http_runs (reading_kernel (\<lambda>_. [])) defaultHttpCallback st"
    "plausible (idle_turn (srv_loop (srv st))) st" by blast
  from st(1) have "phase_of st (srv_loop (srv st)) = Waiting" by (auto simp: http_runs_def)
  then have "phase_of st (turn_loop (idle_turn (srv_loop (srv st)))) = Waiting" by (simp add: idle_turn_def)
  from waiting_turn[OF http_start_inv(1)[OF st(1) demo_kernel_fair(1) default_answers] st(2) this]
  obtain st' where "loop_turn (reading_kernel (\<lambda>_. [])) (http_app (reading_kernel (\<lambda>_. [])) 9) (idle_turn (srv_loop (srv st))) st = Inr st'"
    by blast
  with http_sockets_closed_once[OF st(1) demo_kernel_fair default_answers reaches_refl st(2) this] st(1) show ?thesis by blast
qed

end
