(* ===== verification/Http_Example.thy ===== *)
theory Http_Example
  imports Http_Reactor
begin

text \<open>
  The HTTP server of http/test/HttpServer_test.cc: its callback, which serves three pages, and its \<open>main\<close>. What it
  prints and the level of its logger are not modelled.
\<close>

section \<open>The pages\<close>

text \<open>The bytes of \<open>char favicon[555]\<close>.\<close>

definition favicon :: string where
  "favicon = map (char_of :: nat \<Rightarrow> char)
   [
    137, 80, 78, 71, 13, 10, 26, 10, 0, 0, 0, 13, 73, 72, 68, 82, 0, 0, 0, 16, 0, 0, 0, 16,
    8, 6, 0, 0, 0, 31, 243, 255, 97, 0, 0, 0, 25, 116, 69, 88, 116, 83, 111, 102, 116, 119, 97, 114,
    101, 0, 65, 100, 111, 98, 101, 32, 73, 109, 97, 103, 101, 82, 101, 97, 100, 121, 113, 201, 101, 60, 0, 0,
    1, 205, 73, 68, 65, 84, 120, 218, 148, 147, 57, 72, 3, 65, 20, 134, 255, 93, 98, 167, 4, 82, 196, 109,
    34, 30, 160, 70, 36, 8, 22, 22, 118, 10, 54, 186, 74, 154, 128, 8, 65, 180, 113, 133, 88, 137, 71, 176,
    73, 169, 81, 36, 205, 166, 8, 164, 72, 99, 145, 66, 11, 175, 86, 193, 70, 180, 21, 207, 34, 88, 152, 11,
    84, 72, 138, 100, 147, 141, 251, 70, 103, 201, 26, 20, 125, 240, 102, 118, 102, 223, 124, 239, 231, 103, 70, 168,
    213, 106, 72, 36, 18, 42, 0, 5, 191, 71, 212, 239, 247, 47, 54, 236, 18, 32, 30, 143, 215, 170, 213, 234,
    175, 73, 53, 70, 170, 84, 95, 159, 34, 65, 42, 149, 10, 131, 229, 114, 57, 100, 179, 89, 150, 153, 76, 6,
    233, 116, 154, 37, 133, 44, 203, 84, 167, 196, 98, 49, 181, 94, 0, 3, 104, 154, 198, 22, 130, 32, 88, 82,
    20, 69, 54, 83, 148, 203, 101, 120, 189, 94, 170, 85, 84, 35, 76, 192, 224, 226, 193, 143, 0, 158, 188, 9,
    65, 124, 62, 31, 131, 68, 34, 17, 213, 84, 64, 63, 56, 128, 119, 229, 51, 7, 184, 92, 46, 72, 146, 4,
    135, 195, 129, 64, 32, 64, 103, 152, 233, 54, 26, 166, 103, 21, 4, 227, 215, 200, 189, 21, 225, 105, 183, 67,
    171, 234, 120, 47, 106, 88, 146, 187, 24, 32, 159, 207, 51, 195, 184, 233, 78, 167, 211, 108, 74, 0, 105, 54,
    124, 142, 225, 254, 86, 132, 231, 60, 159, 114, 43, 58, 66, 123, 55, 102, 119, 174, 142, 14, 243, 189, 82, 169,
    100, 2, 66, 175, 133, 50, 102, 70, 186, 12, 217, 159, 29, 154, 108, 34, 230, 199, 58, 44, 128, 239, 193, 21,
    144, 7, 147, 162, 40, 160, 83, 106, 177, 184, 223, 41, 53, 67, 14, 63, 88, 252, 152, 218, 121, 106, 80, 64,
    0, 135, 174, 27, 23, 66, 180, 58, 63, 190, 121, 199, 10, 38, 182, 238, 217, 154, 96, 20, 147, 219, 143, 13,
    10, 46, 233, 35, 149, 41, 88, 0, 39, 235, 110, 86, 112, 188, 214, 203, 214, 71, 171, 61, 108, 125, 184, 210,
    221, 160, 96, 131, 186, 239, 95, 164, 234, 204, 2, 78, 174, 94, 112, 26, 236, 179, 64, 57, 172, 254, 242, 145,
    137, 103, 145, 133, 33, 168, 135, 183, 88, 126, 126, 133, 187, 205, 78, 78, 98, 116, 64, 250, 147, 137, 236, 30,
    236, 134, 2, 72, 38, 147, 208, 117, 29, 127, 9, 50, 149, 191, 31, 219, 215, 99, 138, 26, 247, 92, 193, 255,
    34, 74, 195, 135, 0, 3, 0, 75, 187, 248, 214, 42, 118, 152, 73, 0, 0, 0, 0, 73, 69, 78, 68, 174,
    66, 96, 130]"

text \<open>
  \<open>Timestamp::now()\<close> asks the clock for the seconds; \<open>localtime\<close> is the C library's. The clock may answer
  differently for each request.
\<close>

definition test_onRequest ::
  "(64 word \<Rightarrow> tm) \<Rightarrow> (http_request \<Rightarrow> 64 word) \<Rightarrow> http_request \<Rightarrow> http_response \<Rightarrow> http_response" where
  "test_onRequest localtime clock req resp =
     (if req_path req = ''/''
      then let resp = setStatusCode k200Ok resp;
               resp = setStatusMessage ''OK'' resp;
               resp = setContentType ''text/html'' resp;
               resp = resp_addHeader ''Server'' ''Muduo'' resp;
               now = timestamp_tostring localtime (timestamp_now (clock req))
           in setBody (''<html><head><title>This is title</title></head>'' @ ''<body><h1>Hello</h1>Now is '' @ now @
                ''</body></html>'') resp
      else if req_path req = ''/favicon.ico''
      then let resp = setStatusCode k200Ok resp;
               resp = setStatusMessage ''OK'' resp;
               resp = setContentType ''image/png'' resp
           in setBody favicon resp
      else if req_path req = ''/hello''
      then let resp = setStatusCode k200Ok resp;
               resp = setStatusMessage ''OK'' resp;
               resp = setContentType ''text/plain'' resp;
               resp = resp_addHeader ''Server'' ''Muduo'' resp
           in setBody (''hello, world!'' @ [CHR 0x0A]) resp
      else let resp = setStatusCode k404NotFound resp;
               resp = setStatusMessage ''Not Found'' resp
           in setCloseConnection True resp)"

section \<open>The main program\<close>

text \<open>\<open>atoi\<close>, where the number fits an \<open>int\<close>.\<close>

definition digits_value :: "string \<Rightarrow> int" where
  "digits_value s =
     foldl (\<lambda>n c. 10 * n + (of_char c - 48)) 0 (takeWhile (\<lambda>c. CHR ''0'' \<le> c \<and> c \<le> CHR ''9'') s)"

fun atoi_sign :: "string \<Rightarrow> int" where
  "atoi_sign (c # s) =
     (if c = CHR ''-'' then - digits_value s else if c = CHR ''+'' then digits_value s else digits_value (c # s))"
| "atoi_sign [] = 0"

definition atoi :: "string \<Rightarrow> int" where
  "atoi s = atoi_sign (dropWhile isspace s)"

text \<open>
  \<open>main\<close> up to \<open>loop.loop()\<close>, with the arguments \<open>argv[0]\<close> and on. The loop is made at \<open>lid\<close>, the acceptor's channel at
  \<open>ptr\<close>, with the descriptors the kernel gives; the address is that of \<open>InetAddress(8000)\<close>.
\<close>

definition test_main ::
  "kernel \<Rightarrow> (string \<Rightarrow> in_addr) \<Rightarrow> (64 word \<Rightarrow> tm) \<Rightarrow> (http_request \<Rightarrow> 64 word) \<Rightarrow> string list \<Rightarrow>
   nat \<Rightarrow> int \<Rightarrow> int \<Rightarrow> nat \<Rightarrow> int \<Rightarrow> (nat \<Rightarrow> spawned) \<Rightarrow> int \<Rightarrow> nat \<Rightarrow> world \<Rightarrow> http_world outcome" where
  "test_main k inet_addr localtime clock argv lid epollfd evtfd ptr sockfd spawn numCreated tid w =
     (let numThreads = (if 1 < length argv then atoi (argv ! 1) else 0) in
      bindR (new_event_loop (k_ctl k lid) False epollfd evtfd False lid tid) (\<lambda>loop.
      let w = put_loop lid loop w;
          addr = new_inet_address inet_addr 8000 ''127.0.0.1'' in
      bindR (new_http_server (Some lid) ptr addr ''dummy'' kNoReusePort sockfd 0 w) (\<lambda>server.
      let server = setHttpCallback (Some (test_onRequest localtime clock)) server;
          server = http_setThreadNum numThreads server
      in http_start k False (\<lambda>_. Inr) spawn numCreated 0 tid server)))"


section \<open>What is answered\<close>

lemma length_favicon: "length favicon = 555"
  by (simp add: favicon_def)

text \<open>The response to each path, with the connection kept open or not.\<close>

definition html_page :: "string \<Rightarrow> string" where
  "html_page now = ''<html><head><title>This is title</title></head><body><h1>Hello</h1>Now is '' @ now @ ''</body></html>''"

definition page_headers :: "string \<Rightarrow> (string \<times> string) list" where
  "page_headers path =
     (if path = ''/'' then [(''Content-Type'', ''text/html''), (''Server'', ''Muduo'')]
      else if path = ''/favicon.ico'' then [(''Content-Type'', ''image/png'')]
      else [(''Content-Type'', ''text/plain''), (''Server'', ''Muduo'')])"

definition page_body :: "string \<Rightarrow> string \<Rightarrow> string" where
  "page_body now path =
     (if path = ''/'' then html_page now else if path = ''/favicon.ico'' then favicon else ''hello, world!'' @ [CHR 0x0A])"

definition pages :: "string list" where
  "pages = [''/'', ''/favicon.ico'', ''/hello'']"

lemma test_onRequest_page:
  assumes "req_path req \<in> set pages"
  shows "test_onRequest localtime clock req (new_response close) =
    \<lparr>resp_headers = page_headers (req_path req), statusCode = k200Ok, statusMessage = ''OK'', closeConnection = close,
     resp_body = page_body (timestamp_tostring localtime (timestamp_now (clock req))) (req_path req)\<rparr>"
proof -
  have put: "map_put ''Server'' ''Muduo'' [(''Content-Type'', v)] = [(''Content-Type'', v), (''Server'', ''Muduo'')]" for v :: string
    by simp
  from assms consider "req_path req = ''/''" | "req_path req = ''/favicon.ico''" | "req_path req = ''/hello''"
    by (auto simp: pages_def)
  then show ?thesis
    by cases (simp_all add: test_onRequest_def page_headers_def page_body_def html_page_def new_response_def Let_def
        setStatusCode_def setStatusMessage_def setContentType_def setBody_def resp_addHeader_def put)
qed

lemma test_onRequest_missing:
  "req_path req \<notin> set pages \<Longrightarrow> test_onRequest localtime clock req resp =
     setCloseConnection True (setStatusMessage ''Not Found'' (setStatusCode k404NotFound resp))"
  by (simp add: pages_def test_onRequest_def Let_def)

lemma not_found_text:
  "response_text (setCloseConnection True (setStatusMessage ''Not Found'' (setStatusCode k404NotFound (new_response b)))) =
     ''HTTP/1.1 404 Not Found'' @ kCRLF @ ''Connection: close'' @ kCRLF @ kCRLF"
  by (cases b; code_simp)

lemma length_tostring: "length (timestamp_tostring localtime t) < 128"
  by (simp add: timestamp_tostring_def snprintf_def Let_def)

lemma length_page: "length (page_body (timestamp_tostring localtime t) path) < 1000"
  using length_tostring[of localtime t] by (simp add: page_body_def html_page_def length_favicon)

text \<open>Every answer fits.\<close>

lemma test_answers: "\<forall>req. answer_fits (answer (test_onRequest localtime clock) req)"
proof
  fix req
  show "answer_fits (answer (test_onRequest localtime clock) req)"
  proof (cases "req_path req \<in> set pages")
    case True
    let ?body = "page_body (timestamp_tostring localtime (timestamp_now (clock req))) (req_path req)"
    have body: "length ?body < 1000" by (rule length_page)
    then have "length (show_nat (length ?body)) \<le> 3" by (intro length_show_nat) simp_all
    moreover have "show_int 200 = ''200''" by code_simp
    ultimately show ?thesis
      using body by (auto simp: answer_def test_onRequest_page[OF True] answer_fits_def response_text_def head_lines_def
          status_line_def page_headers_def kCRLF_def)
  next
    case False
    show ?thesis
      unfolding answer_def test_onRequest_missing[OF False] answer_fits_def not_found_text
      by (simp add: kCRLF_def setCloseConnection_def)
  qed
qed


text \<open>The whole text of the answer for a path, on a connection that is kept open.\<close>

definition served :: "string \<Rightarrow> string \<Rightarrow> string" where
  "served path body =
     (if path \<in> set pages
       then ''HTTP/1.1 200 OK'' @ kCRLF @ ''Content-Length: '' @ show_nat (length body) @ kCRLF @
         ''Connection: Keep-Alive'' @ kCRLF @
         concat (map (\<lambda>(key, val). key @ '': '' @ val @ kCRLF) (page_headers path)) @ kCRLF @ body
       else ''HTTP/1.1 404 Not Found'' @ kCRLF @ ''Connection: close'' @ kCRLF @ kCRLF)"

lemma test_answer_text:
  assumes "\<not> wants_close req"
  shows "response_text (answer (test_onRequest localtime clock) req) =
      served (req_path req) (page_body (timestamp_tostring localtime (timestamp_now (clock req))) (req_path req))"
    "closeConnection (answer (test_onRequest localtime clock) req) \<longleftrightarrow> req_path req \<notin> set pages"
proof -
  show "response_text (answer (test_onRequest localtime clock) req) =
      served (req_path req) (page_body (timestamp_tostring localtime (timestamp_now (clock req))) (req_path req))"
  proof (cases "req_path req \<in> set pages")
    case True
    have "show_int 200 = ''200''" by code_simp
    with True assms show ?thesis
      by (simp add: served_def answer_def test_onRequest_page response_text_def head_lines_def status_line_def page_headers_def)
  next
    case False
    then show ?thesis unfolding answer_def test_onRequest_missing[OF False] not_found_text by (simp add: served_def)
  qed
  from assms show "closeConnection (answer (test_onRequest localtime clock) req) \<longleftrightarrow> req_path req \<notin> set pages"
    by (cases "req_path req \<in> set pages")
      (simp_all add: answer_def test_onRequest_page test_onRequest_missing setCloseConnection_def)
qed

text \<open>A \<open>localtime\<close>.\<close>

definition demo_time :: "64 word \<Rightarrow> tm" where
  "demo_time t = \<lparr>tm_year = 123, tm_mon = 0, tm_mday = 1, tm_hour = 2, tm_min = 3, tm_sec = 4\<rparr>"

section \<open>Properties\<close>

text \<open>C16: the three pages, byte for byte. When the bytes of a GET request complete in the input buffer of a connection
  that is up, and the request does not ask for the connection to be closed, the stream of the connection grows by
  exactly this text: for \<open>/\<close>, \<open>/favicon.ico\<close> and \<open>/hello\<close> the status 200, the length of the body, keep-alive, the
  headers of the page in the order of their names and the body, after which the connection stays up; for every
  other path the line 404 Not Found and \<open>Connection: close\<close>, after which it is half-closed.\<close>

theorem test_server_serves:
  fixes w :: "'z http_world_scheme"
  assumes "in_loop k tid c w" and "conn_inv c w" and "conn_state (conns w c) = kConnected" and "takes_prefix k"
    and "messageCallback_set (conns w c)" and "httpCallback w = Some (test_onRequest localtime clock)"
    and "k_read k (sock_log w) (conn_fd (conns w c)) = Inr d" and "d \<noteq> []"
    and "readable (inputBuffer (conns w c)) @ d = request_text kGet path query v hs @ rest"
    and "v \<noteq> kUnknown" and "plain_target path query" and "plain_headers hs"
    and "req = request_of kGet path query v hs t" and "\<not> wants_close req"
    and "body = page_body (timestamp_tostring localtime (timestamp_now (clock req))) path"
  shows "\<exists>w'. handleRead k (http_user k tmp tid) tid c t w = Inr w' \<and>
    out_stream c w' = out_stream c w @ served path body \<and>
    conn_state (conns w' c) = (if path \<in> set pages then kConnected else kDisconnecting) \<and>
    readable (inputBuffer (conns w' c)) = rest"
proof -
  let ?cb = "test_onRequest localtime clock"
  have path: "req_path req = path" by (simp add: assms(13) request_of_def)
  have fits: "answer_fits (answer ?cb req)" using test_answers by blast
  have "kGet \<noteq> kInvalid" by simp
  from request_answered_facts[OF assms(1-9) this assms(10-12) refl, of t tmp] fits obtain w' where
    "handleRead k (http_user k tmp tid) tid c t w = Inr w'"
    "out_stream c w' = out_stream c w @ response_text (answer ?cb req)" "readable (inputBuffer (conns w' c)) = rest"
    "conn_state (conns w' c) = (if closeConnection (answer ?cb req) then kDisconnecting else kConnected)"
    unfolding assms(13)[symmetric] by blast
  then show ?thesis
    unfolding test_answer_text[OF assms(14)] path assms(15) by (intro exI[of _ w']) simp
qed


definition demo_test_server :: http_world where
  "demo_test_server = demo_http\<lparr>httpCallback := Some (test_onRequest demo_time (\<lambda>_. 5))\<rparr>"

lemma demo_test_server_facts:
  "in_loop (reading_kernel f) 7 0 demo_test_server" "conn_inv 0 demo_test_server"
  "conn_state (conns demo_test_server 0) = kConnected" "takes_prefix (reading_kernel f)"
  "messageCallback_set (conns demo_test_server 0)" "out_stream 0 demo_test_server = []"
  "readable (inputBuffer (conns demo_test_server 0)) = []"
proof -
  have same: "loops demo_test_server = loops demo_http" "conns demo_test_server = conns demo_http"
    "sock_log demo_test_server = sock_log demo_http" by (simp_all add: demo_test_server_def)
  then have c: "loop_of 0 demo_test_server = loop_of 0 demo_http" "chan_of 0 demo_test_server = chan_of 0 demo_http"
    by (simp_all add: loop_of_def chan_of_def)
  show "in_loop (reading_kernel f) 7 0 demo_test_server"
    by (rule in_loop_same[OF demo_http_facts(1) c(1)]) (simp_all add: same)
  show "conn_inv 0 demo_test_server" using demo_http_facts(2) by (simp add: conn_inv_def same c)
  show "conn_state (conns demo_test_server 0) = kConnected" "takes_prefix (reading_kernel f)"
    "messageCallback_set (conns demo_test_server 0)" "out_stream 0 demo_test_server = []"
    "readable (inputBuffer (conns demo_test_server 0)) = []"
    using demo_http_facts(3-5,8,9) by (simp_all add: same out_stream_def)
qed

theorem test_server_serves_witness:
  "\<exists>w'. handleRead (reading_kernel (\<lambda>_. ''GET /hello HTTP/1.1'' @ kCRLF @ kCRLF))
       (http_user (reading_kernel (\<lambda>_. ''GET /hello HTTP/1.1'' @ kCRLF @ kCRLF)) 9 7) 7 0 (Timestamp 3) demo_test_server = Inr w' \<and>
     out_stream 0 w' = ''HTTP/1.1 200 OK'' @ kCRLF @ ''Content-Length: 14'' @ kCRLF @ ''Connection: Keep-Alive'' @ kCRLF @
       ''Content-Type: text/plain'' @ kCRLF @ ''Server: Muduo'' @ kCRLF @ kCRLF @ ''hello, world!'' @ [CHR 0x0A]"
proof -
  let ?d = "''GET /hello HTTP/1.1'' @ kCRLF @ kCRLF"
  have d: "readable (inputBuffer (conns demo_test_server 0)) @ ?d = request_text kGet ''/hello'' [] kHttp11 [] @ []"
    unfolding demo_test_server_facts(7) by code_simp
  have p: "plain_target ''/hello'' []" "plain_headers []" by code_simp+
  have keep: "\<not> wants_close (request_of kGet ''/hello'' [] kHttp11 [] (Timestamp 3))" by code_simp
  have rd: "k_read (reading_kernel (\<lambda>_. ?d)) (sock_log demo_test_server) (conn_fd (conns demo_test_server 0)) = Inr ?d"
    by (simp add: reading_kernel_def)
  have cb: "httpCallback demo_test_server = Some (test_onRequest demo_time (\<lambda>_. 5))" by (simp add: demo_test_server_def)
  have show14: "show_nat 14 = ''14''" by code_simp
  have hello: "served ''/hello'' (page_body now ''/hello'') =
      ''HTTP/1.1 200 OK'' @ kCRLF @ ''Content-Length: 14'' @ kCRLF @ ''Connection: Keep-Alive'' @ kCRLF @
       ''Content-Type: text/plain'' @ kCRLF @ ''Server: Muduo'' @ kCRLF @ kCRLF @ ''hello, world!'' @ [CHR 0x0A]" for now :: string
  proof -
    have "length (page_body now ''/hello'') = 14" by (simp add: page_body_def)
    then show ?thesis by (simp add: served_def pages_def page_headers_def show14) (simp add: page_body_def)
  qed
  have "?d \<noteq> []" by simp
  from test_server_serves[OF demo_test_server_facts(1-5) cb rd this d _ p refl keep refl, of 9] show ?thesis
    unfolding hello demo_test_server_facts(6) by auto
qed

lemma test_main_runs:
  assumes "main_given lid epollfd evtfd ptr sockfd spawn" and k: "\<And>lid. accepts_legal (k_ctl k lid)"
    and "1 < length argv" and "0 < atoi (argv ! 1)"
  shows "\<exists>w'. test_main k inet_addr localtime clock argv lid epollfd evtfd ptr sockfd spawn m tid w = Inr w' \<and>
    http_runs k (test_onRequest localtime clock) (at_rest w')"
proof -
  note g = assms(1)[unfolded main_given_def]
  let ?addr = "new_inet_address inet_addr 8000 ''127.0.0.1''" and ?n = "atoi (argv ! 1)"
  from new_event_loop_facts[OF k, of epollfd evtfd lid lid tid] g obtain l :: "task event_loop" where
    l: "new_event_loop (k_ctl k lid) False epollfd evtfd False lid tid = Inr l" by blast
  let ?w0 = "put_loop lid l w"
  from toIPport_facts[of ?addr] obtain ip where "toIPport ?addr = Inr ip" by blast
  with g obtain s where s: "new_http_server (Some lid) ptr ?addr ''dummy'' kNoReusePort sockfd 0 ?w0 = Inr s"
    by (simp add: new_http_server_def new_tcp_server_def CheckLoopNotNull_def new_acceptor_def
        createNoneBlockingOrDie_def socket_bindAddress_def Let_def)
  define v where "v = http_setThreadNum ?n (setHttpCallback (Some (test_onRequest localtime clock)) s)"
  have b: "http_built k (test_onRequest localtime clock) tid ?n v"
    unfolding http_built_def
    by (rule exI[of _ lid], rule exI[of _ epollfd], rule exI[of _ evtfd], rule exI[of _ ptr], rule exI[of _ ?addr],
        rule exI[of _ "''dummy''"], rule exI[of _ kNoReusePort], rule exI[of _ sockfd], rule exI[of _ ?w0], rule exI[of _ s])
      (use g l s in \<open>simp add: v_def\<close>)
  from s obtain s0 where "new_tcp_server (Some lid) ptr ?addr ''dummy'' kNoReusePort sockfd 0 ?w0 = Inr s0"
    "srv_loop v = srv_loop s0"
    by (auto simp: new_http_server_def bindR_eq_Inr v_def http_setThreadNum_def server_setThreadNum_def setHttpCallback_def
        server_world.defs)
  then have "srv_loop v = lid" using new_tcp_server_facts(2) by simp
  with g have sp: "spawns_for spawn v" by (simp add: spawns_for_def)
  from fresh_server_starts[OF http_built_facts(1)[OF b] k assms(4) sp, of "\<lambda>_. Inr" m] obtain w' where
    w': "http_start k False (\<lambda>_. Inr) spawn m 0 tid v = Inr w'" by (auto simp: http_start_def)
  have "http_runs k (test_onRequest localtime clock) (at_rest w')"
    unfolding http_runs_def
    by (rule exI[of _ tid], rule exI[of _ ?n], rule exI[of _ v], rule exI[of _ "\<lambda>_. Inr"], rule exI[of _ spawn], rule exI[of _ m],
        rule exI[of _ w']) (use b assms(4) sp w' in simp)
  with w' assms(3) show ?thesis
    by (intro exI[of _ w']) (simp add: test_main_def l s Let_def v_def)
qed



end
