(* ===== verification/Chat_Server.thy ===== *)
theory Chat_Server
  imports Built_Server Conn_Frame
begin

text \<open>
  \<open>ChatServer\<close> (mymuduo/test/muduo_server.cpp): the library's own example of a server, which sends back what it
  receives. It is a second client of the server's contract, with the whole path from the arriving bytes to the
  socket. What it prints is not modelled; \<open>toIPport\<close>, which it calls to print, is.
\<close>

section \<open>The server\<close>

definition chat_onConnection :: "nat \<Rightarrow> nat \<Rightarrow> 'z server_world_scheme \<Rightarrow> 'z server_world_scheme outcome" where
  "chat_onConnection tid c w =
     bindR (toIPport (peerAddr (conns w c))) (\<lambda>peer.
     bindR (toIPport (localAddr (conns w c))) (\<lambda>local.
     if connected c w then Inr w else shutdown tid c w))"

text \<open>The local string \<open>buf\<close> lives at \<open>tmp\<close>.\<close>

definition chat_onMessage ::
  "kernel \<Rightarrow> nat \<Rightarrow> nat \<Rightarrow> nat \<Rightarrow> timestamp \<Rightarrow> 'z server_world_scheme \<Rightarrow> 'z server_world_scheme outcome" where
  "chat_onMessage k tmp tid c time w =
     bindR (retrieveAllString (inputBuffer (conns w c))) (\<lambda>(buf, buffer).
     let w = set_conn c ((conns w c)\<lparr>inputBuffer := buffer\<rparr>) w in
     with_string tmp buf (send_string k tid c tmp) w)"

text \<open>The constructor registers these two callbacks, and no other.\<close>

definition chat_app :: "kernel \<Rightarrow> nat \<Rightarrow> nat \<Rightarrow> 'z server_world_scheme user_code" where
  "chat_app k tmp tid =
     \<lparr>on_connection = chat_onConnection tid, on_message = chat_onMessage k tmp tid,
      on_writeComplete = (\<lambda>c w. Inl BadFunctionCall), on_highWaterMark = (\<lambda>c n w. Inl BadFunctionCall),
      on_close = (\<lambda>c w. Inl BadFunctionCall)\<rparr>"

definition new_chat_server ::
  "nat option \<Rightarrow> nat \<Rightarrow> sockaddr_in \<Rightarrow> string \<Rightarrow> int \<Rightarrow> int \<Rightarrow> world \<Rightarrow> server_world outcome" where
  "new_chat_server loop ptr listenAddr nameArg sockfd rc w =
     bindR (new_tcp_server loop ptr listenAddr nameArg kNoReusePort sockfd rc w) (\<lambda>s.
     Inr (server_setThreadNum 8 (server_setMessageCallback True (server_setConnectionCallback True s))))"

definition chat_start ::
  "kernel \<Rightarrow> (nat \<Rightarrow> spawned) \<Rightarrow> int \<Rightarrow> int \<Rightarrow> nat \<Rightarrow> server_world \<Rightarrow> server_world outcome" where
  "chat_start k spawn numCreated rc tid w = server_start k False (\<lambda>_. Inr) spawn numCreated rc tid w"

text \<open>
  \<open>main\<close> up to \<open>loop.loop()\<close>: the loop at \<open>lid\<close>, with its descriptors; the server on it, its acceptor's channel at
  \<open>ptr\<close> and its socket; and the start.
\<close>

definition chat_main ::
  "kernel \<Rightarrow> (string \<Rightarrow> in_addr) \<Rightarrow> nat \<Rightarrow> int \<Rightarrow> int \<Rightarrow> nat \<Rightarrow> int \<Rightarrow> (nat \<Rightarrow> spawned) \<Rightarrow> int \<Rightarrow> nat \<Rightarrow> world \<Rightarrow>
   server_world outcome" where
  "chat_main k inet_addr lid epollfd evtfd ptr sockfd spawn numCreated tid w =
     bindR (new_event_loop (k_ctl k lid) False epollfd evtfd False lid tid) (\<lambda>loop.
     let w = put_loop lid loop w;
         addr = new_inet_address inet_addr 6666 ''127.0.0.1'' in
     bindR (new_chat_server (Some lid) ptr addr ''ChatServer'' sockfd 0 w) (\<lambda>server.
     chat_start k spawn numCreated 0 tid server))"

section \<open>The callbacks keep the contract\<close>

lemma retrieveAllString_eq:
  assumes "buf_wf b"
  shows "retrieveAllString b = Inr (readable b, retrieveAll b)" "buf_wf (retrieveAll b)" "readable (retrieveAll b) = []"
proof -
  show "retrieveAllString b = Inr (readable b, retrieveAll b)"
    using assms by (simp add: retrieveAllString_def retrieveAsString_def readable_def retrieve_def bindR_def require_def
        buf_wf_def buf_sizes)
  show "buf_wf (retrieveAll b)" "readable (retrieveAll b) = []"
    using assms by (auto simp: retrieveAll_def buf_wf_def readable_def buf_sizes)
qed

lemma chat_connection_call:
  assumes "conn_inv c w"
  shows "own_call_ok tid c w (chat_onConnection tid c w)"
proof -
  have "chat_onConnection tid c w = Inr w"
    using toIPport_facts[of "peerAddr (conns w c)"] toIPport_facts[of "localAddr (conns w c)"]
    by (simp add: chat_onConnection_def connected_def shutdown_def)
  with assms show ?thesis by (auto simp: own_call_ok_def intro: acts_refl)
qed

lemma chat_message_run:
  assumes "buf_wf (inputBuffer (conns w c))"
  shows "chat_onMessage k tmp tid c t w = conn_do k tid c (OpSend tmp (readable (inputBuffer (conns w c))))
    (set_conn c ((conns w c)\<lparr>inputBuffer := retrieveAll (inputBuffer (conns w c))\<rparr>) w)"
  by (simp add: chat_onMessage_def retrieveAllString_eq[OF assms] Let_def)

lemma chat_message_call:
  assumes "in_loop k tid c w" and "conn_inv c w" and "takes_prefix k"
  shows "own_call_ok tid c w (chat_onMessage k tmp tid c t w)"
proof -
  let ?b = "inputBuffer (conns w c)"
  have wf: "buf_wf ?b" using assms(2) by (simp add: conn_inv_def)
  let ?w1 = "set_conn c ((conns w c)\<lparr>inputBuffer := retrieveAll ?b\<rparr>) w" and ?op = "OpSend tmp (readable ?b)"
  have a1: "conn_acts tid c w ?w1" by (rule acts_in[OF acts_refl])
  have i1: "in_loop k tid c ?w1" "conn_inv c ?w1"
    using acts_in_loop[OF a1 assms(1)] assms(2) retrieveAllString_eq(2)[OF wf]
    by (simp_all add: conn_inv_def chan_of_def loop_of_def)
  show ?thesis
  proof (cases "conn_state (conns w c) = kConnected")
    case True
    then have up: "up k tid c (sock_log w) ?w1" using i1 by (simp add: up_def calls_ok_def wrote_only_def)
    from up_string[OF up assms(3)] obtain w' where w': "conn_do k tid c ?op ?w1 = Inr w'" "up k tid c (sock_log w) w'" by blast
    have "conn_acts tid c ?w1 w'"
      using conn_do_acts[OF w'(1) i1(1)] True by (simp add: is_up_def)
    with conn_acts_trans[OF this a1] w' show ?thesis
      by (auto simp: own_call_ok_def chat_message_run[OF wf] up_def)
  next
    case False
    then obtain m where "conn_do k tid c ?op ?w1 = Inr (?w1\<lparr>strings := m\<rparr>)"
      by (auto simp: with_string_def send_string_def)
    with i1(2) acts_strings[OF a1, of m] show ?thesis by (auto simp: own_call_ok_def chat_message_run[OF wf])
  qed
qed

text \<open>What the application knows of its state: it has set no write-complete callback.\<close>

interpretation chat_threads: server_threads "kernel_of K" "chat_app (kernel_of K) tmp" "\<lambda>s. \<not> fst s" for K tmp
proof unfold_locales
  show "own_call_ok tid c w (on_connection (chat_app (kernel_of K) tmp tid) c w)"
    if "conn_inv c w" for tid c and w :: "'a server_world_scheme"
    using chat_connection_call[OF that] by (simp add: chat_app_def)
  show "own_call_ok tid c w (on_message (chat_app (kernel_of K) tmp tid) c t w)"
    if "in_loop (kernel_of K) tid c w" "conn_inv c w" for tid c t and w :: "'a server_world_scheme"
    using chat_message_call[OF that] by (simp add: chat_app_def)
qed (auto simp: app_state_def)


section \<open>Built and started\<close>

lemma new_chat_server_fresh:
  assumes "new_event_loop (k_ctl k lid) False epollfd evtfd False lid tid = Inr (loops w0 lid)"
    and "0 \<le> epollfd" and "0 \<le> evtfd" and "ptr \<noteq> wakeup_ptr" and "sockfd \<noteq> evtfd"
    and "new_chat_server (Some lid) ptr addr nm sockfd rc w0 = Inr w"
  shows "fresh_server k tid 8 w" "\<not> srv_writeCompleteCallback_set w" "srv_loop w = lid"
proof -
  from assms(6) obtain s where s: "new_tcp_server (Some lid) ptr addr nm kNoReusePort sockfd rc w0 = Inr s"
    "w = server_setThreadNum 8 (s\<lparr>srv_connectionCallback_set := True, srv_messageCallback_set := True\<rparr>)"
    by (auto simp: new_chat_server_def bindR_eq_Inr)
  note nf = new_tcp_server_facts[OF s(1)]
  show "\<not> srv_writeCompleteCallback_set w" and sl: "srv_loop w = lid" by (simp_all add: s(2) server_setThreadNum_def nf)
  show "fresh_server k tid 8 w"
    unfolding fresh_server_def sl
  proof (intro conjI)
    show "\<exists>epollfd evtfd base ptr sockfd nm. 0 \<le> epollfd \<and> 0 \<le> evtfd \<and>
        new_event_loop (k_ctl k lid) False epollfd evtfd False lid tid = Inr base \<and> ptr \<noteq> wakeup_ptr \<and> sockfd \<noteq> evtfd \<and>
        loops w lid = set_chan ptr (new_channel lid sockfd) base \<and>
        srv_acceptor w = \<lparr>acc_loop = lid, acc_fd = sockfd, acc_channel = ptr, newConnectionCallback_set = True, listenning = False\<rparr> \<and>
        (\<forall>l p. chan_owner w l p = (if l = lid \<and> p = ptr then AcceptorOwner else if p = wakeup_ptr then WakeupOwner else NoOwner)) \<and>
        srv_pool w = setThreadNum 8 (new_thread_pool lid nm)"
      by (rule exI[of _ epollfd], rule exI[of _ evtfd], rule exI[of _ "loops w0 lid"], rule exI[of _ ptr], rule exI[of _ sockfd],
          rule exI[of _ nm]) (use assms(1-5) in \<open>simp add: s(2) server_setThreadNum_def nf\<close>)
  qed (use nf(11) in \<open>simp_all add: s(2) server_setThreadNum_def nf\<close>)
qed

text \<open>\<open>main\<close> reaches its loop, with eight threads beside it.\<close>

lemma chat_main_facts:
  assumes "main_given lid epollfd evtfd ptr sockfd spawn" and k: "\<And>lid. accepts_legal (k_ctl k lid)"
  shows "\<exists>w'. chat_main k inet_addr lid epollfd evtfd ptr sockfd spawn m tid w = Inr w' \<and>
    reactor_inv {} {} (at_rest w') \<and> \<not> srv_writeCompleteCallback_set w' \<and> quiescent (at_rest w') \<and>
    (\<forall>c. \<not> held (at_rest w') c)"
proof -
  note g = assms(1)[unfolded main_given_def]
  from new_event_loop_facts[OF k, of epollfd evtfd lid lid tid] g obtain l :: "task event_loop" where
    l: "new_event_loop (k_ctl k lid) False epollfd evtfd False lid tid = Inr l" by blast
  let ?w0 = "put_loop lid l w" and ?addr = "new_inet_address inet_addr 6666 ''127.0.0.1''"
  have "new_event_loop (k_ctl k lid) False epollfd evtfd False lid tid = Inr (loops ?w0 lid)" by (simp add: l)
  note made = new_chat_server_fresh[OF this, of ptr sockfd ?addr "''ChatServer''" 0]
  from toIPport_facts[of ?addr] obtain ip where "toIPport ?addr = Inr ip" by blast
  with g obtain s where s: "new_chat_server (Some lid) ptr ?addr ''ChatServer'' sockfd 0 ?w0 = Inr s"
    by (simp add: new_chat_server_def new_tcp_server_def CheckLoopNotNull_def new_acceptor_def
        createNoneBlockingOrDie_def socket_bindAddress_def Let_def)
  note f = made[OF _ _ _ _ s]
  have fresh: "fresh_server k tid 8 s" "\<not> srv_writeCompleteCallback_set s" and sp: "spawns_for spawn s"
    using f g by (simp_all add: spawns_for_def)
  from fresh_server_starts[OF fresh(1) k _ sp, of "\<lambda>_. Inr" m] obtain w' where
    w': "server_start k False (\<lambda>_. Inr) spawn m 0 tid s = Inr w'" by auto
  note inv = fresh_start_inv[OF fresh(1) k _ sp w']
  have "\<not> srv_writeCompleteCallback_set w'" using inv(2) fresh(2) by (simp add: app_state_def)
  with inv(1,3,4) w' show ?thesis
    by (intro exI[of _ w']) (simp add: chat_main_def chat_start_def l s Let_def)
qed

definition chat_runs :: "kernel \<Rightarrow> server_world reactor \<Rightarrow> bool" where
  "chat_runs k st \<longleftrightarrow>
     (\<exists>inet_addr lid epollfd evtfd ptr sockfd spawn m tid w w'. main_given lid epollfd evtfd ptr sockfd spawn \<and>
        chat_main k inet_addr lid epollfd evtfd ptr sockfd spawn m tid w = Inr w' \<and> st = at_rest w')"

lemma chat_runs_inv:
  assumes "chat_runs k st" and "\<And>lid. accepts_legal (k_ctl k lid)"
  shows "reactor_inv {} {} st" "\<not> srv_writeCompleteCallback_set (srv st)" "quiescent st" "\<not> held st c"
  using assms(1) chat_main_facts[OF _ assms(2)] unfolding chat_runs_def by (metis Inr_inject at_rest_simps(1))+

lemma demo_chat_runs: "\<exists>st. chat_runs demo_kernel st \<and> plausible (idle_turn (srv_loop (srv st))) st"
proof -
  have given: "main_given 1 3 4 5 6 demo_spawn" by (simp add: main_given_def demo_spawn_def wakeup_ptr_def inj_def)
  have k: "accepts_legal (k_ctl demo_kernel lid)" for lid by (simp add: demo_kernel_def accepts_legal_def)
  from chat_main_facts[OF given k, of "\<lambda>_. (127, 0, 0, 1)" 0 7 demo_world] obtain w' where
    w': "chat_main demo_kernel (\<lambda>_. (127, 0, 0, 1)) 1 3 4 5 6 demo_spawn 0 7 demo_world = Inr w'" by blast
  have "chat_runs demo_kernel (at_rest w')"
    unfolding chat_runs_def
    by (rule exI[of _ "\<lambda>_. (127, 0, 0, 1)"], rule exI[of _ 1], rule exI[of _ 3], rule exI[of _ 4], rule exI[of _ 5], rule exI[of _ 6],
        rule exI[of _ demo_spawn], rule exI[of _ 0], rule exI[of _ 7], rule exI[of _ demo_world], rule exI[of _ w'])
      (use given w' in simp)
  with idle_plausible show ?thesis by (intro exI[of _ "at_rest w'"]) simp
qed


section \<open>The echo\<close>

text \<open>The bytes that were read from a descriptor.\<close>

fun got :: "int \<Rightarrow> sock_event list \<Rightarrow> string" where
  "got fd [] = []"
| "got fd (ReadData f d # es) = (if f = fd then d @ got fd es else got fd es)"
| "got fd (_ # es) = got fd es"

lemma got_append [simp]: "got fd (es @ es') = got fd es @ got fd es'"
  by (induction fd es rule: got.induct) auto

lemma got_writes: "wrote_only fd es \<Longrightarrow> got fd' es = []"
  by (induction es) (auto simp: wrote_only_def)

text \<open>What the loop of a connection calls: the channel's read callback, and its write callback.\<close>

datatype chat_event = Arrival timestamp | Writable

abbreviation chat_user :: "kernel \<Rightarrow> nat \<Rightarrow> nat \<Rightarrow> 'z server_world_scheme user_code" where
  "chat_user k tmp tid \<equiv> server_user (chat_app k tmp tid) tid"

fun chat_event_do ::
  "kernel \<Rightarrow> nat \<Rightarrow> nat \<Rightarrow> nat \<Rightarrow> chat_event \<Rightarrow> 'z server_world_scheme \<Rightarrow> 'z server_world_scheme outcome" where
  "chat_event_do k tmp tid c (Arrival t) w = handleRead k (chat_user k tmp tid) tid c t w"
| "chat_event_do k tmp tid c Writable w = handleWrite k tid c w"

text \<open>A connection of the chat server between two events, where everything that came in has been taken on.\<close>

definition echoing :: "kernel \<Rightarrow> nat \<Rightarrow> nat \<Rightarrow> int \<Rightarrow> string \<Rightarrow> sock_event list \<Rightarrow> 'z server_world_scheme \<Rightarrow> bool" where
  "echoing k tid c fd before log0 w \<longleftrightarrow>
     in_loop k tid c w \<and> conn_inv c w \<and> conn_state (conns w c) = kConnected \<and> messageCallback_set (conns w c) \<and>
     conn_fd (conns w c) = fd \<and> readable (inputBuffer (conns w c)) = [] \<and>
     (\<exists>evs. sock_log w = log0 @ evs \<and> sent fd evs @ readable (outputBuffer (conns w c)) = before @ got fd evs \<and>
       (\<forall>e \<in> set evs. \<exists>d. e = Wrote fd d \<or> e = ReadData fd d))"

lemma echoing_up: "echoing k tid c fd before log0 w \<Longrightarrow> up k tid c (sock_log w) w"
  by (auto simp: echoing_def up_def calls_ok_def wrote_only_def)

text \<open>An operation that only writes, and takes on what was read.\<close>

lemma echoing_step:
  assumes "echoing k tid c fd before log0 w" and "up k tid c (sock_log w @ reads) w'" and "conn_state (conns w' c) = kConnected"
    and "conn_fd (conns w' c) = fd" and "messageCallback_set (conns w' c)" and "readable (inputBuffer (conns w' c)) = []"
    and "out_stream c w' = out_stream c w @ got fd reads" and "\<forall>e \<in> set reads. \<exists>d. e = ReadData fd d"
  shows "echoing k tid c fd before log0 w'"
proof -
  have fd: "conn_fd (conns w c) = fd" using assms(1) by (simp add: echoing_def)
  from assms(1) obtain evs where evs: "sock_log w = log0 @ evs"
    "sent fd evs @ readable (outputBuffer (conns w c)) = before @ got fd evs"
    "\<forall>e \<in> set evs. \<exists>d. e = Wrote fd d \<or> e = ReadData fd d" by (auto simp: echoing_def)
  from assms(2-4) obtain ws where ws: "wrote_only fd ws" "sock_log w' = (sock_log w @ reads) @ ws"
    by (auto simp: up_def calls_ok_def)
  have none: "sent fd reads = []" using assms(8) by (induction reads) auto
  have "sent fd (evs @ reads @ ws) @ readable (outputBuffer (conns w' c)) = before @ got fd (evs @ reads @ ws)"
    using assms(7) evs(2) none by (simp add: out_stream_def fd assms(4) ws evs(1) got_writes[OF ws(1)])
  moreover have "\<forall>e \<in> set (evs @ reads @ ws). \<exists>d. e = Wrote fd d \<or> e = ReadData fd d"
    using evs(3) assms(8) ws(1) by (auto simp: wrote_only_def)
  ultimately show ?thesis
    unfolding echoing_def using assms(2-6)
    by (intro conjI exI[of _ "evs @ reads @ ws"]) (simp_all add: up_def ws evs(1))
qed

lemma echo_arrival:
  fixes w :: "'z server_world_scheme"
  assumes "echoing k tid c fd before log0 w" and "takes_prefix k"
    and "k_read k (sock_log w) fd = Inr d" and "d \<noteq> []" and "length d < 2 ^ 64"
  shows "\<exists>w'. handleRead k (chat_user k tmp tid) tid c t w = Inr w' \<and> echoing k tid c fd before log0 w'"
proof -
  have e: "in_loop k tid c w" "conn_inv c w" "conn_state (conns w c) = kConnected" "messageCallback_set (conns w c)"
    "conn_fd (conns w c) = fd" "readable (inputBuffer (conns w c)) = []"
    using assms(1) by (simp_all add: echoing_def)
  from handleRead_arrival[OF e(1-4) _ assms(4), of "chat_user k tmp tid" t] assms(3) e(5,6) obtain w1 b where
    w1: "handleRead k (chat_user k tmp tid) tid c t w = chat_onMessage k tmp tid c t w1"
      "up k tid c (sock_log w @ [ReadData fd d]) w1" "conns w1 = (conns w)(c := (conns w c)\<lparr>inputBuffer := b\<rparr>)"
      "buf_wf b" "readable b = d" "out_stream c w1 = out_stream c w"
    by (auto simp: server_user_def chat_app_def)
  have in1: "inputBuffer (conns w1 c) = b" by (simp add: w1(3))
  let ?w2 = "set_conn c ((conns w1 c)\<lparr>inputBuffer := retrieveAll b\<rparr>) w1" and ?op = "OpSend tmp d"
  have run: "chat_onMessage k tmp tid c t w1 = conn_do k tid c ?op ?w2"
    using chat_message_run[of w1 c k tmp tid t] w1(4,5) by (simp add: in1)
  have up2: "up k tid c (sock_log w @ [ReadData fd d]) ?w2"
    by (rule up_set_in[OF w1(2)]) (rule retrieveAllString_eq(2)[OF w1(4)])
  have c2: "conn_state (conns ?w2 c) = kConnected" "conn_fd (conns ?w2 c) = fd" "messageCallback_set (conns ?w2 c)"
    "readable (inputBuffer (conns ?w2 c)) = []" "out_stream c ?w2 = out_stream c w"
    using e retrieveAllString_eq(3)[OF w1(4)] w1(6) by (simp_all add: w1(3) out_stream_def)
  from up_op[OF up2 assms(2), of ?op] assms(5) c2(1,2,5) obtain w' where
    w': "conn_do k tid c ?op ?w2 = Inr w'" "up k tid c (sock_log w @ [ReadData fd d]) w'" "conn_fd (conns w' c) = fd"
      "conn_state (conns w' c) = kConnected" "out_stream c w' = out_stream c w @ d" by auto
  have "conn_frame ?w2 w'" "same_input ?w2 w'" using conn_do_keeps[OF w'(1)] by simp_all
  then have "messageCallback_set (conns w' c)" "readable (inputBuffer (conns w' c)) = []"
    using c2(3,4) by (simp_all add: conn_frame_def same_input_def)
  from echoing_step[OF assms(1) w'(2,4,3) this] w'(1,5) w1(1) run show ?thesis by auto
qed

lemma echo_writable:
  assumes "echoing k tid c fd before log0 w" and "takes_prefix k"
  shows "\<exists>w'. handleWrite k tid c w = Inr w' \<and> echoing k tid c fd before log0 w'"
proof -
  have e: "conn_state (conns w c) = kConnected" "messageCallback_set (conns w c)" "conn_fd (conns w c) = fd"
    "readable (inputBuffer (conns w c)) = []"
    using assms(1) by (simp_all add: echoing_def)
  from up_writable[OF echoing_up[OF assms(1)] assms(2)] e obtain w' where
    w': "handleWrite k tid c w = Inr w'" "up k tid c (sock_log w @ []) w'" "conn_state (conns w' c) = kConnected"
      "conn_fd (conns w' c) = fd" "out_stream c w' = out_stream c w" by auto
  have "messageCallback_set (conns w' c)" "readable (inputBuffer (conns w' c)) = []"
    using handleWrite_frame[OF w'(1)] handleWrite_input[OF w'(1)] e(2,4) by (simp_all add: conn_frame_def same_input_def)
  from echoing_step[OF assms(1) w'(2-4) this] w'(1,5) show ?thesis by auto
qed

lemma echo_run:
  fixes w :: "'z server_world_scheme"
  assumes "echoing k tid c fd before log0 w" and "takes_prefix k"
    and "\<And>log. \<exists>d. k_read k log fd = Inr d \<and> d \<noteq> [] \<and> length d < 2 ^ 64"
  shows "\<exists>w'. foldR (chat_event_do k tmp tid c) evs w = Inr w' \<and> echoing k tid c fd before log0 w'"
  using assms(1)
proof (induction evs arbitrary: w)
  case (Cons ev evs)
  have "\<exists>w'. chat_event_do k tmp tid c ev w = Inr w' \<and> echoing k tid c fd before log0 w'"
  proof (cases ev)
    case (Arrival t)
    from assms(3) obtain d where "k_read k (sock_log w) fd = Inr d" "d \<noteq> []" "length d < 2 ^ 64" by blast
    from echo_arrival[OF Cons.prems assms(2) this] Arrival show ?thesis by simp
  next
    case Writable
    with echo_writable[OF Cons.prems assms(2)] show ?thesis by simp
  qed
  with Cons.IH show ?case by auto
qed simp


section \<open>Properties\<close>

text \<open>C9: the chat server sends back exactly what it receives, in order. Take a connection that is up, with nothing
  left in its input buffer, and any sequence of readability and writability events, each read giving some bytes
  and each write taking any prefix. No callback faults, every socket call is a read or a write of this descriptor,
  and the bytes written, followed by those that wait in the output buffer, are those that waited before followed by
  all the bytes read, in the order of their arrival; the input buffer is empty again.\<close>

theorem chat_echoes:
  fixes w :: "'z server_world_scheme"
  assumes "in_loop k tid c w" and "conn_inv c w" and "conn_state (conns w c) = kConnected"
    and "messageCallback_set (conns w c)" and "readable (inputBuffer (conns w c)) = []" and "takes_prefix k"
    and "\<And>log. \<exists>d. k_read k log (conn_fd (conns w c)) = Inr d \<and> d \<noteq> [] \<and> length d < 2 ^ 64"
  shows "\<exists>w' es. foldR (chat_event_do k tmp tid c) evs w = Inr w' \<and> sock_log w' = sock_log w @ es \<and>
    sent (conn_fd (conns w c)) es @ readable (outputBuffer (conns w' c)) =
      readable (outputBuffer (conns w c)) @ got (conn_fd (conns w c)) es \<and>
    (\<forall>e \<in> set es. \<exists>d. e = Wrote (conn_fd (conns w c)) d \<or> e = ReadData (conn_fd (conns w c)) d) \<and>
    readable (inputBuffer (conns w' c)) = [] \<and> conn_state (conns w' c) = kConnected"
proof -
  have "echoing k tid c (conn_fd (conns w c)) (readable (outputBuffer (conns w c))) (sock_log w) w"
    using assms(1-5) by (simp add: echoing_def)
  from echo_run[OF this assms(6,7), of tmp evs] show ?thesis by (fastforce simp: echoing_def)
qed

definition chatting_kernel :: kernel where
  "chatting_kernel = demo_kernel\<lparr>k_read := \<lambda>_ _. Inr ''hello''\<rparr>"

definition demo_chat :: server_world where
  "demo_chat = demo_server\<lparr>loops := \<lambda>_. demo_loop\<rparr>"

lemma demo_chat_facts:
  "in_loop chatting_kernel 7 0 demo_chat" "conn_inv 0 demo_chat" "conn_state (conns demo_chat 0) = kConnected"
  "messageCallback_set (conns demo_chat 0)" "readable (inputBuffer (conns demo_chat 0)) = []"
  "takes_prefix chatting_kernel" "readable (outputBuffer (conns demo_chat 0)) = []" "conn_fd (conns demo_chat 0) = 5"
  "sock_log demo_chat = []"
proof -
  have d: "conn_loop demo_conn = 1" "conn_channel demo_conn = 5" "conn_state demo_conn = kConnected"
    "messageCallback_set demo_conn" "conn_fd demo_conn = 5" "inputBuffer demo_conn = new_buffer 16"
    "outputBuffer demo_conn = new_buffer 16" by (simp_all add: demo_conn_def)
  have same: "conns demo_chat 0 = demo_conn" "loops demo_chat = (\<lambda>_. demo_loop)" "sock_log demo_chat = []"
    by (simp_all add: demo_chat_def demo_server_def)
  have l: "loop_of 0 demo_chat = demo_loop" "chan_of 0 demo_chat = new_channel 1 5"
    by (simp_all add: loop_of_def chan_of_def same) (simp add: d demo_loop_def)
  have nw: "\<not> isWriting (chan_of 0 demo_chat)" by (simp add: l isWriting_def new_channel_def has_bits_def)
  show "in_loop chatting_kernel 7 0 demo_chat"
    unfolding in_loop_def l same d using demo_loop_ok
    by (auto simp: chatting_kernel_def demo_kernel_def accepts_legal_def) (simp add: demo_loop_def)
  show "conn_inv 0 demo_chat" using nw by (simp add: conn_inv_def same d)
  show "takes_prefix chatting_kernel" unfolding takes_prefix_def chatting_kernel_def demo_kernel_def
    by (auto intro!: exI[of _ "min 2 (length _)"])
qed (simp_all add: demo_chat_def demo_server_def demo_conn_def)

theorem chat_echoes_witness:
  "\<exists>w' es. foldR (chat_event_do chatting_kernel 9 7 0) [Arrival (Timestamp 3), Writable, Arrival (Timestamp 4), Writable] demo_chat = Inr w' \<and>
     sent 5 es @ readable (outputBuffer (conns w' 0)) = got 5 es"
proof -
  have rd: "\<exists>d. k_read chatting_kernel log (conn_fd (conns demo_chat 0)) = Inr d \<and> d \<noteq> [] \<and> length d < 2 ^ 64" for log
    by (simp add: chatting_kernel_def)
  from chat_echoes[OF demo_chat_facts(1-6) rd, of 9 "[Arrival (Timestamp 3), Writable, Arrival (Timestamp 4), Writable]"]
  show ?thesis unfolding demo_chat_facts(7,8) by auto
qed

text \<open>The threads of the chat server do not fault. From \<open>main\<close> on, whatever the kernel answers (writes that take a
  prefix) and in any interleaving of its nine loops, the next turn of a loop succeeds, except for the call
  of the empty high-water callback when 64 megabytes wait in an output buffer.\<close>

theorem chat_threads_safe:
  assumes "chat_runs k st0" and "\<And>lid. accepts_legal (k_ctl k lid)" and "takes_prefix k"
    and "reaches k (chat_app k tmp) st0 st" and "plausible tn st"
  shows "loop_turn k (chat_app k tmp) tn st = Inl e \<longleftrightarrow> empty_high_water st (turn_loop tn) \<and> e = BadFunctionCall"
proof -
  from kernel_cases[OF assms(2,3)] obtain K where K: "k = kernel_of K" by blast
  have s0: "reactor_inv {} {} st0" "\<not> fst (app_state (srv st0))"
    using chat_runs_inv(1,2)[OF assms(1,2)] by (simp_all add: app_state_def)
  from chat_threads.reaches_ok[OF assms(4)[unfolded K] s0]
  have i: "reactor_inv {} {} st" "app_state (srv st) = app_state (srv st0)" by simp_all
  show ?thesis unfolding K by (rule chat_threads.turn_fault_iff[OF i(1) _ assms(5)]) (simp add: i(2) s0(2))
qed

theorem chat_threads_safe_witness:
  "\<exists>st tn. chat_runs demo_kernel st \<and> plausible tn st \<and> (\<forall>e. loop_turn demo_kernel (chat_app demo_kernel 9) tn st \<noteq> Inl e)"
proof -
  from demo_chat_runs obtain st where st: "chat_runs demo_kernel st" "plausible (idle_turn (srv_loop (srv st))) st" by blast
  have "\<not> empty_high_water st lid" for lid using st(1) by (auto simp: chat_runs_def empty_high_water_def)
  moreover have "accepts_legal (k_ctl demo_kernel lid)" for lid by (simp add: demo_kernel_def accepts_legal_def)
  ultimately show ?thesis
    using chat_threads_safe[OF st(1) _ demo_world_facts(4) reaches_refl st(2)] st by blast
qed



end
