(* ===== verification/Accept_Example.thy ===== *)
theory Accept_Example
  imports Reactor_Turn
begin

text \<open>
  The program mymuduo/test/test01.cc: an acceptor on a loop of its own, without a server. It writes a greeting to
  each connection and closes it. What it prints is left out.
\<close>

section \<open>The program\<close>

record accept_world = world +
  the_acceptor :: acceptor

definition greeting :: string where
  "greeting = ''How are you?'' @ [CHR 0x0A]"

text \<open>The callback, which asks for the text of the peer's address and does not look at what \<open>write\<close> returns.\<close>

definition greet :: "kernel \<Rightarrow> int \<Rightarrow> sockaddr_in \<Rightarrow> 'z world_scheme \<Rightarrow> 'z world_scheme outcome" where
  "greet k sockfd peer w =
     bindR (toIPport peer) (\<lambda>_.
     let (_, w) = sys_write k sockfd greeting w
     in Inr (log_sock (SockClose sockfd) w))"

text \<open>The handlers of the loop's two channels, and the run of the loop; the program queues no functor.\<close>

definition accept_handlers ::
  "kernel \<Rightarrow> ('z accept_world_scheme \<Rightarrow> int \<times> sockaddr_in) \<Rightarrow> nat \<Rightarrow> nat \<Rightarrow> nat \<Rightarrow> 'z accept_world_scheme handlers" where
  "accept_handlers k answer tid lid ptr =
     \<lparr>readCallback = Some (\<lambda>t w.
        if ptr = acc_channel (the_acceptor w)
        then acceptor_handleRead (if newConnectionCallback_set (the_acceptor w) then Some (greet k) else None)
               (the_acceptor w) (answer w) tid w
        else if ptr = wakeup_ptr then Inr (put_loop lid (loop_handleRead (loops w lid)) w) else Inr w),
      writeCallback = None, closeCallback = None, errorCallback = None\<rparr>"

definition accept_run ::
  "kernel \<Rightarrow> ('z accept_world_scheme \<Rightarrow> int \<times> sockaddr_in) \<Rightarrow> nat \<Rightarrow> nat \<Rightarrow>
   ((int + (32 word \<times> int) list) \<times> timestamp) list \<Rightarrow> 'z accept_world_scheme \<Rightarrow> 'z accept_world_scheme outcome" where
  "accept_run k answer tid lid =
     loop_run (get_loop lid) (put_loop lid) (\<lambda>_ _. Inl OutOfBounds) (\<lambda>w obj. True) (accept_handlers k answer tid lid)"

text \<open>\<open>main\<close> up to \<open>loop.loop()\<close>: \<open>rcb\<close> and \<open>rcl\<close> are what \<open>bind\<close> and \<open>listen\<close> answer, \<open>ptr\<close> is the acceptor's channel.\<close>

definition test01_main ::
  "kernel \<Rightarrow> (string \<Rightarrow> in_addr) \<Rightarrow> nat \<Rightarrow> int \<Rightarrow> int \<Rightarrow> nat \<Rightarrow> int \<Rightarrow> int \<Rightarrow> int \<Rightarrow> nat \<Rightarrow> world \<Rightarrow> accept_world outcome" where
  "test01_main k inet_addr lid epollfd evtfd ptr sockfd rcb rcl tid w =
     (let listenAddr = new_inet_address inet_addr 9981 ''127.0.0.1'' in
      bindR (new_event_loop (k_ctl k lid) False epollfd evtfd False lid tid) (\<lambda>loop.
      bindR (new_acceptor lid ptr listenAddr False sockfd rcb (put_loop lid loop w)) (\<lambda>(acceptor, w).
      bindR (acceptor_listen k rcl tid (acceptor\<lparr>newConnectionCallback_set := True\<rparr>) w) (\<lambda>(acceptor, w).
      Inr (world.extend w (accept_world.fields acceptor))))))"

section \<open>Its loop\<close>

text \<open>What one connection leaves in the log: the accept, the outcome of the write, the close.\<close>

definition conversation :: "int \<Rightarrow> int \<times> (int + nat) \<Rightarrow> sock_event list" where
  "conversation lfd c = (case c of
     (fd, Inr n) \<Rightarrow> [SockAccept lfd fd, Wrote fd (take n greeting), SockClose fd]
   | (fd, Inl e) \<Rightarrow> [SockAccept lfd fd, WriteFailed fd e, SockClose fd])"

definition accepting :: "nat \<Rightarrow> nat \<Rightarrow> int \<Rightarrow> sock_event list \<Rightarrow> 'z accept_world_scheme \<Rightarrow> bool" where
  "accepting tid lid lfd log w \<longleftrightarrow>
     (let l = loops w lid; a = the_acceptor w in
      threadId l = tid \<and> pendingFunctors l = [] \<and> kInitEventListSize \<le> event_list_size l \<and>
      acc_loop a = lid \<and> acc_fd a = lfd \<and> newConnectionCallback_set a \<and>
      (\<exists>cs. sock_log w = log @ concat (map (conversation lfd) cs)))"

lemma greet_runs:
  "\<exists>r. greet k fd peer (log_sock (SockAccept lfd fd) w) =
     Inr (w\<lparr>sock_log := sock_log w @ conversation lfd (fd, r)\<rparr>)"
proof -
  obtain s where s: "toIPport peer = Inr s" using toIPport_facts[of peer] by auto
  let ?w = "log_sock (SockAccept lfd fd) w"
  show ?thesis
  proof (cases "k_write k (sock_log ?w) fd greeting")
    case (Inl e)
    then show ?thesis by (intro exI[of _ "Inl e"]) (simp add: greet_def s sys_write_def conversation_def log_sock_def)
  next
    case (Inr n)
    then show ?thesis by (intro exI[of _ "Inr n"]) (simp add: greet_def s sys_write_def conversation_def log_sock_def)
  qed
qed

lemma accepting_step:
  assumes "accepting tid lid lfd log w" and "\<forall>w. 0 \<le> fst (answer w)"
  shows "\<exists>w'. handleEvent (\<lambda>obj. True) (accept_handlers k answer tid lid ptr) ch now w = Inr w' \<and> accepting tid lid lfd log w'"
proof (rule handleEvent_total[where P = "accepting tid lid lfd log" and Q = "accepting tid lid lfd log"])
  fix f and w :: "'a accept_world_scheme"
  assume f: "readCallback (accept_handlers k answer tid lid ptr) = Some f" and w: "accepting tid lid lfd log w"
  obtain fd peer where a: "answer w = (fd, peer)" by (cases "answer w")
  with assms(2) have fd: "0 \<le> fd" by (metis fst_conv)
  from greet_runs[of k fd peer lfd w] obtain r where
    r: "greet k fd peer (log_sock (SockAccept lfd fd) w) = Inr (w\<lparr>sock_log := sock_log w @ conversation lfd (fd, r)\<rparr>)" by blast
  from w obtain cs where cs: "sock_log w = log @ concat (map (conversation lfd) cs)" by (auto simp: accepting_def Let_def)
  have "\<exists>ds. log @ concat (map (conversation lfd) cs) @ conversation lfd (fd, r) = log @ concat (map (conversation lfd) ds)"
    by (rule exI[of _ "cs @ [(fd, r)]"]) simp
  with w cs f r fd show "\<exists>w'. f now w = Inr w' \<and> accepting tid lid lfd log w'"
    by (auto simp: accept_handlers_def accepting_def Let_def acceptor_handleRead_def assertInLoopThread_def
        isInLoopThread_def socket_accept_def a loop_handleRead_def put_loop_def)
qed (use assms(1) in \<open>simp_all add: accept_handlers_def\<close>)


lemma poll_size: "poller_poll ep p = Inr (active, p') \<Longrightarrow> event_list_size p \<le> event_list_size p'"
  by (auto simp: fillActiveChannels_frame poller_poll_def bindR_eq_Inr case_prod_unfold Let_def split: sum.splits if_splits)

text \<open>The kernel is asked for at most as many events as the vector has room for; 16 always fit.\<close>

definition few_events :: "int + (32 word \<times> int) list \<Rightarrow> bool" where
  "few_events ep \<longleftrightarrow> (case ep of Inl e \<Rightarrow> True | Inr es \<Rightarrow> length es \<le> kInitEventListSize)"

lemma accepting_iteration:
  assumes "accepting tid lid lfd log w" and "\<forall>w. 0 \<le> fst (answer w)" and "few_events ep"
  shows "\<exists>w'. loop_iteration (get_loop lid) (put_loop lid) (\<lambda>_ _. Inl OutOfBounds) (\<lambda>w obj. True)
    (accept_handlers k answer tid lid) ep now w = Inr w' \<and> accepting tid lid lfd log w'"
proof -
  have "fits ep (loops w lid)"
    using assms(1,3) by (auto simp: fits_def few_events_def accepting_def Let_def split: sum.splits)
  from poll_step[OF this] obtain active l' where
    p: "poller_poll ep (loops w lid) = Inr (active, l')" "poller.more l' = poller.more (loops w lid)" by blast
  have "accepting tid lid lfd log (put_loop lid l' w)"
    using assms(1) poll_size[OF p(1)] same_more[OF p(2)]
    by (auto simp: accepting_def Let_def) (simp add: put_loop_def)+
  from foldR_total[where P = "accepting tid lid lfd log" and xs = active and
      f = "dispatch (get_loop lid) (\<lambda>w obj. True) (accept_handlers k answer tid lid) now", OF this] obtain w1 where
    w1: "foldR (dispatch (get_loop lid) (\<lambda>w obj. True) (accept_handlers k answer tid lid) now) active (put_loop lid l' w) = Inr w1"
    "accepting tid lid lfd log w1" unfolding dispatch_def using accepting_step[OF _ assms(2)] by blast
  have "pendingFunctors (get_loop lid w1) = []" using w1(2) by (simp add: accepting_def Let_def get_loop_def)
  note d = in_world.doPendingFunctors_empty[OF this]
  have "accepting tid lid lfd log (put_loop lid (set_calling False (loops w1 lid)) w1)"
    using w1(2) by (auto simp: accepting_def Let_def set_calling_def) (simp add: put_loop_def)+
  with p(1) w1(1) d show ?thesis by (simp add: loop_iteration_def get_loop_def)
qed

lemma accepting_flags:
  "accepting tid lid lfd log w \<Longrightarrow> accepting tid lid lfd log (put_loop lid ((loops w lid)\<lparr>looping := b, quit_flag := q\<rparr>) w)"
  "accepting tid lid lfd log w \<Longrightarrow> accepting tid lid lfd log (put_loop lid ((loops w lid)\<lparr>looping := b\<rparr>) w)"
  by (auto simp: accepting_def Let_def) (simp_all add: put_loop_def)

lemma accepting_while:
  assumes "accepting tid lid lfd log w" and "\<forall>w. 0 \<le> fst (answer w)" and "\<forall>e \<in> set eps. few_events (fst e)"
  shows "\<exists>w'. loop_while (get_loop lid) (put_loop lid) (\<lambda>_ _. Inl OutOfBounds) (\<lambda>w obj. True)
    (accept_handlers k answer tid lid) eps w = Inr w' \<and> accepting tid lid lfd log w'"
  using assms(1,3)
proof (induction eps arbitrary: w)
  case Nil
  then show ?case using accepting_flags(2)[OF Nil(1), of False] by (auto simp: get_loop_def)
next
  case (Cons e eps)
  obtain ep now where e: "e = (ep, now)" by (cases e)
  show ?case
  proof (cases "quit_flag (get_loop lid w)")
    case True
    then show ?thesis using accepting_flags(2)[OF Cons.prems(1), of False] by (auto simp: e get_loop_def)
  next
    case False
    from accepting_iteration[OF Cons.prems(1) assms(2), of ep k now] Cons.prems(2) e obtain w1 where
      "loop_iteration (get_loop lid) (put_loop lid) (\<lambda>_ _. Inl OutOfBounds) (\<lambda>w obj. True)
        (accept_handlers k answer tid lid) ep now w = Inr w1" "accepting tid lid lfd log w1" by auto
    with Cons.IH[of w1] Cons.prems(2) False show ?thesis by (simp add: e)
  qed
qed

section \<open>From main\<close>

lemma update_room: "channel_update k tid ptr l = Inr l' \<Longrightarrow> event_list_size l' = event_list_size l"
  for l :: "('f, 'z) event_loop_scheme"
  by (auto simp: channel_update_def loop_updateChannel_def poller_updateChannel_def poller_update_def bindR_eq_Inr Let_def
      set_chan_def set_index_def split: if_splits)

lemma new_loop_room: "new_event_loop k use_poll epollfd evtfd b this tid = Inr l \<Longrightarrow> event_list_size l = kInitEventListSize"
  for l :: "'f event_loop"
  by (auto simp: new_event_loop_def newDefaultPoller_def new_poller_def bindR_eq_Inr enableReading_def set_events_def
      set_chan_def split: option.splits if_splits dest!: update_room)

text \<open>A kernel that has given descriptors to \<open>epoll_create1\<close>, \<open>eventfd\<close> and \<open>socket\<close>, and binds and listens: \<open>main\<close> reaches its
  loop, with the listening socket watched for reading.\<close>

lemma test01_main_facts:
  assumes k: "accepts_legal (k_ctl k lid)" and fds: "0 \<le> epollfd" "0 \<le> evtfd" "0 \<le> sockfd" "sockfd \<noteq> evtfd"
    and ptr: "ptr \<noteq> wakeup_ptr"
  shows "\<exists>w0. test01_main k inet_addr lid epollfd evtfd ptr sockfd 0 0 tid w = Inr w0 \<and> accepting tid lid sockfd (sock_log w0) w0 \<and>
    interest (ctl_log (loops w0 lid)) sockfd = Some kReadEvent \<and> acc_channel (the_acceptor w0) = ptr"
proof -
  from new_event_loop_facts[OF k fds(1,2), of lid tid] obtain l :: "task event_loop" where
    l: "new_event_loop (k_ctl k lid) False epollfd evtfd False lid tid = Inr l" "loop_ok l" "pendingFunctors l = []"
      "threadId l = tid" "loop_id l = lid" "channels l = [evtfd \<mapsto> wakeup_ptr]" "owns {wakeup_ptr} l" by blast
  have "chan_fd (chans l wakeup_ptr) = evtfd"
    using l(2,6) unfolding loop_ok_def poller_inv_def index_ok_def by (metis fun_upd_same)
  then have free: "sockfd \<notin> (\<lambda>q. chan_fd (chans l q)) ` {wakeup_ptr}" using fds(4) by simp
  let ?l = "set_chan ptr (new_channel lid sockfd) l"
  have ok: "loop_ok ?l" "owns {ptr, wakeup_ptr} ?l" using add_channel[OF l(2,7) _ free l(5)] ptr by simp_all
  have step: "enableReading (k_ctl k lid) tid ptr ?l = Inr (updated ptr kReadEvent ?l)"
    using channel_update_step(1)[OF ok _ k, of ptr tid kReadEvent] l(4)
    by (simp add: enableReading_def set_chan_def new_channel_def)
  have size: "event_list_size (updated ptr kReadEvent ?l) = kInitEventListSize"
    using update_room[OF step[unfolded enableReading_def]] new_loop_room[OF l(1)] by (simp add: set_events_def)
  have watch: "interest (ctl_log (updated ptr kReadEvent ?l)) sockfd = Some kReadEvent"
    using updated_watch(1)[OF channel_update_step(2)[OF ok _ k, of ptr tid kReadEvent]] l(4)
    by (simp add: set_chan_def new_channel_def kReadEvent_def kNoneEvent_def event_bits)
  let ?a = "\<lparr>acc_loop = lid, acc_fd = sockfd, acc_channel = ptr, newConnectionCallback_set = True, listenning = True\<rparr>"
  let ?log = "sock_log w @ [SetSockOpt sockfd ''SO_KEEPALIVE'' True, SetSockOpt sockfd ''SO_REUSEADDR'' True,
    SockBind sockfd (new_inet_address inet_addr 9981 ''127.0.0.1''), SockListen sockfd]"
  let ?w0 = "world.extend (put_loop lid (updated ptr kReadEvent ?l) (w\<lparr>sock_log := ?log\<rparr>)) (accept_world.fields ?a)"
  have tid: "threadId ?l = tid" by (simp add: l(4))
  have "test01_main k inet_addr lid epollfd evtfd ptr sockfd 0 0 tid w = Inr ?w0"
    using fds(3) tid step
    by (simp add: test01_main_def Let_def l(1) new_acceptor_def createNoneBlockingOrDie_def socket_bindAddress_def
        acceptor_listen_def assertInLoopThread_def isInLoopThread_def socket_listen_def on_loop_def log_sock_def put_loop_def
        socket_setKeepAlive_def socket_setReuseAddr_def)
  moreover have w0: "loops ?w0 lid = updated ptr kReadEvent ?l" "the_acceptor ?w0 = ?a"
    by (simp_all add: world.defs accept_world.defs put_loop_def)
  moreover have "accepting tid lid sockfd (sock_log ?w0) ?w0"
    unfolding accepting_def Let_def w0 using l(3) tid size
    by (simp add: same_more[OF updated_more] updated_fields exI[of _ "[]"])
  ultimately show ?thesis using watch by (intro exI[of _ ?w0]) simp
qed


text \<open>The acceptor alone, from \<open>main\<close> on. When the descriptors could be made, \<open>main\<close> reaches its loop with the
  listening socket watched for reading, and the loop runs without a fault on any answers of \<open>epoll_wait\<close> that fit its
  vector, any connections that \<open>accept\<close> gives, and any outcome of \<open>write\<close>: what it does to the sockets is one
  conversation after the other, and in each the accepted descriptor is written to once and closed once.\<close>

theorem test01_conversations:
  assumes "accepts_legal (k_ctl k lid)" and "0 \<le> epollfd" "0 \<le> evtfd" "0 \<le> sockfd" "sockfd \<noteq> evtfd" "ptr \<noteq> wakeup_ptr"
    and answers: "\<forall>w. 0 \<le> fst (answer w)" "\<forall>e \<in> set eps. few_events (fst e)"
  shows "\<exists>w0 w' cs. test01_main k inet_addr lid epollfd evtfd ptr sockfd 0 0 tid w = Inr w0 \<and>
    interest (ctl_log (loops w0 lid)) sockfd = Some kReadEvent \<and> accept_run k answer tid lid eps w0 = Inr w' \<and>
    sock_log w' = sock_log w0 @ concat (map (conversation sockfd) cs)"
proof -
  from test01_main_facts[OF assms(1-6), of inet_addr tid w] obtain w0 where
    w0: "test01_main k inet_addr lid epollfd evtfd ptr sockfd 0 0 tid w = Inr w0" "accepting tid lid sockfd (sock_log w0) w0"
      "interest (ctl_log (loops w0 lid)) sockfd = Some kReadEvent" by blast
  from accepting_while[OF accepting_flags(1)[OF w0(2)] answers, of k False True] obtain w' where
    "accept_run k answer tid lid eps w0 = Inr w'" "accepting tid lid sockfd (sock_log w0) w'"
    by (auto simp: accept_run_def loop_run_def get_loop_def)
  with w0 show ?thesis by (auto simp: accepting_def Let_def)
qed

text \<open>Two polls: a connection comes, and the loop is woken for nothing; the kernel takes two bytes of the greeting.\<close>

theorem test01_conversations_witness:
  "\<exists>w0 w' cs. test01_main demo_kernel (\<lambda>_. (127, 0, 0, 1)) 1 3 4 5 6 0 0 7 demo_world = Inr w0 \<and>
     accept_run demo_kernel (\<lambda>w. (8, new_inet_address (\<lambda>_. (127, 0, 0, 1)) 80 ''127.0.0.1'')) 7 1
       [(Inr [(EPOLLIN, 6)], Timestamp 1), (Inr [], Timestamp 2)] w0 = Inr w' \<and>
     sock_log w' = sock_log w0 @ concat (map (conversation 6) cs)"
proof -
  have "accepts_legal (k_ctl demo_kernel 1)" by (simp add: demo_kernel_def accepts_legal_def)
  from test01_conversations[OF this, of 3 4 6 5 "\<lambda>w. (8, new_inet_address (\<lambda>_. (127, 0, 0, 1)) 80 ''127.0.0.1'')"
      "[(Inr [(EPOLLIN, 6)], Timestamp 1), (Inr [], Timestamp 2)]" "\<lambda>_. (127, 0, 0, 1)" 7 demo_world]
  show ?thesis by (auto simp: few_events_def kInitEventListSize_def wakeup_ptr_def)
qed

end
