(* ===== verification/Current_Thread.thy ===== *)
theory Current_Thread
  imports Event_Loop
begin

text \<open>
  CurrentThread.h and CurrentThread.cc: the id of a thread, asked from the kernel once and cached in a
  thread-local variable. The other theories take the id as an argument; here is why the test
  \<open>threadId_ == CurrentThread::tid()\<close> of a loop tells its own thread from every other.
\<close>

section \<open>State and operations\<close>

text \<open>The \<open>__thread\<close> variable of one thread, and how often it has called \<open>gettid\<close>.\<close>

record thread_local =
  t_cachedTid :: "32 word"
  gettid_calls :: nat

definition new_thread_local :: thread_local where
  "new_thread_local = \<lparr>t_cachedTid = 0, gettid_calls = 0\<rparr>"

text \<open>\<open>syscall(SYS_gettid)\<close> returns a \<open>long\<close>; \<open>gettid\<close> is its answer.\<close>

definition cacheTid :: "64 word \<Rightarrow> thread_local \<Rightarrow> thread_local" where
  "cacheTid gettid t =
     (if t_cachedTid t = 0 then t\<lparr>t_cachedTid := ucast gettid, gettid_calls := Suc (gettid_calls t)\<rparr> else t)"

definition current_tid :: "64 word \<Rightarrow> thread_local \<Rightarrow> 32 word \<times> thread_local" where
  "current_tid gettid t =
     (let t = (if t_cachedTid t = 0 then cacheTid gettid t else t) in (t_cachedTid t, t))"

text \<open>Calls of \<open>tid()\<close> by several threads, in the order they happen; each thread has its own variable.\<close>

fun tids :: "(nat \<Rightarrow> 64 word) \<Rightarrow> nat list \<Rightarrow> (nat \<Rightarrow> thread_local) \<Rightarrow> 32 word list \<times> (nat \<Rightarrow> thread_local)" where
  "tids gettid [] ts = ([], ts)"
| "tids gettid (i # is) ts =
     (let (r, t) = current_tid (gettid i) (ts i); (rs, ts) = tids gettid is (ts(i := t)) in (r # rs, ts))"

section \<open>The cache is transparent\<close>

text \<open>What \<open>gettid\<close> answers: the ids of threads are positive, fit in a \<open>pid_t\<close> and differ.\<close>

definition kernel_tids :: "(nat \<Rightarrow> 64 word) \<Rightarrow> nat set \<Rightarrow> bool" where
  "kernel_tids gettid S \<longleftrightarrow> (\<forall>i \<in> S. 0 < gettid i \<and> gettid i < 2 ^ 31) \<and> inj_on gettid S"

definition cache_ok :: "(nat \<Rightarrow> 64 word) \<Rightarrow> nat \<Rightarrow> thread_local \<Rightarrow> bool" where
  "cache_ok gettid i t \<longleftrightarrow>
     t = new_thread_local \<or> t = \<lparr>t_cachedTid = ucast (gettid i), gettid_calls = 1\<rparr>"

lemma ucast_tid_eq:
  fixes x y :: "64 word"
  assumes "x < 2 ^ 31" and "y < 2 ^ 31"
  shows "(ucast x :: 32 word) = ucast y \<longleftrightarrow> x = y"
proof -
  have "unat (ucast z :: 32 word) = unat z" if "z < 2 ^ 31" for z :: "64 word"
    using that by (simp add: unsigned_ucast_eq word_less_nat_alt take_bit_nat_eq_self)
  with assms show ?thesis by (metis word_unat_eq_iff)
qed

lemma kernel_tid_nonzero: "kernel_tids gettid S \<Longrightarrow> i \<in> S \<Longrightarrow> (ucast (gettid i) :: 32 word) \<noteq> 0"
  using ucast_tid_eq[of "gettid i" 0] by (auto simp: kernel_tids_def)

lemma current_tid_step:
  assumes "kernel_tids gettid S" and "i \<in> S" and "cache_ok gettid i t"
  shows "current_tid (gettid i) t = (ucast (gettid i), \<lparr>t_cachedTid = ucast (gettid i), gettid_calls = 1\<rparr>)"
  using assms(3) kernel_tid_nonzero[OF assms(1,2)]
  by (auto simp: cache_ok_def current_tid_def cacheTid_def new_thread_local_def)

lemma tids_facts:
  assumes "kernel_tids gettid S" and "set is \<subseteq> S" and "\<forall>i \<in> S. cache_ok gettid i (ts i)"
  shows "fst (tids gettid is ts) = map (\<lambda>i. ucast (gettid i)) is \<and>
    snd (tids gettid is ts) =
      (\<lambda>i. if i \<in> set is then \<lparr>t_cachedTid = ucast (gettid i), gettid_calls = 1\<rparr> else ts i)"
  using assms(2,3)
proof (induction "is" arbitrary: ts)
  case (Cons j js)
  define t :: thread_local where "t = \<lparr>t_cachedTid = ucast (gettid j), gettid_calls = 1\<rparr>"
  have s: "current_tid (gettid j) (ts j) = (ucast (gettid j), t)"
    unfolding t_def by (rule current_tid_step[OF assms(1)]) (use Cons.prems in auto)
  have ok: "\<forall>i \<in> S. cache_ok gettid i ((ts(j := t)) i)" using Cons.prems(2) by (simp add: cache_ok_def t_def)
  have "set js \<subseteq> S" using Cons.prems(1) by simp
  note ih = Cons.IH[OF this ok]
  have "fst (tids gettid js (ts(j := t))) = map (\<lambda>i. ucast (gettid i)) js" by (rule ih[THEN conjunct1])
  moreover have "snd (tids gettid js (ts(j := t))) =
      (\<lambda>i. if i \<in> set js then \<lparr>t_cachedTid = ucast (gettid i), gettid_calls = 1\<rparr> else (ts(j := t)) i)"
    by (rule ih[THEN conjunct2])
  ultimately show ?case
    by (cases "tids gettid js (ts(j := t))") (simp add: s fun_eq_iff t_def)
qed simp

text \<open>One system call for each thread, and the kernel's answer every time, however the calls interleave.\<close>

theorem tid_cached:
  assumes "kernel_tids gettid (set is)"
  shows "fst (tids gettid is (\<lambda>_. new_thread_local)) = map (\<lambda>i. ucast (gettid i)) is \<and>
    (\<forall>i. gettid_calls (snd (tids gettid is (\<lambda>_. new_thread_local)) i) = (if i \<in> set is then 1 else 0))"
  using tids_facts[OF assms order_refl, of "\<lambda>_. new_thread_local"] by (auto simp: cache_ok_def new_thread_local_def)

definition demo_gettid :: "nat \<Rightarrow> 64 word" where
  "demo_gettid i = (if i = 0 then 4711 else 4712)"

lemma demo_gettid_ok: "kernel_tids demo_gettid {0, 1}"
  by (simp add: kernel_tids_def demo_gettid_def inj_on_def)

theorem tid_cached_witness:
  "fst (tids demo_gettid [0, 1, 0, 1] (\<lambda>_. new_thread_local)) = [4711, 4712, 4711, 4712] \<and>
   gettid_calls (snd (tids demo_gettid [0, 1, 0, 1] (\<lambda>_. new_thread_local)) 0) = 1"
  using tid_cached[of demo_gettid "[0, 1, 0, 1]"] demo_gettid_ok by (simp add: demo_gettid_def insert_commute)

section \<open>A loop knows its thread\<close>

text \<open>A thread that builds a loop, after any calls of \<open>tid()\<close> in any threads: \<open>isInLoopThread\<close> answers yes to it, and no to
  every other thread.\<close>

theorem loop_thread_exact:
  assumes "kernel_tids gettid S" and "set is \<subseteq> S" and "a \<in> S" and "b \<in> S"
    and "accepts_legal k" and "0 \<le> epollfd" and "0 \<le> evtfd" and "ts = snd (tids gettid is (\<lambda>_. new_thread_local))"
  shows "\<exists>l :: 'f event_loop. new_event_loop k False epollfd evtfd False this (unat (fst (current_tid (gettid a) (ts a)))) = Inr l \<and>
    (isInLoopThread (unat (fst (current_tid (gettid b) (ts b)))) l \<longleftrightarrow> a = b)"
proof -
  have "snd (tids gettid is (\<lambda>_. new_thread_local)) =
      (\<lambda>i. if i \<in> set is then \<lparr>t_cachedTid = ucast (gettid i), gettid_calls = 1\<rparr> else new_thread_local)"
    using tids_facts[OF assms(1,2), of "\<lambda>_. new_thread_local"] by (simp add: cache_ok_def)
  then have "cache_ok gettid i (ts i)" for i by (simp add: assms(8) cache_ok_def)
  then have tid: "fst (current_tid (gettid i) (ts i)) = ucast (gettid i)" if "i \<in> S" for i
    using current_tid_step[OF assms(1) that] by simp
  have "(ucast (gettid a) :: 32 word) = ucast (gettid b) \<longleftrightarrow> a = b"
    using assms(1,3,4) ucast_tid_eq[of "gettid a" "gettid b"] by (auto simp: kernel_tids_def inj_on_def)
  with new_event_loop_facts[OF assms(5-7), of this "unat (fst (current_tid (gettid a) (ts a)))", where 'a = 'f]
  show ?thesis by (auto simp: isInLoopThread_def tid[OF assms(3)] tid[OF assms(4)] simp flip: word_unat_eq_iff)
qed

theorem loop_thread_exact_witness:
  "\<exists>l :: nat event_loop. new_event_loop (\<lambda>_ _. 0) False 3 4 False 1 4711 = Inr l \<and> \<not> isInLoopThread 4712 l"
proof -
  let ?ts = "snd (tids demo_gettid [0, 1, 0] (\<lambda>_. new_thread_local))"
  have "accepts_legal (\<lambda>_ _. 0)" by (simp add: accepts_legal_def)
  from loop_thread_exact[OF demo_gettid_ok _ _ _ this, of "[0, 1, 0]" 0 1 3 4 ?ts 1]
  have "\<exists>l :: nat event_loop. new_event_loop (\<lambda>_ _. 0) False 3 4 False 1 (unat (fst (current_tid (demo_gettid 0) (?ts 0)))) = Inr l \<and>
      \<not> isInLoopThread (unat (fst (current_tid (demo_gettid 1) (?ts 1)))) l" by simp
  moreover have "fst (current_tid (demo_gettid 0) (?ts 0)) = 4711" "fst (current_tid (demo_gettid 1) (?ts 1)) = 4712"
    by code_simp+
  ultimately show ?thesis by simp
qed

end
