(* ===== verification/Timer_Queue.thy ===== *)
theory Timer_Queue
  imports Event_Loop Std_Containers "HOL-Library.Product_Lexorder"
begin

text \<open>
  \<open>Timer\<close>, \<open>TimerId\<close> and \<open>TimerQueue\<close> (mymuduo/include/mymuduo/Timer.h, TimerId.h, TimerQueue.h,
  mymuduo/src/Timer.cc, TimerQueue.cc). Timers are objects at
  addresses, which are not used again; the set of timers is a \<open>std::set\<close> of pairs of expiration and address. The clock answers as a function of the calls on the
  timerfd so far; what a callback does is an argument.
\<close>

section \<open>Timers\<close>

record timer =
  timer_callback :: nat
  expiration :: timestamp
  interval :: seconds
  repeats :: bool
  sequence :: "64 word"

text \<open>The constructor counts the timers in \<open>s_numCreated_\<close>.\<close>

definition new_timer :: "nat \<Rightarrow> timestamp \<Rightarrow> seconds \<Rightarrow> 64 word \<Rightarrow> timer \<times> 64 word" where
  "new_timer cb due ival numCreated =
     (let n = numCreated + 1
      in (\<lparr>timer_callback = cb, expiration = due, interval = ival, repeats = positive ival,
           sequence = n\<rparr>, n))"

definition restart :: "timestamp \<Rightarrow> timer \<Rightarrow> timer" where
  "restart now t = t\<lparr>expiration := (if repeats t then addTime now (interval t) else invalid_timestamp)\<rparr>"

section \<open>State\<close>

type_synonym timer_id = "nat \<times> 64 word"

datatype timer_task = AddTimerInLoop nat | CancelInLoop timer_id

datatype timerfd_event = TimerRead int | TimerSet int int int | TimerClose int

record timer_queue =
  timerfd :: int
  timerfdChannel :: nat
  timers :: "(timestamp \<times> nat) list"
  timerEntryPtr :: nat
  activeTimers :: "timer_id list"
  callingExpiredTimers :: bool
  cancelingTimers :: "timer_id list"

record timer_world =
  tw_loop :: "timer_task event_loop"
  tw_queue :: timer_queue
  timer_heap :: "nat \<rightharpoonup> timer"
  s_numCreated :: "64 word"
  timerfd_log :: "timerfd_event list"

type_synonym clock = "timerfd_event list \<Rightarrow> 64 word"

definition put_tw_loop :: "timer_task event_loop \<Rightarrow> 'z timer_world_scheme \<Rightarrow> 'z timer_world_scheme" where
  "put_tw_loop l w = w\<lparr>tw_loop := l\<rparr>"

interpretation in_timer_world: loop_in tw_loop put_tw_loop
  by unfold_locales (simp_all add: put_tw_loop_def)

definition put_queue :: "timer_queue \<Rightarrow> 'z timer_world_scheme \<Rightarrow> 'z timer_world_scheme" where
  "put_queue q w = w\<lparr>tw_queue := q\<rparr>"

text \<open>The timer behind a \<open>shared_ptr\<close>: every pointer the queue follows owns its timer.\<close>

definition timer_at :: "'z timer_world_scheme \<Rightarrow> nat \<Rightarrow> timer" where
  "timer_at w p = the (timer_heap w p)"

definition now_in :: "clock \<Rightarrow> 'z timer_world_scheme \<Rightarrow> timestamp" where
  "now_in clock w = timestamp_now (clock (timerfd_log w))"

section \<open>The timerfd\<close>

definition createTimerfd :: "int \<Rightarrow> int outcome" where
  "createTimerfd fd = (if fd < 0 then Inl Aborted else Inr fd)"

text \<open>\<open>tv_sec\<close> and \<open>tv_nsec\<close>; the division of C++ truncates.\<close>

definition howMuchTimeFromNow :: "timestamp \<Rightarrow> timestamp \<Rightarrow> int \<times> int" where
  "howMuchTimeFromNow due now =
     (let microseconds = sint (microSecondsSinceEpoch due - microSecondsSinceEpoch now);
          microseconds = (if microseconds < 100 then 100 else microseconds)
      in (microseconds div kMicroSecondsPerSecond, (microseconds mod kMicroSecondsPerSecond) * 1000))"

text \<open>A \<open>read\<close> of the wrong size is only logged.\<close>

definition readTimerfd :: "'z timer_world_scheme \<Rightarrow> 'z timer_world_scheme" where
  "readTimerfd w = w\<lparr>timerfd_log := timerfd_log w @ [TimerRead (timerfd (tw_queue w))]\<rparr>"

definition resetTimerfd :: "clock \<Rightarrow> timestamp \<Rightarrow> 'z timer_world_scheme \<Rightarrow> 'z timer_world_scheme" where
  "resetTimerfd clock expires w =
     (let (sec, nsec) = howMuchTimeFromNow expires (now_in clock w)
      in w\<lparr>timerfd_log := timerfd_log w @ [TimerSet (timerfd (tw_queue w)) sec nsec]\<rparr>)"

section \<open>The queue\<close>

text \<open>\<open>insert\<close>, with the answer whether the new timer is the earliest.\<close>

definition tq_insert :: "nat \<Rightarrow> nat \<Rightarrow> 'z timer_world_scheme \<Rightarrow> (bool \<times> 'z timer_world_scheme) outcome" where
  "tq_insert tid p w =
     bindR (assertInLoopThread tid (tw_loop w)) (\<lambda>_.
     let q = tw_queue w; due = expiration (timer_at w p);
         earliestChanged = (timers q = [] \<or> due < fst (hd (timers q)))
     in Inr (earliestChanged, put_queue (q\<lparr>timers := set_insert (due, p) (timers q)\<rparr>) w))"

definition addTimerInLoop :: "clock \<Rightarrow> nat \<Rightarrow> nat \<Rightarrow> 'z timer_world_scheme \<Rightarrow> 'z timer_world_scheme outcome" where
  "addTimerInLoop clock tid p w =
     bindR (assertInLoopThread tid (tw_loop w)) (\<lambda>_.
     bindR (tq_insert tid p w) (\<lambda>(earliestChanged, w).
     Inr (if earliestChanged then resetTimerfd clock (expiration (timer_at w p)) w else w)))"

definition cancelInLoop :: "nat \<Rightarrow> timer_id \<Rightarrow> 'z timer_world_scheme \<Rightarrow> 'z timer_world_scheme outcome" where
  "cancelInLoop tid timer w =
     bindR (assertInLoopThread tid (tw_loop w)) (\<lambda>_.
     let q = tw_queue w in
     Inr (if timer \<in> set (activeTimers q)
          then put_queue (q\<lparr>timers := set_erase (expiration (timer_at w (fst timer)), fst timer) (timers q),
                 activeTimers := set_erase timer (activeTimers q)\<rparr>) w
          else if callingExpiredTimers q
          then put_queue (q\<lparr>cancelingTimers := set_insert timer (cancelingTimers q)\<rparr>) w
          else w))"

fun timer_exec :: "clock \<Rightarrow> nat \<Rightarrow> timer_task \<Rightarrow> 'z timer_world_scheme \<Rightarrow> 'z timer_world_scheme outcome" where
  "timer_exec clock tid (AddTimerInLoop p) w = addTimerInLoop clock tid p w"
| "timer_exec clock tid (CancelInLoop timer) w = cancelInLoop tid timer w"

text \<open>\<open>addTimer\<close>, with the address \<open>p\<close> that \<open>make_shared\<close> gives the new timer.\<close>

definition addTimer ::
  "clock \<Rightarrow> nat \<Rightarrow> nat \<Rightarrow> nat \<Rightarrow> timestamp \<Rightarrow> seconds \<Rightarrow> 'z timer_world_scheme \<Rightarrow> (timer_id \<times> 'z timer_world_scheme) outcome" where
  "addTimer clock tid p cb due ival w =
     (let (t, n) = new_timer cb due ival (s_numCreated w);
          w = w\<lparr>timer_heap := (timer_heap w)(p \<mapsto> t), s_numCreated := n\<rparr>
      in bindR (runInLoop tw_loop put_tw_loop (timer_exec clock tid) tid (AddTimerInLoop p) w) (\<lambda>w.
         Inr ((p, sequence t), w)))"

definition cancel :: "clock \<Rightarrow> nat \<Rightarrow> timer_id \<Rightarrow> 'z timer_world_scheme \<Rightarrow> 'z timer_world_scheme outcome" where
  "cancel clock tid timer w = runInLoop tw_loop put_tw_loop (timer_exec clock tid) tid (CancelInLoop timer) w"

text \<open>The sentry pairs \<open>now\<close> with the member \<open>timerEntryPtr_\<close>.\<close>

definition getExpired :: "timestamp \<Rightarrow> 'z timer_world_scheme \<Rightarrow> (timestamp \<times> nat) list \<times> 'z timer_world_scheme" where
  "getExpired now w =
     (let q = tw_queue w; sentry = (now, timerEntryPtr q);
          expired = below sentry (timers q);
          q = q\<lparr>timers := from_lower_bound sentry (timers q)\<rparr>;
          q = fold (\<lambda>(_, p) q. q\<lparr>activeTimers := set_erase (p, sequence (timer_at w p)) (activeTimers q)\<rparr>) expired q
      in (expired, put_queue q w))"

text \<open>\<open>reset\<close>: one pass of its loop, with \<open>nextExpire\<close> before it.\<close>

definition reset_one ::
  "clock \<Rightarrow> nat \<Rightarrow> timestamp \<Rightarrow> timestamp \<times> nat \<Rightarrow> timestamp \<times> 'z timer_world_scheme \<Rightarrow>
   (timestamp \<times> 'z timer_world_scheme) outcome" where
  "reset_one clock tid now entry st =
     (let (nextExpire, w) = st; p = snd entry; t = timer_at w p in
      bindR
        (if repeats t \<and> (p, sequence t) \<notin> set (cancelingTimers (tw_queue w))
         then bindR (tq_insert tid p (w\<lparr>timer_heap := (timer_heap w)(p \<mapsto> restart now t)\<rparr>)) (\<lambda>(_, w). Inr w)
         else Inr w)
        (\<lambda>w. let ts = timers (tw_queue w);
                 nextExpire = (if ts \<noteq> [] then expiration (timer_at w (snd (hd ts))) else nextExpire)
             in Inr (nextExpire, if valid nextExpire then resetTimerfd clock nextExpire w else w)))"

definition tq_reset ::
  "clock \<Rightarrow> nat \<Rightarrow> (timestamp \<times> nat) list \<Rightarrow> timestamp \<Rightarrow> 'z timer_world_scheme \<Rightarrow> 'z timer_world_scheme outcome" where
  "tq_reset clock tid expired now w =
     bindR (foldR (reset_one clock tid now) expired (invalid_timestamp, w)) (\<lambda>(_, w). Inr w)"

definition set_callingExpired :: "bool \<Rightarrow> 'z timer_world_scheme \<Rightarrow> 'z timer_world_scheme" where
  "set_callingExpired b w = put_queue ((tw_queue w)\<lparr>callingExpiredTimers := b\<rparr>) w"

definition tq_handleRead ::
  "clock \<Rightarrow> (nat \<Rightarrow> 'z timer_world_scheme \<Rightarrow> 'z timer_world_scheme outcome) \<Rightarrow> nat \<Rightarrow>
   'z timer_world_scheme \<Rightarrow> 'z timer_world_scheme outcome" where
  "tq_handleRead clock call tid w =
     bindR (assertInLoopThread tid (tw_loop w)) (\<lambda>_.
     let now = now_in clock w;
         (expired, w) = getExpired now (readTimerfd w);
         w = set_callingExpired True w;
         w = put_queue ((tw_queue w)\<lparr>cancelingTimers := []\<rparr>) w
     in bindR (foldR (\<lambda>(_, p) w. call (timer_callback (timer_at w p)) w) expired w) (\<lambda>w.
        tq_reset clock tid expired now (set_callingExpired False w)))"

text \<open>The constructor, with its channel at \<open>ptr\<close>, and the destructor.\<close>

definition new_timer_queue ::
  "kctl \<Rightarrow> nat \<Rightarrow> nat \<Rightarrow> int \<Rightarrow> timer_task event_loop \<Rightarrow> (timer_queue \<times> timer_task event_loop) outcome" where
  "new_timer_queue k tid ptr tfd l =
     bindR (createTimerfd tfd) (\<lambda>fd.
     bindR (enableReading k tid ptr (set_chan ptr (new_channel (loop_id l) fd) l)) (\<lambda>l.
     Inr (\<lparr>timerfd = fd, timerfdChannel = ptr, timers = [], timerEntryPtr = 0, activeTimers = [],
           callingExpiredTimers = False, cancelingTimers = []\<rparr>, l)))"

definition delete_timer_queue :: "kctl \<Rightarrow> nat \<Rightarrow> 'z timer_world_scheme \<Rightarrow> 'z timer_world_scheme outcome" where
  "delete_timer_queue k tid w =
     (let q = tw_queue w in
      bindR (disableAll k tid (timerfdChannel q) (tw_loop w)) (\<lambda>l.
      bindR (channel_remove k (timerfdChannel q) l) (\<lambda>l.
      Inr (w\<lparr>tw_loop := l, timerfd_log := timerfd_log w @ [TimerClose (timerfd q)]\<rparr>))))"


section \<open>The invariant\<close>

text \<open>
  The timers that functors of the loop are still to add, and those of the timer set. \<open>H\<close> are the
  timers that a running \<open>handleRead\<close> or a functor holds.
\<close>

fun task_timer :: "timer_task \<Rightarrow> nat list" where
  "task_timer (AddTimerInLoop p) = [p]"
| "task_timer (CancelInLoop timer) = []"

definition owned :: "'z timer_world_scheme \<Rightarrow> nat list" where
  "owned w = concat (map task_timer (pendingFunctors (tw_loop w))) @ map snd (timers (tw_queue w))"

definition tq_inv :: "nat \<Rightarrow> nat list \<Rightarrow> 'z timer_world_scheme \<Rightarrow> bool" where
  "tq_inv tid H w \<longleftrightarrow>
     threadId (tw_loop w) = tid \<and>
     set_wf (timers (tw_queue w)) \<and> activeTimers (tw_queue w) = [] \<and> timerEntryPtr (tw_queue w) = 0 \<and>
     (\<forall>e \<in> set (timers (tw_queue w)). fst e = expiration (timer_at w (snd e))) \<and>
     distinct (H @ owned w) \<and> set (H @ owned w) \<subseteq> dom (timer_heap w) \<and> timer_heap w 0 = None"

lemma set_erase_Nil [simp]: "set_erase x [] = []"
  by (simp add: set_erase_def)

lemma set_insert_split: "\<exists>ys zs. xs = ys @ zs \<and> (set_insert x xs = ys @ x # zs \<or> x \<in> set xs \<and> set_insert x xs = xs)"
proof (induction xs)
  case (Cons y xs)
  then obtain ys zs where xs: "xs = ys @ zs"
    and i: "set_insert x xs = ys @ x # zs \<or> x \<in> set xs \<and> set_insert x xs = xs" by blast
  show ?case
  proof (cases "x < y \<or> x = y")
    case True
    then show ?thesis by (intro exI[of _ "[]"] exI[of _ "y # xs"]) auto
  next
    case False
    with xs i show ?thesis by (intro exI[of _ "y # ys"] exI[of _ zs]) auto
  qed
qed auto

lemma distinct_snd_set_insert:
  "p \<notin> snd ` set xs \<Longrightarrow> distinct (map snd (set_insert (t, p) xs)) = distinct (map snd xs)"
proof -
  assume p: "p \<notin> snd ` set xs"
  then have "(t, p) \<notin> set xs" by force
  with set_insert_split[of xs "(t, p)"] obtain ys zs
    where "xs = ys @ zs" "set_insert (t, p) xs = ys @ (t, p) # zs" by auto
  with p show ?thesis by auto
qed

lemma timer_fields [simp]:
  "tw_loop (put_queue q w) = tw_loop w" "tw_queue (put_queue q w) = q"
  "timer_heap (put_queue q w) = timer_heap w" "timer_at (put_queue q w) p = timer_at w p"
  "timerfd_log (put_queue q w) = timerfd_log w" "s_numCreated (put_queue q w) = s_numCreated w"
  "tw_queue (put_tw_loop l w) = tw_queue w" "timer_heap (put_tw_loop l w) = timer_heap w"
  "tw_loop (put_tw_loop l w) = l" "timer_at (put_tw_loop l w) p = timer_at w p"
  by (simp_all add: put_queue_def put_tw_loop_def timer_at_def)

lemma timer_at_upd [simp]: "timer_at (w\<lparr>timer_heap := (timer_heap w)(p \<mapsto> t)\<rparr>) p' = (if p' = p then t else timer_at w p')"
  by (simp add: timer_at_def)

lemma timer_at_same [simp]:
  "timer_at (w\<lparr>timerfd_log := es\<rparr>) = timer_at w" "timer_at (w\<lparr>s_numCreated := n\<rparr>) = timer_at w"
  by (simp_all add: timer_at_def fun_eq_iff)

lemma timerfd_fields [simp]:
  "tw_loop (resetTimerfd clock t w) = tw_loop w" "tw_queue (resetTimerfd clock t w) = tw_queue w"
  "timer_heap (resetTimerfd clock t w) = timer_heap w" "timer_at (resetTimerfd clock t w) = timer_at w"
  "tw_loop (readTimerfd w) = tw_loop w" "tw_queue (readTimerfd w) = tw_queue w"
  "timer_heap (readTimerfd w) = timer_heap w" "timer_at (readTimerfd w) = timer_at w"
  by (simp_all add: resetTimerfd_def readTimerfd_def case_prod_unfold Let_def)

lemma tq_inv_cong:
  assumes "threadId (tw_loop w') = threadId (tw_loop w)" "pendingFunctors (tw_loop w') = pendingFunctors (tw_loop w)"
    and "timers (tw_queue w') = timers (tw_queue w)" "activeTimers (tw_queue w') = activeTimers (tw_queue w)"
    and "timerEntryPtr (tw_queue w') = timerEntryPtr (tw_queue w)" "timer_heap w' = timer_heap w"
  shows "tq_inv tid H w' = tq_inv tid H w"
  using assms by (simp add: tq_inv_def owned_def timer_at_def)

lemma tq_inv_fd [simp]:
  "tq_inv tid H (resetTimerfd clock t w) = tq_inv tid H w" "tq_inv tid H (readTimerfd w) = tq_inv tid H w"
  "tq_inv tid H (set_callingExpired b w) = tq_inv tid H w"
  by (rule tq_inv_cong; simp add: set_callingExpired_def)+

lemma assert_inv: "tq_inv tid H w \<Longrightarrow> assertInLoopThread tid (tw_loop w) = Inr ()"
  by (simp add: tq_inv_def assertInLoopThread_def isInLoopThread_def)


lemma tq_insert_step:
  assumes inv: "tq_inv tid (p # H) w"
  shows "\<exists>b q. tq_insert tid p w = Inr (b, put_queue q w) \<and> tq_inv tid H (put_queue q w) \<and>
    q = (tw_queue w)\<lparr>timers := set_insert (expiration (timer_at w p), p) (timers (tw_queue w))\<rparr>"
proof -
  let ?ts = "timers (tw_queue w)" and ?e = "(expiration (timer_at w p), p)"
  from inv have p: "p \<notin> snd ` set ?ts" and wf: "set_wf ?ts" by (auto simp: tq_inv_def owned_def)
  have "distinct (map snd (set_insert ?e ?ts))"
    using inv distinct_snd_set_insert[OF p] by (simp add: tq_inv_def owned_def)
  then have "tq_inv tid H (put_queue ((tw_queue w)\<lparr>timers := set_insert ?e ?ts\<rparr>) w)"
    using inv oset.invar_insert[OF wf, of ?e] oset.elems_insert[OF wf, of ?e]
    by (auto simp: tq_inv_def owned_def)
  then show ?thesis by (simp add: tq_insert_def assert_inv[OF inv] Let_def)
qed

lemma addTimerInLoop_step:
  assumes "tq_inv tid (p # H) w"
  shows "\<exists>w'. addTimerInLoop clock tid p w = Inr w' \<and> tq_inv tid H w'"
proof -
  from tq_insert_step[OF assms] obtain b q
    where "tq_insert tid p w = Inr (b, put_queue q w)" "tq_inv tid H (put_queue q w)" by blast
  with assert_inv[OF assms] show ?thesis by (simp add: addTimerInLoop_def)
qed

lemma cancelInLoop_step:
  assumes "tq_inv tid H w"
  shows "cancelInLoop tid timer w =
      Inr (if callingExpiredTimers (tw_queue w)
           then put_queue ((tw_queue w)\<lparr>cancelingTimers := set_insert timer (cancelingTimers (tw_queue w))\<rparr>) w
           else w)"
    and "tq_inv tid H (put_queue ((tw_queue w)\<lparr>cancelingTimers := ts\<rparr>) w)"
proof -
  have "activeTimers (tw_queue w) = []" using assms by (simp add: tq_inv_def)
  then show "cancelInLoop tid timer w =
      Inr (if callingExpiredTimers (tw_queue w)
           then put_queue ((tw_queue w)\<lparr>cancelingTimers := set_insert timer (cancelingTimers (tw_queue w))\<rparr>) w
           else w)"
    by (simp add: cancelInLoop_def assert_inv[OF assms] Let_def)
  show "tq_inv tid H (put_queue ((tw_queue w)\<lparr>cancelingTimers := ts\<rparr>) w)"
    using assms by (subst tq_inv_cong[where w = w]) simp_all
qed

lemma timer_exec_step:
  assumes "tq_inv tid (task_timer f @ H) w"
  shows "\<exists>w'. timer_exec clock tid f w = Inr w' \<and> tq_inv tid H w'"
proof (cases f)
  case (AddTimerInLoop p)
  with assms addTimerInLoop_step show ?thesis by simp
next
  case (CancelInLoop timer)
  with assms have "tq_inv tid H w" by simp
  from cancelInLoop_step[OF this] this CancelInLoop show ?thesis by simp
qed

lemma tq_inv_alloc:
  assumes "tq_inv tid H w" and "p \<notin> dom (timer_heap w)" and "p \<noteq> 0"
  shows "tq_inv tid (p # H) (w\<lparr>timer_heap := (timer_heap w)(p \<mapsto> t), s_numCreated := n\<rparr>)"
proof -
  have "p \<notin> set (H @ owned w)" "p \<notin> snd ` set (timers (tw_queue w))"
    using assms by (auto simp: tq_inv_def owned_def)
  with assms show ?thesis by (auto simp: tq_inv_def owned_def timer_at_def)
qed

lemma queued_task_inv:
  assumes "tq_inv L (task_timer f @ H) w" and "tid \<noteq> L"
  shows "tq_inv L H (put_tw_loop (queueInLoop tid f (tw_loop w)) w)"
  using assms by (auto simp: tq_inv_def owned_def)

lemma runInLoop_step:
  assumes "tq_inv L (task_timer f @ H) w"
  shows "\<exists>w'. runInLoop tw_loop put_tw_loop (timer_exec clock tid) tid f w = Inr w' \<and> tq_inv L H w'"
proof (cases "tid = L")
  case True
  then have "isInLoopThread tid (tw_loop w)" using assms by (simp add: tq_inv_def isInLoopThread_def)
  with timer_exec_step[of tid f H w clock] assms True show ?thesis by (simp add: in_timer_world.runInLoop_in)
next
  case False
  then have "\<not> isInLoopThread tid (tw_loop w)" using assms by (auto simp: tq_inv_def isInLoopThread_def)
  with queued_task_inv[OF assms False] show ?thesis by (simp add: in_timer_world.runInLoop_out)
qed

lemma addTimer_step:
  assumes "tq_inv L H w" and "p \<notin> dom (timer_heap w)" and "p \<noteq> 0"
  shows "\<exists>w'. addTimer clock tid p cb due ival w = Inr ((p, s_numCreated w + 1), w') \<and> tq_inv L H w'"
proof -
  let ?t = "fst (new_timer cb due ival (s_numCreated w))" and ?n = "s_numCreated w + 1"
  have "tq_inv L (task_timer (AddTimerInLoop p) @ H)
      (w\<lparr>timer_heap := (timer_heap w)(p \<mapsto> ?t), s_numCreated := ?n\<rparr>)"
    using tq_inv_alloc[OF assms] by simp
  from runInLoop_step[OF this, where clock = clock and tid = tid]
  show ?thesis by (auto simp: addTimer_def new_timer_def Let_def)
qed


section \<open>Expired timers\<close>

definition due_before :: "timestamp \<Rightarrow> (timestamp \<times> nat) list \<Rightarrow> (timestamp \<times> nat) list" where
  "due_before now ts = filter (\<lambda>e. fst e < now) ts"

lemma distinct_partition:
  "distinct (H @ P @ map f ts) \<Longrightarrow>
     distinct ((map f (filter Q ts) @ H) @ P @ map f (filter (\<lambda>x. \<not> Q x) ts))"
  by (auto simp: distinct_map_filter) (auto simp: distinct_map inj_on_def)

lemma same_active: "activeTimers q = [] \<Longrightarrow> q\<lparr>activeTimers := []\<rparr> = (q :: timer_queue)"
  by (cases q) simp

lemma getExpired_step:
  fixes w :: "'z timer_world_scheme" and now :: timestamp
  assumes inv: "tq_inv tid H w"
  defines "q \<equiv> (tw_queue w)\<lparr>timers := filter (\<lambda>e. \<not> fst e < now) (timers (tw_queue w))\<rparr>"
  shows "getExpired now w = (due_before now (timers (tw_queue w)), put_queue q w)"
    and "tq_inv tid (map snd (due_before now (timers (tw_queue w))) @ H) (put_queue q w)"
proof -
  let ?ts = "timers (tw_queue w)"
  have wf: "set_wf ?ts" and act: "activeTimers (tw_queue w) = []" and nul: "timerEntryPtr (tw_queue w) = 0"
    and dist: "distinct (map snd ?ts)"
    using inv by (simp_all add: tq_inv_def owned_def)
  have before: "e < (now, 0) \<longleftrightarrow> fst e < now" for e :: "timestamp \<times> nat"
    by (auto simp: less_prod_def)
  have same: "fold (\<lambda>(_, p) q. q\<lparr>activeTimers := set_erase (p, sequence (timer_at w p)) (activeTimers q)\<rparr>) es q' = q'"
    if "activeTimers q' = []" for es and q' :: timer_queue
    using that by (induction es) (simp_all add: case_prod_unfold same_active)
  show "getExpired now w = (due_before now ?ts, put_queue q w)"
    by (simp add: getExpired_def Let_def nul below_eq_filter[OF wf] from_lower_bound_eq_filter[OF wf] before
        same act due_before_def q_def)
  have tq: "timers q = filter (\<lambda>e. \<not> fst e < now) ?ts" by (simp add: q_def)
  have "set_wf (timers q)" using set_wf_filter[OF wf] by (simp add: tq)
  moreover have "distinct ((map snd (due_before now ?ts) @ H) @ owned (put_queue q w))"
    using inv distinct_partition[of H "concat (map task_timer (pendingFunctors (tw_loop w)))" snd ?ts "\<lambda>e. fst e < now"]
    unfolding tq_inv_def owned_def tq due_before_def timer_fields by blast
  moreover have "set ((map snd (due_before now ?ts) @ H) @ owned (put_queue q w)) \<subseteq> set (H @ owned w)"
    by (auto simp: owned_def q_def due_before_def)
  ultimately show "tq_inv tid (map snd (due_before now ?ts) @ H) (put_queue q w)"
    using inv unfolding tq_inv_def timer_fields tq
    by (intro conjI) (blast | simp add: q_def)+
qed

text \<open>The timers that \<open>reset\<close> starts again.\<close>

definition runs_again :: "'z timer_world_scheme \<Rightarrow> nat \<Rightarrow> bool" where
  "runs_again w p \<longleftrightarrow> repeats (timer_at w p) \<and>
     (p, sequence (timer_at w p)) \<notin> set (cancelingTimers (tw_queue w))"

definition armed_for :: "clock \<Rightarrow> timestamp \<Rightarrow> 'z timer_world_scheme \<Rightarrow> bool" where
  "armed_for clock t w \<longleftrightarrow> (\<exists>before. timerfd_log w = before @
     [case howMuchTimeFromNow t (timestamp_now (clock before)) of (sec, nsec) \<Rightarrow> TimerSet (timerfd (tw_queue w)) sec nsec])"

lemma resetTimerfd_armed: "armed_for clock t (resetTimerfd clock t w)"
  by (auto simp: armed_for_def resetTimerfd_def now_in_def Let_def split: prod.splits)

lemma resetTimerfd_more [simp]: "timer_world.more (resetTimerfd clock t w) = timer_world.more w"
  by (simp add: resetTimerfd_def Let_def split: prod.splits)

lemma put_queue_more [simp]: "timer_world.more (put_queue q w) = timer_world.more w"
  by (simp add: put_queue_def)

lemma reset_one_step:
  fixes w :: "'z timer_world_scheme"
  assumes inv: "tq_inv tid (p # H) w"
  shows "\<exists>n' w'. reset_one clock tid now (t, p) (n, w) = Inr (n', w') \<and> tq_inv tid H w' \<and>
    set (timers (tw_queue w')) = set (timers (tw_queue w)) \<union>
      (if runs_again w p then {(addTime now (interval (timer_at w p)), p)} else {}) \<and>
    cancelingTimers (tw_queue w') = cancelingTimers (tw_queue w) \<and>
    callingExpiredTimers (tw_queue w') = callingExpiredTimers (tw_queue w) \<and>
    (\<forall>p'. p' \<noteq> p \<longrightarrow> timer_at w' p' = timer_at w p') \<and>
    (timers (tw_queue w') \<noteq> [] \<and> valid (fst (hd (timers (tw_queue w')))) \<longrightarrow>
       armed_for clock (fst (hd (timers (tw_queue w')))) w') \<and>
    timer_world.more w' = timer_world.more w"
proof -
  let ?t = "timer_at w p"
  let ?w1 = "w\<lparr>timer_heap := (timer_heap w)(p \<mapsto> restart now ?t)\<rparr>"
  let ?q = "(tw_queue w)\<lparr>timers := set_insert (addTime now (interval ?t), p) (timers (tw_queue w))\<rparr>"
  define w2 where "w2 = (if runs_again w p then put_queue ?q ?w1 else w)"
  have p: "p \<notin> snd ` set (timers (tw_queue w))" and wf: "set_wf (timers (tw_queue w))"
    using inv by (auto simp: tq_inv_def owned_def)
  have inv1: "tq_inv tid (p # H) ?w1"
    using inv p by (auto simp: tq_inv_def owned_def)
  have inv2: "tq_inv tid H w2"
    using tq_insert_step[OF inv1] inv
    by (auto simp: w2_def runs_again_def restart_def) (auto simp: tq_inv_def owned_def)
  have first: "expiration (timer_at w2 (snd (hd (timers (tw_queue w2))))) = fst (hd (timers (tw_queue w2)))"
    if "timers (tw_queue w2) \<noteq> []"
    using inv2 hd_in_set[OF that] by (simp add: tq_inv_def)
  have again: "bindR
        (if repeats ?t \<and> (p, sequence ?t) \<notin> set (cancelingTimers (tw_queue w))
         then bindR (tq_insert tid p ?w1) (\<lambda>(_, w). Inr w) else Inr w) = (\<lambda>f. f w2)"
    using tq_insert_step[OF inv1] by (auto simp: fun_eq_iff w2_def runs_again_def restart_def)
  define n' where "n' = (if timers (tw_queue w2) \<noteq> [] then fst (hd (timers (tw_queue w2))) else n)"
  define w3 where "w3 = (if valid n' then resetTimerfd clock n' w2 else w2)"
  have "reset_one clock tid now (t, p) (n, w) = Inr (n', w3)"
    using first unfolding reset_one_def Let_def prod.case snd_conv again by (simp add: n'_def w3_def)
  moreover have "tq_inv tid H w3" using inv2 by (simp add: w3_def)
  moreover have "timers (tw_queue w3) \<noteq> [] \<and> valid (fst (hd (timers (tw_queue w3)))) \<longrightarrow>
       armed_for clock (fst (hd (timers (tw_queue w3)))) w3"
    by (auto simp: w3_def n'_def resetTimerfd_armed)
  ultimately show ?thesis
    using oset.elems_insert[OF wf]
    by (intro exI[of _ n'] exI[of _ w3]) (simp add: w3_def w2_def)
qed


lemma reset_steps:
  fixes w :: "'z timer_world_scheme"
  assumes "tq_inv tid (map snd es @ H) w"
  shows "\<exists>n' w'. foldR (reset_one clock tid now) es (n, w) = Inr (n', w') \<and> tq_inv tid H w' \<and>
    set (timers (tw_queue w')) = set (timers (tw_queue w)) \<union>
      {(addTime now (interval (timer_at w p)), p) | p. p \<in> snd ` set es \<and> runs_again w p} \<and>
    callingExpiredTimers (tw_queue w') = callingExpiredTimers (tw_queue w) \<and>
    (es = [] \<longrightarrow> w' = w) \<and>
    (es \<noteq> [] \<and> timers (tw_queue w') \<noteq> [] \<and> valid (fst (hd (timers (tw_queue w')))) \<longrightarrow>
       armed_for clock (fst (hd (timers (tw_queue w')))) w') \<and>
    timer_world.more w' = timer_world.more w"
  using assms
proof (induction es arbitrary: n w)
  case Nil
  then show ?case by simp
next
  case (Cons e es)
  obtain t p where e: "e = (t, p)" by (cases e)
  from Cons.prems have "tq_inv tid (p # map snd es @ H) w" by (simp add: e)
  from reset_one_step[OF this, where clock = clock and now = now and t = t and n = n]
  obtain n1 w1 where w1: "reset_one clock tid now (t, p) (n, w) = Inr (n1, w1)" "tq_inv tid (map snd es @ H) w1"
    and ts: "set (timers (tw_queue w1)) = set (timers (tw_queue w)) \<union>
      (if runs_again w p then {(addTime now (interval (timer_at w p)), p)} else {})"
    and same: "cancelingTimers (tw_queue w1) = cancelingTimers (tw_queue w)"
      "callingExpiredTimers (tw_queue w1) = callingExpiredTimers (tw_queue w)"
      "\<And>p'. p' \<noteq> p \<Longrightarrow> timer_at w1 p' = timer_at w p'" "timer_world.more w1 = timer_world.more w"
    and arm: "timers (tw_queue w1) \<noteq> [] \<and> valid (fst (hd (timers (tw_queue w1)))) \<longrightarrow>
       armed_for clock (fst (hd (timers (tw_queue w1)))) w1"
    by blast
  have other: "p' \<noteq> p" if "p' \<in> snd ` set es" for p'
    using Cons.prems that by (auto simp: tq_inv_def e)
  have again: "runs_again w1 p' = runs_again w p'" if "p' \<in> snd ` set es" for p'
    using same other[OF that] by (simp add: runs_again_def)
  have "{(addTime now (interval (timer_at w1 p')), p') | p'. p' \<in> snd ` set es \<and> runs_again w1 p'} =
      {(addTime now (interval (timer_at w p')), p') | p'. p' \<in> snd ` set es \<and> runs_again w p'}"
    using again same(3)[OF other] by (intro Collect_cong) (metis (no_types, lifting))
  with ts have sets: "set (timers (tw_queue w1)) \<union>
        {(addTime now (interval (timer_at w1 p')), p') | p'. p' \<in> snd ` set es \<and> runs_again w1 p'} =
      set (timers (tw_queue w)) \<union>
        {(addTime now (interval (timer_at w p')), p') | p'. p' \<in> snd ` set (e # es) \<and> runs_again w p'}"
    by (auto simp: e)
  from Cons.IH[OF w1(2), of n1] w1(1) same arm show ?case
    unfolding sets by (auto simp: e)
qed

text \<open>One run of the loop's functors.\<close>

lemma timer_functors_step:
  assumes "tq_inv L [] w"
  shows "\<exists>w'. doPendingFunctors tw_loop put_tw_loop (timer_exec clock L) w = Inr w' \<and> tq_inv L [] w'"
proof -
  let ?fs = "pendingFunctors (tw_loop w)"
  let ?w1 = "put_tw_loop ((tw_loop w)\<lparr>callingPendingFunctors := True, pendingFunctors := []\<rparr>) w"
  have "tq_inv L (concat (map task_timer ?fs)) ?w1"
    using assms by (simp add: tq_inv_def owned_def)
  moreover have "\<exists>w'. foldR (timer_exec clock L) fs w = Inr w' \<and> tq_inv L [] w'"
    if "tq_inv L (concat (map task_timer fs)) w" for fs and w :: "'a timer_world_scheme"
    using that
  proof (induction fs arbitrary: w)
    case (Cons f fs)
    then have "tq_inv L (task_timer f @ concat (map task_timer fs)) w" by simp
    from timer_exec_step[OF this, of clock] Cons.IH show ?case by auto
  qed simp
  ultimately obtain w2 where w2: "foldR (timer_exec clock L) ?fs ?w1 = Inr w2" "tq_inv L [] w2" by blast
  have "tq_inv L [] (put_tw_loop (set_calling False (tw_loop w2)) w2)"
    using w2(2) by (subst tq_inv_cong[where w = w2]) (simp_all add: set_calling_def)
  with w2(1) show ?thesis by (simp add: doPendingFunctors_def swap_pending_def set_calling_def)
qed


section \<open>The alarm\<close>

text \<open>What callbacks promise the queue.\<close>

definition callbacks_ok :: "nat \<Rightarrow> (nat \<Rightarrow> 'z timer_world_scheme \<Rightarrow> 'z timer_world_scheme outcome) \<Rightarrow> bool" where
  "callbacks_ok L call \<longleftrightarrow> (\<forall>cb H w. tq_inv L H w \<longrightarrow> (\<exists>w'. call cb w = Inr w' \<and> tq_inv L H w'))"

definition alarm_state :: "clock \<Rightarrow> 'z timer_world_scheme \<Rightarrow> 'z timer_world_scheme" where
  "alarm_state clock w =
     put_queue ((tw_queue w)\<lparr>timers := filter (\<lambda>e. \<not> fst e < now_in clock w) (timers (tw_queue w)),
       callingExpiredTimers := True, cancelingTimers := []\<rparr>) (readTimerfd w)"

lemma alarm_step:
  fixes w :: "'z timer_world_scheme" and clock :: clock
  assumes inv: "tq_inv L H w"
  defines "E \<equiv> due_before (now_in clock w) (timers (tw_queue w))"
  shows "tq_inv L (map snd E @ H) (alarm_state clock w)"
    and "tq_handleRead clock call L w =
      bindR (foldR (\<lambda>(_, p) w. call (timer_callback (timer_at w p)) w) E (alarm_state clock w)) (\<lambda>w1.
        tq_reset clock L E (now_in clock w) (set_callingExpired False w1))"
proof -
  let ?now = "now_in clock w"
  have r: "tq_inv L H (readTimerfd w)" using inv by simp
  note g = getExpired_step[OF r, of ?now]
  have a: "alarm_state clock w = (let w1 = set_callingExpired True (snd (getExpired ?now (readTimerfd w)))
      in put_queue ((tw_queue w1)\<lparr>cancelingTimers := []\<rparr>) w1)"
    by (simp add: g(1) Let_def set_callingExpired_def alarm_state_def put_queue_def)
  show "tq_inv L (map snd E @ H) (alarm_state clock w)"
    using g(2) by (subst tq_inv_cong[where w = "put_queue ((tw_queue (readTimerfd w))\<lparr>timers :=
        filter (\<lambda>e. \<not> fst e < ?now) (timers (tw_queue (readTimerfd w)))\<rparr>) (readTimerfd w)"])
      (simp_all add: alarm_state_def E_def)
  show "tq_handleRead clock call L w =
      bindR (foldR (\<lambda>(_, p) w. call (timer_callback (timer_at w p)) w) E (alarm_state clock w)) (\<lambda>w1.
        tq_reset clock L E ?now (set_callingExpired False w1))"
    unfolding tq_handleRead_def assert_inv[OF inv] a by (simp add: Let_def g(1) E_def)
qed

lemma tq_handleRead_step:
  assumes inv: "tq_inv L [] w" and ok: "callbacks_ok L call"
  shows "\<exists>w'. tq_handleRead clock call L w = Inr w' \<and> tq_inv L [] w'"
proof -
  let ?E = "due_before (now_in clock w) (timers (tw_queue w))"
  have calls: "\<exists>w'. foldR (\<lambda>(_, p) w. call (timer_callback (timer_at w p)) w) es w = Inr w' \<and> tq_inv L H w'"
    if "tq_inv L H w" for es :: "(timestamp \<times> nat) list" and H w
    using that
  proof (induction es arbitrary: w)
    case (Cons e es)
    from ok Cons.prems obtain w1 where "call (timer_callback (timer_at w (snd e))) w = Inr w1" "tq_inv L H w1"
      unfolding callbacks_ok_def by blast
    with Cons.IH show ?case by (simp add: case_prod_unfold)
  qed simp
  from calls[OF alarm_step(1)[OF inv, of clock], of ?E] obtain w1
    where w1: "foldR (\<lambda>(_, p) w. call (timer_callback (timer_at w p)) w) ?E (alarm_state clock w) = Inr w1"
      "tq_inv L (map snd ?E @ []) w1" by blast
  then have "tq_inv L (map snd ?E @ []) (set_callingExpired False w1)" by simp
  from reset_steps[OF this, where clock = clock and now = "now_in clock w" and n = invalid_timestamp]
  show ?thesis unfolding alarm_step(2)[OF inv] tq_reset_def by (auto simp: w1)
qed


section \<open>Runs of the timer queue\<close>

text \<open>
  What can happen to the queue: any thread adds a timer, at an address not used before, or cancels
  one; the loop's thread handles an alarm or runs its functors.
\<close>

inductive timer_step ::
  "clock \<Rightarrow> (nat \<Rightarrow> 'z timer_world_scheme \<Rightarrow> 'z timer_world_scheme outcome) \<Rightarrow> nat \<Rightarrow>
   'z timer_world_scheme \<Rightarrow> 'z timer_world_scheme \<Rightarrow> bool" for clock call L where
  add: "timer_heap w p = None \<Longrightarrow> p \<noteq> 0 \<Longrightarrow> addTimer clock tid p cb due ival w = Inr (tmid, w') \<Longrightarrow>
    timer_step clock call L w w'"
| cancel: "cancel clock tid timer w = Inr w' \<Longrightarrow> timer_step clock call L w w'"
| alarm: "tq_handleRead clock call L w = Inr w' \<Longrightarrow> timer_step clock call L w w'"
| functors: "doPendingFunctors tw_loop put_tw_loop (timer_exec clock L) w = Inr w' \<Longrightarrow> timer_step clock call L w w'"

lemma cancel_step:
  assumes "tq_inv L H w"
  shows "\<exists>w'. cancel clock tid timer w = Inr w' \<and> tq_inv L H w'"
  using runInLoop_step[of L "CancelInLoop timer" H w] assms by (simp add: cancel_def)

lemma timer_step_inv:
  assumes "timer_step clock call L w w'" and "callbacks_ok L call" and "tq_inv L [] w"
  shows "tq_inv L [] w'"
  using assms
proof cases
  case (add p tid cb due ival tmid)
  then have "p \<notin> dom (timer_heap w)" by auto
  from addTimer_step[OF assms(3) this add(2), of clock tid cb due ival] add(3) show ?thesis by auto
next
  case (cancel tid timer)
  with cancel_step[OF assms(3)] show ?thesis by (metis Inr_inject)
next
  case alarm
  with tq_handleRead_step[OF assms(3,2)] show ?thesis by (metis Inr_inject)
next
  case functors
  with timer_functors_step[OF assms(3)] show ?thesis by (metis Inr_inject)
qed

lemma timer_steps_inv:
  "(timer_step clock call L)\<^sup>*\<^sup>* w w' \<Longrightarrow> callbacks_ok L call \<Longrightarrow> tq_inv L [] w \<Longrightarrow> tq_inv L [] w'"
  by (induction rule: rtranclp_induct) (auto intro: timer_step_inv)

lemma new_timer_queue_inv:
  assumes "new_timer_queue k L ptr tfd l = Inr (q, l')" and "pendingFunctors l = []"
    and "tw_loop w = l'" "tw_queue w = q" "timer_heap w = Map.empty"
  shows "tq_inv L [] w"
proof -
  obtain ev c where u: "channel_update k L ptr (set_events ev ptr (set_chan ptr c l)) = Inr l'"
    and q: "timers q = []" "activeTimers q = []" "timerEntryPtr q = 0"
    using assms(1) by (auto simp: new_timer_queue_def bindR_eq_Inr enableReading_def)
  define l0 where "l0 = set_events ev ptr (set_chan ptr c l)"
  have l0: "poller.more l0 = poller.more l" "channel_update k L ptr l0 = Inr l'"
    using u by (simp_all add: l0_def set_chan_def)
  have "threadId l0 = L"
    using l0(2) by (auto simp: channel_update_def loop_updateChannel_def bindR_eq_Inr assertInLoopThread_def
        isInLoopThread_def require_def split: if_splits)
  moreover have "poller.more l' = poller.more l0" by (rule channel_update_more[OF l0(2)])
  ultimately have "threadId l' = L" "pendingFunctors l' = []"
    using same_more(2,9) l0(1) assms(2) by metis+
  with q assms(3-5) show ?thesis by (simp add: tq_inv_def owned_def set_wf_def)
qed

text \<open>C22: The timer queue keeps its invariant through every run from its construction: the set of timers is
  sorted without duplicates, each entry carries the expiration of its timer, no timer is twice in the
  set or in the functors on their way, and every pointer the queue may follow is that of a timer. In
  every reachable state the alarm handler, the cancellation, the addition and the functors of the loop
  return.\<close>

theorem timer_queue_invariant:
  assumes "new_timer_queue k L ptr tfd l = Inr (q, l')" and "pendingFunctors l = []"
    and "tw_loop w = l'" "tw_queue w = q" "timer_heap w = Map.empty"
    and "callbacks_ok L call" and "(timer_step clock call L)\<^sup>*\<^sup>* w w'"
  shows "tq_inv L [] w' \<and>
    (\<exists>w''. tq_handleRead clock call L w' = Inr w'') \<and>
    (\<exists>w''. cancel clock tid timer w' = Inr w'') \<and>
    (\<exists>w''. doPendingFunctors tw_loop put_tw_loop (timer_exec clock L) w' = Inr w'') \<and>
    (\<forall>p. timer_heap w' p = None \<and> p \<noteq> 0 \<longrightarrow> (\<exists>r. addTimer clock tid p cb due ival w' = Inr r))"
proof -
  have inv: "tq_inv L [] w'" using timer_steps_inv new_timer_queue_inv assms by blast
  have "\<exists>r. addTimer clock tid p cb due ival w' = Inr r" if "timer_heap w' p = None" "p \<noteq> 0" for p
  proof -
    from that(1) have "p \<notin> dom (timer_heap w')" by auto
    from addTimer_step[OF inv this that(2), of clock tid cb due ival] show ?thesis by blast
  qed
  with inv tq_handleRead_step[OF inv assms(6)] cancel_step[OF inv] timer_functors_step[OF inv]
  show ?thesis by blast
qed


section \<open>What an alarm does\<close>

text \<open>An application that notes the callbacks run; each may cancel timers.\<close>

record timer_app = timer_world +
  calls :: "nat list"

definition script_call :: "clock \<Rightarrow> (nat \<Rightarrow> timer_id list) \<Rightarrow> nat \<Rightarrow> nat \<Rightarrow> timer_app \<Rightarrow> timer_app outcome" where
  "script_call clock kills L cb w =
     foldR (cancel clock L) (kills cb) (w\<lparr>calls := calls w @ [cb]\<rparr>)"

lemma calls_same [simp]:
  "tw_loop (w\<lparr>calls := cs\<rparr>) = tw_loop w" "tw_queue (w\<lparr>calls := cs\<rparr>) = tw_queue w"
  "timer_at (w\<lparr>calls := cs\<rparr>) = timer_at w" "calls (put_queue q w) = calls w"
  "calls (readTimerfd w) = calls w" "tq_inv L H (w\<lparr>calls := cs\<rparr>) = tq_inv L H w"
  by (simp_all add: put_queue_def readTimerfd_def timer_at_def fun_eq_iff tq_inv_def owned_def)

lemma calls_more: "timer_world.more w' = timer_world.more w \<Longrightarrow> calls w' = calls w"
  by (cases w; cases w') simp

lemma put_queue_again [simp]: "put_queue q' (put_queue q w) = put_queue q' w" "put_queue (tw_queue w) w = w"
  by (simp_all add: put_queue_def)

lemma put_queue_calls: "(put_queue q w)\<lparr>calls := cs\<rparr> = put_queue q (w\<lparr>calls := cs\<rparr>)"
  by (simp add: put_queue_def)

definition add_canceling :: "timer_id list \<Rightarrow> 'z timer_world_scheme \<Rightarrow> 'z timer_world_scheme" where
  "add_canceling ids w = put_queue ((tw_queue w)\<lparr>cancelingTimers :=
     fold set_insert ids (cancelingTimers (tw_queue w))\<rparr>) w"

lemma add_canceling_simps [simp]:
  "add_canceling [] w = w" "add_canceling ids' (add_canceling ids w) = add_canceling (ids @ ids') w"
  "callingExpiredTimers (tw_queue (add_canceling ids w)) = callingExpiredTimers (tw_queue w)"
  "timers (tw_queue (add_canceling ids w)) = timers (tw_queue w)"
  "timer_at (add_canceling ids w) p = timer_at w p" "tq_inv L H (add_canceling ids w) = tq_inv L H w"
  by (simp_all add: add_canceling_def) (rule tq_inv_cong; simp)

lemma cancels_in_alarm:
  "tq_inv L H w \<Longrightarrow> callingExpiredTimers (tw_queue w) \<Longrightarrow>
     foldR (cancel clock L) ids w = Inr (add_canceling ids w)"
proof (induction ids arbitrary: w)
  case (Cons i ids)
  have "isInLoopThread L (tw_loop w)" using Cons.prems by (simp add: tq_inv_def isInLoopThread_def)
  then have "cancel clock L i w = Inr (add_canceling [i] w)"
    using cancelInLoop_step(1)[OF Cons.prems(1), of i] Cons.prems(2)
    by (simp add: cancel_def in_timer_world.runInLoop_in add_canceling_def)
  with Cons show ?case by simp
qed simp

definition callbacks_of :: "'z timer_world_scheme \<Rightarrow> (timestamp \<times> nat) list \<Rightarrow> nat list" where
  "callbacks_of w es = map (\<lambda>e. timer_callback (timer_at w (snd e))) es"

lemma run_scripts:
  "tq_inv L H w \<Longrightarrow> callingExpiredTimers (tw_queue w) \<Longrightarrow>
     foldR (\<lambda>(_, p) w. script_call clock kills L (timer_callback (timer_at w p)) w) es w =
       Inr (add_canceling (concat (map kills (callbacks_of w es))) (w\<lparr>calls := calls w @ callbacks_of w es\<rparr>))"
proof (induction es arbitrary: w)
  case (Cons e es)
  let ?cb = "timer_callback (timer_at w (snd e))"
  let ?w1 = "add_canceling (kills ?cb) (w\<lparr>calls := calls w @ [?cb]\<rparr>)"
  have one: "script_call clock kills L ?cb w = Inr ?w1"
    unfolding script_call_def using Cons.prems by (intro cancels_in_alarm) simp_all
  have "?w1\<lparr>calls := calls ?w1 @ callbacks_of ?w1 es\<rparr> =
      add_canceling (kills ?cb) (w\<lparr>calls := calls w @ ?cb # callbacks_of w es\<rparr>)"
    by (simp add: add_canceling_def callbacks_of_def put_queue_def timer_at_def)
  moreover have "callbacks_of ?w1 es = callbacks_of w es" by (simp add: callbacks_of_def)
  ultimately show ?case
    using Cons.IH[of ?w1] Cons.prems one by (simp add: case_prod_unfold callbacks_of_def)
qed (simp add: callbacks_of_def)


text \<open>C21: An alarm runs the callbacks of exactly the timers that are due strictly before now, in the order of
  their expirations. Of these, the repeating ones that no callback of this alarm cancelled are set again
  for their interval from now, and the others are gone; timers that are not due stay. Afterwards the
  timerfd is armed for the earliest timer, unless no timer was due.\<close>

theorem alarm_runs_due:
  fixes w :: timer_app and clock :: clock
  assumes inv: "tq_inv L [] w"
  defines "now \<equiv> now_in clock w"
  defines "due \<equiv> filter (\<lambda>e. fst e < now) (timers (tw_queue w))"
  defines "cbs \<equiv> map (\<lambda>e. timer_callback (timer_at w (snd e))) due"
  shows "\<exists>w'. tq_handleRead clock (script_call clock kills L) L w = Inr w' \<and> calls w' = calls w @ cbs \<and>
    sorted_wrt (<) (timers (tw_queue w')) \<and>
    set (timers (tw_queue w')) = {e \<in> set (timers (tw_queue w)). \<not> fst e < now} \<union>
      {(addTime now (interval (timer_at w p)), p) | p. p \<in> snd ` set due \<and> repeats (timer_at w p) \<and>
         (p, sequence (timer_at w p)) \<notin> set (concat (map kills cbs))} \<and>
    (if due = [] then timerfd_log w' = timerfd_log w @ [TimerRead (timerfd (tw_queue w))]
     else timers (tw_queue w') \<noteq> [] \<and> valid (fst (hd (timers (tw_queue w')))) \<longrightarrow>
       armed_for clock (fst (hd (timers (tw_queue w')))) w')"
proof -
  have due: "due_before (now_in clock w) (timers (tw_queue w)) = due"
    by (simp add: due_before_def due_def now_def)
  let ?w0 = "alarm_state clock w"
  have same: "timer_at ?w0 = timer_at w" "calls ?w0 = calls w" "callingExpiredTimers (tw_queue ?w0)"
    "cancelingTimers (tw_queue ?w0) = []"
    "timers (tw_queue ?w0) = filter (\<lambda>e. \<not> fst e < now) (timers (tw_queue w))"
    by (simp_all add: alarm_state_def fun_eq_iff now_def)
  define w1 where "w1 = set_callingExpired False
    (add_canceling (concat (map kills cbs)) (?w0\<lparr>calls := calls w @ cbs\<rparr>))"
  have cbs: "callbacks_of ?w0 due = cbs" by (simp add: callbacks_of_def cbs_def same)
  note inv0 = alarm_step(1)[OF inv, of clock, unfolded due]
  have inv1: "tq_inv L (map snd due @ []) w1" using inv0 by (simp add: w1_def)
  have run: "tq_handleRead clock (script_call clock kills L) L w = tq_reset clock L due now w1"
    unfolding alarm_step(2)[OF inv, where clock = clock, unfolded due] run_scripts[OF inv0 same(3)] cbs
    by (simp add: w1_def same now_def)
  have w1: "calls w1 = calls w @ cbs" "timer_at w1 = timer_at w"
    "timers (tw_queue w1) = filter (\<lambda>e. \<not> fst e < now) (timers (tw_queue w))"
    "set (cancelingTimers (tw_queue w1)) = set (concat (map kills cbs))"
    using oset.elems_inserts[of "[]" "concat (map kills cbs)"]
    by (simp_all add: w1_def set_callingExpired_def add_canceling_def put_queue_def timer_at_def same
        fun_eq_iff set_wf_def) (simp add: timer_at_def alarm_state_def put_queue_def readTimerfd_def)
  have log: "timerfd_log w1 = timerfd_log w @ [TimerRead (timerfd (tw_queue w))]"
    by (simp add: w1_def set_callingExpired_def add_canceling_def put_queue_def alarm_state_def readTimerfd_def)
  from reset_steps[OF inv1, where clock = clock and now = now and n = invalid_timestamp]
  obtain n' w' where r: "foldR (reset_one clock L now) due (invalid_timestamp, w1) = Inr (n', w')"
    and inv': "tq_inv L [] w'"
    and ts: "set (timers (tw_queue w')) = set (timers (tw_queue w1)) \<union>
      {(addTime now (interval (timer_at w1 p)), p) | p. p \<in> snd ` set due \<and> runs_again w1 p}"
    and e: "due = [] \<longrightarrow> w' = w1"
    and arm: "due \<noteq> [] \<and> timers (tw_queue w') \<noteq> [] \<and> valid (fst (hd (timers (tw_queue w')))) \<longrightarrow>
       armed_for clock (fst (hd (timers (tw_queue w')))) w'"
    and more: "timer_world.more w' = timer_world.more w1" by blast
  have "tq_handleRead clock (script_call clock kills L) L w = Inr w'"
    unfolding run tq_reset_def r by simp
  moreover have "sorted_wrt (<) (timers (tw_queue w'))" using inv' by (simp add: tq_inv_def set_wf_def)
  moreover have "set (timers (tw_queue w')) = {e \<in> set (timers (tw_queue w)). \<not> fst e < now} \<union>
      {(addTime now (interval (timer_at w p)), p) | p. p \<in> snd ` set due \<and> repeats (timer_at w p) \<and>
         (p, sequence (timer_at w p)) \<notin> set (concat (map kills cbs))}"
    unfolding ts w1 runs_again_def by simp
  ultimately show ?thesis
    using calls_more[OF more] w1(1) e arm log by (intro exI[of _ w']) auto
qed


text \<open>The alarm that comes when no timer is due strictly before now only reads the timerfd: no callback
  runs, no timer moves, and the timerfd is not armed again. So it is with the delays of \<open>addTime\<close>,
  which are microseconds added to a clock that counts seconds: a timer for half a second after
  second \<open>s\<close> has the expiration \<open>s + 500000\<close>, and its alarm finds it not due.\<close>

theorem alarm_before_due:
  assumes "tq_inv L [] w" and "\<forall>e \<in> set (timers (tw_queue w)). now_in clock w \<le> fst e"
  shows "\<exists>w'. tq_handleRead clock call L w = Inr w' \<and> timers (tw_queue w') = timers (tw_queue w) \<and>
    timer_world.more w' = timer_world.more w \<and>
    timerfd_log w' = timerfd_log w @ [TimerRead (timerfd (tw_queue w))]"
proof -
  have "due_before (now_in clock w) (timers (tw_queue w)) = []"
    using assms(2) by (auto simp: due_before_def filter_empty_conv not_less)
  moreover have "filter (\<lambda>e. \<not> fst e < now_in clock w) (timers (tw_queue w)) = timers (tw_queue w)"
    using assms(2) by (intro filter_True) (auto simp: not_less)
  ultimately show ?thesis
    unfolding alarm_step(2)[OF assms(1)]
    by (simp add: tq_reset_def alarm_state_def set_callingExpired_def put_queue_def readTimerfd_def)
qed

text \<open>A timer that waits cannot be cancelled: \<open>insert\<close> never enters it into \<open>activeTimers_\<close>, so a
  cancellation in the loop's thread changes nothing at all, unless an alarm is calling its callbacks.\<close>

theorem cancel_waiting_timer:
  assumes "tq_inv L H w" and "\<not> callingExpiredTimers (tw_queue w)"
  shows "cancel clock L timer w = Inr w"
proof -
  have "isInLoopThread L (tw_loop w)" using assms(1) by (simp add: tq_inv_def isInLoopThread_def)
  with cancelInLoop_step(1)[OF assms(1)] assms(2) show ?thesis
    by (simp add: cancel_def in_timer_world.runInLoop_in)
qed

text \<open>The relative time given to \<open>timerfd_settime\<close> is a valid \<open>timespec\<close>, never zero (which would disarm
  the descriptor), and is the distance to the expiration in microseconds, at least 100 of them.\<close>

theorem howMuchTimeFromNow_timespec:
  "case howMuchTimeFromNow t now of (sec, nsec) \<Rightarrow>
     0 \<le> sec \<and> sec < 2 ^ 63 \<and> 0 \<le> nsec \<and> nsec < 10 ^ 9 \<and> (sec, nsec) \<noteq> (0, 0) \<and> nsec mod 1000 = 0 \<and>
     sec * 10 ^ 6 + nsec div 1000 =
       max 100 (sint (microSecondsSinceEpoch t - microSecondsSinceEpoch now))"
proof -
  define m where "m = max 100 (sint (microSecondsSinceEpoch t - microSecondsSinceEpoch now))"
  have m: "100 \<le> m" "m < 2 ^ 63"
    using sint_range_size[of "microSecondsSinceEpoch t - microSecondsSinceEpoch now"] by (auto simp: m_def size_word_def)
  have h: "howMuchTimeFromNow t now = (m div 10 ^ 6, m mod 10 ^ 6 * 1000)"
    by (auto simp: howMuchTimeFromNow_def Let_def m_def max_def kMicroSecondsPerSecond_def)
  have "m div 10 ^ 6 * 10 ^ 6 + m mod 10 ^ 6 = m" by (rule div_mult_mod_eq)
  moreover from this m have "(m div 10 ^ 6, m mod 10 ^ 6 * 1000) \<noteq> (0, 0)" by auto
  ultimately show ?thesis
    using m unfolding h m_def[symmetric] by (auto simp: pos_imp_zdiv_nonneg_iff div_less_dividend)
qed


section \<open>A queue with three timers\<close>

definition demo_timer :: "nat \<Rightarrow> 64 word \<Rightarrow> bool \<Rightarrow> 64 word \<Rightarrow> timer" where
  "demo_timer cb due rep n = fst (new_timer cb (Timestamp due) (Seconds rep (if rep then 50 else 0)) (n - 1))"

definition demo_timers :: timer_app where
  "demo_timers = \<lparr>tw_loop = demo_loop,
     tw_queue = \<lparr>timerfd = 5, timerfdChannel = 5, timers = [(Timestamp 100, 11), (Timestamp 120, 10), (Timestamp 900, 12)],
       timerEntryPtr = 0, activeTimers = [], callingExpiredTimers = False, cancelingTimers = []\<rparr>,
     timer_heap = [10 \<mapsto> demo_timer 1 120 True 1, 11 \<mapsto> demo_timer 2 100 True 2, 12 \<mapsto> demo_timer 3 900 False 3],
     s_numCreated = 3, timerfd_log = [], calls = []\<rparr>"

lemma demo_timers_inv: "tq_inv 7 [] demo_timers"
  by (auto simp: tq_inv_def demo_timers_def owned_def demo_loop_def set_wf_def less_prod_def timestamp_less_sint
      timer_at_def demo_timer_def new_timer_def)

text \<open>The callback 2 cancels its own timer.\<close>

theorem alarm_runs_due_witness:
  "\<exists>w'. tq_handleRead (\<lambda>_. 150) (script_call (\<lambda>_. 150) (\<lambda>cb. if cb = 2 then [(11, 2)] else []) 7) 7 demo_timers = Inr w' \<and>
     calls w' = [2, 1] \<and> timers (tw_queue w') = [(Timestamp 200, 10), (Timestamp 900, 12)] \<and>
     armed_for (\<lambda>_. 150) (Timestamp 200) w'"
proof -
  let ?kills = "\<lambda>cb :: nat. if cb = 2 then [(11 :: nat, 2 :: 64 word)] else []"
  have due: "filter (\<lambda>e. fst e < now_in (\<lambda>_. 150) demo_timers) (timers (tw_queue demo_timers)) =
      [(Timestamp 100, 11), (Timestamp 120, 10)]"
    by (simp add: demo_timers_def now_in_def timestamp_now_def timestamp_less_sint)
  have late: "{e \<in> set (timers (tw_queue demo_timers)). \<not> fst e < now_in (\<lambda>_. 150) demo_timers} = {(Timestamp 900, 12)}"
    by (auto simp: demo_timers_def now_in_def timestamp_now_def timestamp_less_sint)
  have at: "timer_at demo_timers 10 = demo_timer 1 120 True 1" "timer_at demo_timers 11 = demo_timer 2 100 True 2"
    by (simp_all add: timer_at_def demo_timers_def)
  have again: "{(addTime (now_in (\<lambda>_. 150) demo_timers) (interval (timer_at demo_timers p)), p) | p.
        p \<in> snd ` set [(Timestamp 100, 11), (Timestamp 120, 10)] \<and> repeats (timer_at demo_timers p) \<and>
        (p, sequence (timer_at demo_timers p)) \<notin> set (concat (map ?kills [2, 1]))} = {(Timestamp 200, 10)}"
    by (auto simp: at demo_timer_def new_timer_def addTime_def now_in_def timestamp_now_def)
  have cbs: "map (\<lambda>e. timer_callback (timer_at demo_timers (snd e))) [(Timestamp 100, 11), (Timestamp 120, 10)] = [2, 1]"
    by (simp add: at demo_timer_def new_timer_def)
  have empty: "calls demo_timers @ cs = cs" for cs by (simp add: demo_timers_def)
  from alarm_runs_due[OF demo_timers_inv, where clock = "\<lambda>_. 150" and kills = ?kills,
      unfolded due late cbs again empty]
  obtain w' where w': "tq_handleRead (\<lambda>_. 150) (script_call (\<lambda>_. 150) ?kills 7) 7 demo_timers = Inr w'"
    "calls w' = [2, 1]" "sorted_wrt (<) (timers (tw_queue w'))"
    "set (timers (tw_queue w')) = {(Timestamp 900, 12)} \<union> {(Timestamp 200, 10)}"
    and arm: "timers (tw_queue w') \<noteq> [] \<and> valid (fst (hd (timers (tw_queue w')))) \<longrightarrow>
       armed_for (\<lambda>_. 150) (fst (hd (timers (tw_queue w')))) w'"
    by auto
  have "timers (tw_queue w') = [(Timestamp 200, 10), (Timestamp 900, 12)]"
    using w'(3,4) by (intro strict_sorted_equal) (auto simp: less_prod_def timestamp_less_sint)
  moreover from this arm have "armed_for (\<lambda>_. 150) (Timestamp 200) w'" by (simp add: valid_def)
  ultimately show ?thesis using w'(1,2) by blast
qed

theorem alarm_before_due_witness:
  "\<exists>w'. tq_handleRead (\<lambda>_. 100) (\<lambda>cb w. Inl Aborted) 7 demo_timers = Inr w' \<and> timerfd_log w' = [TimerRead 5]"
proof -
  have "\<forall>e \<in> set (timers (tw_queue demo_timers)). now_in (\<lambda>_. 100) demo_timers \<le> fst e"
    by (simp add: demo_timers_def now_in_def timestamp_now_def timestamp_less_eq_sint)
  from alarm_before_due[OF demo_timers_inv this, of "\<lambda>cb w. Inl Aborted"] show ?thesis
    by (auto simp: demo_timers_def)
qed

theorem cancel_waiting_timer_witness: "cancel (\<lambda>_. 100) 7 (12, 3) demo_timers = Inr demo_timers"
  by (rule cancel_waiting_timer[OF demo_timers_inv]) (simp add: demo_timers_def)

lemma script_callbacks_ok: "callbacks_ok L (script_call clock kills L)"
proof -
  have "\<exists>w'. foldR (cancel clock L) ids w = Inr w' \<and> tq_inv L H w'" if "tq_inv L H w" for ids H and w :: timer_app
    using that
  proof (induction ids arbitrary: w)
    case (Cons i ids)
    from cancel_step[OF Cons.prems, of clock L i] Cons.IH show ?case by auto
  qed simp
  then show ?thesis by (simp add: callbacks_ok_def script_call_def)
qed

theorem timer_queue_invariant_witness:
  "\<exists>q l' w'. new_timer_queue (\<lambda>_ _. 0) 7 5 5 demo_loop = Inr (q, l') \<and>
     addTimer (\<lambda>_. 100) 8 9 1 (Timestamp 120) (Seconds True 50)
       \<lparr>tw_loop = l', tw_queue = q, timer_heap = Map.empty, s_numCreated = 0, timerfd_log = [], calls = []\<rparr>
       = Inr ((9, 1), w') \<and>
     tq_inv 7 [] w' \<and> (\<exists>w''. tq_handleRead (\<lambda>_. 100) (script_call (\<lambda>_. 100) (\<lambda>_. []) 7) 7 w' = Inr w'')"
proof -
  have "\<exists>q l'. new_timer_queue (\<lambda>_ _. 0) 7 5 5 demo_loop = Inr (q, l')"
    by (simp add: new_timer_queue_def createTimerfd_def enableReading_def channel_update_def set_events_def
        set_chan_def loop_updateChannel_def assertInLoopThread_def isInLoopThread_def poller_updateChannel_def
        poller_update_def new_channel_def demo_loop_def Let_def index_defs)
  then obtain q l' where new: "new_timer_queue (\<lambda>_ _. 0) 7 5 5 demo_loop = Inr (q, l')" by blast
  let ?w = "\<lparr>tw_loop = l', tw_queue = q, timer_heap = Map.empty, s_numCreated = 0, timerfd_log = [], calls = []\<rparr> :: timer_app"
  have idle: "pendingFunctors demo_loop = []" by (simp add: demo_loop_def)
  have inv: "tq_inv 7 [] ?w" by (rule new_timer_queue_inv[OF new idle]) simp_all
  obtain w' where add: "addTimer (\<lambda>_. 100) 8 9 1 (Timestamp 120) (Seconds True 50) ?w = Inr ((9, 1), w')"
    using addTimer_step[OF inv, where p = 9 and clock = "\<lambda>_. 100" and tid = 8 and cb = 1 and
        due = "Timestamp 120" and ival = "Seconds True 50"] by auto
  have "timer_step (\<lambda>_. 100) (script_call (\<lambda>_. 100) (\<lambda>_. []) 7) 7 ?w w'"
    by (rule timer_step.add[OF _ _ add]) simp_all
  then have "(timer_step (\<lambda>_. 100) (script_call (\<lambda>_. 100) (\<lambda>_. []) 7) 7)\<^sup>*\<^sup>* ?w w'" ..
  from timer_queue_invariant[OF new idle _ _ _ script_callbacks_ok this] new add show ?thesis by auto
qed

end
