(* ===== verification/Log_Stream.thy ===== *)
theory Log_Stream
  imports Prelude "HOL-Library.Signed_Division"
begin

text \<open>
  \<open>FixedBuffer\<close> and \<open>LogStream\<close> (mymuduo/include/mymuduo/LogStream.h, mymuduo/src/LogStream.cc): an array
  with a cursor, the conversion of integers to text, and the stream operators. \<open>line_sink\<close> is the contract
  of the buffer that the stream and the asynchronous log rely on. What the array holds behind the
  cursor is never read; it starts as zeros.
\<close>

section \<open>FixedBuffer\<close>

definition kSmallBuffer :: nat where
  "kSmallBuffer = 4000"

definition kLargeBuffer :: nat where
  "kLargeBuffer = 4000 * 1000"

record fixed_buffer =
  fb_data :: string
  fb_cur :: nat

definition new_fixed_buffer :: "nat \<Rightarrow> fixed_buffer" where
  "new_fixed_buffer SIZE = \<lparr>fb_data = replicate SIZE (CHR 0x00), fb_cur = 0\<rparr>"

definition fb_length :: "fixed_buffer \<Rightarrow> nat" where
  "fb_length b = fb_cur b"

definition fb_avail :: "fixed_buffer \<Rightarrow> int" where
  "fb_avail b = int (length (fb_data b)) - int (fb_cur b)"

definition fb_add :: "nat \<Rightarrow> fixed_buffer \<Rightarrow> fixed_buffer" where
  "fb_add len b = b\<lparr>fb_cur := fb_cur b + len\<rparr>"

definition fb_reset :: "fixed_buffer \<Rightarrow> fixed_buffer" where
  "fb_reset b = b\<lparr>fb_cur := 0\<rparr>"

definition fb_bzero :: "fixed_buffer \<Rightarrow> fixed_buffer" where
  "fb_bzero b = b\<lparr>fb_data := replicate (length (fb_data b)) (CHR 0x00)\<rparr>"

text \<open>The bytes written so far: \<open>data()\<close> up to \<open>length()\<close>.\<close>

definition fb_content :: "fixed_buffer \<Rightarrow> string" where
  "fb_content b = take (fb_cur b) (fb_data b)"

text \<open>Writing through \<open>current()\<close>, with the bounds of the array.\<close>

definition fb_poke :: "string \<Rightarrow> fixed_buffer \<Rightarrow> fixed_buffer outcome" where
  "fb_poke s b =
     (if fb_cur b + length s \<le> length (fb_data b)
      then Inr (b\<lparr>fb_data := blit (fb_data b) (fb_cur b) s\<rparr>) else Inl OutOfBounds)"

text \<open>\<open>append (buf, len)\<close>: \<open>buf\<close> is the memory readable from the pointer on.\<close>

definition fb_append :: "string \<Rightarrow> nat \<Rightarrow> fixed_buffer \<Rightarrow> fixed_buffer outcome" where
  "fb_append buf len b =
     (if fb_avail b > sint (of_nat len :: 32 word)
      then bindR (require OutOfBounds (len \<le> length buf)) (\<lambda>_.
           bindR (fb_poke (take len buf) b) (\<lambda>b. Inr (fb_add len b)))
      else Inr b)"

definition fb_wf :: "fixed_buffer \<Rightarrow> bool" where
  "fb_wf b \<longleftrightarrow> fb_cur b \<le> length (fb_data b)"

lemma fb_new [simp]: "fb_wf (new_fixed_buffer n)" "fb_content (new_fixed_buffer n) = []"
  by (simp_all add: fb_wf_def new_fixed_buffer_def fb_content_def)

lemma fb_reset_simps [simp]: "fb_wf (fb_reset b)" "fb_content (fb_reset b) = []"
  "length (fb_data (fb_reset b)) = length (fb_data b)"
  by (simp_all add: fb_wf_def fb_reset_def fb_content_def)

lemma fb_length_content: "fb_wf b \<Longrightarrow> length (fb_content b) = fb_length b"
  by (simp add: fb_wf_def fb_content_def fb_length_def)

lemma sint_of_nat: "sint (of_nat n :: 32 word) = signed_take_bit 31 (int n)"
  by (simp add: signed_of_nat)

lemma sint_small: "n < 2 ^ 31 \<Longrightarrow> sint (of_nat n :: 32 word) = int n"
  by (simp add: sint_of_nat signed_take_bit_int_eq_self)

lemma fb_poke_add:
  assumes "fb_wf b" and "fb_cur b + length s \<le> length (fb_data b)" and "n \<le> length s"
  shows "\<exists>b'. fb_poke s b = Inr b' \<and> fb_wf (fb_add n b') \<and>
    fb_content (fb_add n b') = fb_content b @ take n s \<and> length (fb_data b') = length (fb_data b)"
proof -
  let ?b = "b\<lparr>fb_data := blit (fb_data b) (fb_cur b) s\<rparr>"
  have "fb_content (fb_add n ?b) = fb_content b @ take n s"
    using assms by (simp add: fb_content_def fb_add_def blit_def fb_wf_def min_def)
  then show ?thesis using assms by (simp add: fb_poke_def fb_wf_def fb_add_def)
qed

lemma fb_append_facts:
  assumes wf: "fb_wf b" and "len < 2 ^ 31" and "len \<le> length buf"
  shows "\<exists>b'. fb_append buf len b = Inr b' \<and> fb_wf b' \<and> length (fb_data b') = length (fb_data b) \<and>
    fb_content b' = fb_content b @ (if int len < fb_avail b then take len buf else [])"
proof (cases "int len < fb_avail b")
  case True
  then have "fb_cur b + length (take len buf) \<le> length (fb_data b)" "len \<le> length (take len buf)"
    using assms(3) by (auto simp: fb_avail_def)
  from fb_poke_add[OF wf this] True assms(3) sint_small[OF assms(2)]
  show ?thesis by (auto simp: fb_append_def fb_add_def)
next
  case False
  with wf sint_small[OF assms(2)] show ?thesis by (simp add: fb_append_def)
qed

section \<open>The contract of a sink\<close>

text \<open>
  A sink keeps a text, and takes a piece either whole or not at all: it takes it when it is shorter than
  the room that is left.
\<close>

locale line_sink =
  fixes ok :: "'b \<Rightarrow> bool"
    and capacity :: "'b \<Rightarrow> nat"
    and held :: "'b \<Rightarrow> string"
    and put :: "string \<Rightarrow> 'b \<Rightarrow> 'b outcome"
  assumes held_le: "ok b \<Longrightarrow> length (held b) \<le> capacity b"
    and put_ok: "ok b \<Longrightarrow> length s < 2 ^ 31 \<Longrightarrow> \<exists>b'. put s b = Inr b' \<and> ok b' \<and> capacity b' = capacity b \<and>
       held b' = held b @ (if length (held b) + length s < capacity b then s else [])"
begin

text \<open>What a list of pieces leaves: some of them, in their order, and all of them when they fit.\<close>

lemma puts_subsequence:
  assumes "ok b" and "\<forall>s \<in> set ss. length s < 2 ^ 31"
  shows "\<exists>b' ss'. foldR put ss b = Inr b' \<and> ok b' \<and> capacity b' = capacity b \<and>
    ss' \<in> set (subseqs ss) \<and> held b' = held b @ concat ss'"
  using assms
proof (induction ss arbitrary: b)
  case (Cons s ss)
  from put_ok[OF Cons.prems(1), of s] Cons.prems(2) obtain b1 where b1: "put s b = Inr b1" "ok b1"
    "capacity b1 = capacity b" "held b1 = held b @ (if length (held b) + length s < capacity b then s else [])"
    by auto
  from Cons.IH[OF b1(2)] Cons.prems(2) obtain b' ss' where b': "foldR put ss b1 = Inr b'" "ok b'"
    "capacity b' = capacity b1" "ss' \<in> set (subseqs ss)" "held b' = held b1 @ concat ss'" by auto
  show ?case
  proof (cases "length (held b) + length s < capacity b")
    case True
    with b1 b' show ?thesis by (intro exI[of _ b'] exI[of _ "s # ss'"]) (auto simp: Let_def)
  next
    case False
    with b1 b' show ?thesis by (intro exI[of _ b'] exI[of _ ss']) (auto simp: Let_def)
  qed
qed simp

lemma puts_fit:
  assumes "ok b" and "length (held b) + length (concat ss) < capacity b" and "capacity b < 2 ^ 31"
  shows "\<exists>b'. foldR put ss b = Inr b' \<and> ok b' \<and> capacity b' = capacity b \<and> held b' = held b @ concat ss"
  using assms
proof (induction ss arbitrary: b)
  case (Cons s ss)
  then have "length s < 2 ^ 31" by simp
  from put_ok[OF Cons.prems(1) this] Cons.prems obtain b1 where "put s b = Inr b1" "ok b1"
    "capacity b1 = capacity b" "held b1 = held b @ s" by auto
  with Cons.IH[of b1] Cons.prems show ?case by auto
qed simp

end

definition fb_put :: "string \<Rightarrow> fixed_buffer \<Rightarrow> fixed_buffer outcome" where
  "fb_put s b = fb_append s (length s) b"

definition fb_capacity :: "fixed_buffer \<Rightarrow> nat" where
  "fb_capacity b = length (fb_data b)"

lemma fb_avail_content: "fb_wf b \<Longrightarrow> fb_avail b = int (fb_capacity b) - int (length (fb_content b))"
  by (simp add: fb_wf_def fb_avail_def fb_content_def fb_capacity_def)

interpretation fb: line_sink fb_wf fb_capacity fb_content fb_put
proof unfold_locales
  show "fb_wf b \<Longrightarrow> length (fb_content b) \<le> fb_capacity b" for b
    by (simp add: fb_wf_def fb_content_def fb_capacity_def)
  show "\<exists>b'. fb_put s b = Inr b' \<and> fb_wf b' \<and> fb_capacity b' = fb_capacity b \<and>
      fb_content b' = fb_content b @ (if length (fb_content b) + length s < fb_capacity b then s else [])"
    if "fb_wf b" "length s < 2 ^ 31" for b s
    using fb_append_facts[OF that, of s] fb_avail_content[OF that(1)] by (auto simp: fb_put_def fb_capacity_def)
qed

text \<open>The length is compared as an \<open>int\<close>: from 2^31 on it is negative, and the copy leaves the array.\<close>

lemma fb_append_huge:
  assumes "fb_wf b" and "length (fb_data b) < 2 ^ 31" and "2 ^ 31 \<le> len" and "len < 2 ^ 32" and "len \<le> length buf"
  shows "fb_append buf len b = Inl OutOfBounds"
proof -
  have "sint (of_nat len :: 32 word) < 0"
  proof -
    have "(int len + 2 ^ 31) mod 2 ^ 32 = int len + 2 ^ 31 - 2 ^ 32"
      using assms(3,4) by (subst mod_pos_geq) simp_all
    then show ?thesis
      using assms(3,4) by (simp add: sint_of_nat signed_take_bit_eq_take_bit_shift take_bit_eq_mod)
  qed
  moreover have "0 \<le> fb_avail b" using assms(1) by (simp add: fb_wf_def fb_avail_def)
  ultimately have "sint (of_nat len :: 32 word) < fb_avail b" by linarith
  then show ?thesis using assms by (simp add: fb_append_def fb_poke_def min_def)
qed


section \<open>Integers to text\<close>

definition digits :: string where
  "digits = ''9876543210123456789''"

text \<open>The loop of \<open>convert\<close>: C++ division truncates, so the last digit of a negative number is
  negative, and \<open>zero\<close> points at the middle of \<open>digits\<close>. The least significant digit comes first.\<close>

function convert_digits :: "int \<Rightarrow> string" where
  "convert_digits i =
     (let lsd = i smod 10; i' = i sdiv 10
      in digits ! nat (9 + lsd) # (if i' \<noteq> 0 then convert_digits i' else []))"
  by pat_completeness auto
termination
  by (relation "measure (\<lambda>i. nat \<bar>i\<bar>)") (auto simp: signed_divide_int_def abs_mult sgn_if)

declare convert_digits.simps [simp del]

definition convert :: "int \<Rightarrow> string" where
  "convert value = rev (convert_digits value @ (if value < 0 then ''-'' else ''''))"

definition digitsHex :: string where
  "digitsHex = ''0123456789ABCDEF''"

function hex_digits :: "nat \<Rightarrow> string" where
  "hex_digits i = (let lsd = i mod 16; i' = i div 16 in digitsHex ! lsd # (if i' \<noteq> 0 then hex_digits i' else []))"
  by pat_completeness auto
termination
  by (relation "measure id") auto

declare hex_digits.simps [simp del]

definition convertHex :: "64 word \<Rightarrow> string" where
  "convertHex value = rev (hex_digits (unat value))"

section \<open>The stream\<close>

type_synonym log_stream = fixed_buffer

definition new_log_stream :: log_stream where
  "new_log_stream = new_fixed_buffer kSmallBuffer"

definition kMaxNumericSize :: nat where
  "kMaxNumericSize = 48"

definition NUL :: char where
  "NUL = CHR 0x00"

text \<open>The conversions write at the cursor, with the terminating NUL, which stays behind the cursor.\<close>

definition formatInteger :: "int \<Rightarrow> log_stream \<Rightarrow> log_stream outcome" where
  "formatInteger v b =
     (if fb_avail b \<ge> int kMaxNumericSize
      then bindR (fb_poke (convert v @ [NUL]) b) (\<lambda>b. Inr (fb_add (length (convert v)) b)) else Inr b)"

definition formatPointer :: "64 word \<Rightarrow> log_stream \<Rightarrow> log_stream outcome" where
  "formatPointer v b =
     (if fb_avail b \<ge> int kMaxNumericSize
      then bindR (fb_poke (''0x'' @ convertHex v @ [NUL]) b) (\<lambda>b. Inr (fb_add (length (convertHex v) + 2) b)) else Inr b)"

text \<open>\<open>shown\<close> is what \<open>%.12g\<close> makes of the number; \<open>snprintf\<close> returns its whole length.\<close>

definition formatDouble :: "string \<Rightarrow> log_stream \<Rightarrow> log_stream outcome" where
  "formatDouble shown b =
     (if fb_avail b \<ge> int kMaxNumericSize
      then bindR (fb_poke (snprintf kMaxNumericSize shown @ [NUL]) b) (\<lambda>b. Inr (fb_add (length shown) b)) else Inr b)"

text \<open>The overloads of \<open>operator<<\<close>, by the type of the argument. A C string is given without its NUL.\<close>

datatype log_arg =
    Short "16 word" | UShort "16 word" | SInt "32 word" | UInt "32 word"
  | Long "64 word" | ULong "64 word" | LongLong "64 word" | ULongLong "64 word"
  | Pointer "64 word" | Float string | Double string | LongDouble string
  | Char char | CString "string option" | UCString "string option" | Str string

fun ls_cstring :: "string option \<Rightarrow> log_stream \<Rightarrow> log_stream outcome" where
  "ls_cstring (Some s) b = fb_append (s @ [NUL]) (length s) b"
| "ls_cstring None b = fb_append (''(null)'' @ [NUL]) 6 b"

fun ls_out :: "log_arg \<Rightarrow> log_stream \<Rightarrow> log_stream outcome" where
  "ls_out (Short v) b = formatInteger (sint (scast v :: 32 word)) b"
| "ls_out (UShort v) b = formatInteger (uint (ucast v :: 32 word)) b"
| "ls_out (SInt v) b = formatInteger (sint v) b"
| "ls_out (UInt v) b = formatInteger (uint v) b"
| "ls_out (Long v) b = formatInteger (sint v) b"
| "ls_out (ULong v) b = formatInteger (uint v) b"
| "ls_out (LongLong v) b = formatInteger (sint v) b"
| "ls_out (ULongLong v) b = formatInteger (uint v) b"
| "ls_out (Pointer p) b = formatPointer p b"
| "ls_out (Float shown) b = formatDouble shown b"
| "ls_out (Double shown) b = formatDouble shown b"
| "ls_out (LongDouble shown) b = formatDouble shown b"
| "ls_out (Char c) b = fb_append [c] 1 b"
| "ls_out (CString s) b = ls_cstring s b"
| "ls_out (UCString s) b = ls_cstring s b"
| "ls_out (Str s) b = fb_append (s @ [NUL]) (length s) b"

text \<open>\<open>append (data, len)\<close> takes an \<open>int\<close>.\<close>

definition ls_append :: "string \<Rightarrow> 32 word \<Rightarrow> log_stream \<Rightarrow> log_stream outcome" where
  "ls_append buf len b = fb_append buf (unat (scast len :: 64 word)) b"

definition ls_resetBuffer :: "log_stream \<Rightarrow> log_stream" where
  "ls_resetBuffer b = fb_reset b"

section \<open>What the conversions print\<close>

lemma digits_middle: "d < 10 \<Longrightarrow> digits ! (9 + d) = digit_char d" "d < 10 \<Longrightarrow> digits ! (9 - d) = digit_char d"
proof -
  have "\<forall>d < 10. digits ! (9 + d) = digit_char d \<and> digits ! (9 - d) = digit_char d" by code_simp
  then show "d < 10 \<Longrightarrow> digits ! (9 + d) = digit_char d" "d < 10 \<Longrightarrow> digits ! (9 - d) = digit_char d" by auto
qed

lemma convert_digits_pos: "convert_digits (int n) = rev (show_nat n)"
proof (induction n rule: show_nat.induct)
  case (1 n)
  have "int n smod 10 = int (n mod 10)" "int n sdiv 10 = int (n div 10)"
    by (cases "n = 0"; simp add: signed_divide_int_def signed_modulo_int_def zmod_int zdiv_int)+
  then show ?case
    using 1 digits_middle(1)[of "n mod 10"]
    by (subst convert_digits.simps, subst show_nat.simps) (auto simp: Let_def nat_add_distrib div_eq_0_iff)
qed

lemma convert_digits_neg: "convert_digits (- int n) = rev (show_nat n)"
proof (induction n rule: show_nat.induct)
  case (1 n)
  have "- int n smod 10 = - int (n mod 10)" "- int n sdiv 10 = - int (n div 10)"
    by (cases "n = 0"; simp add: signed_divide_int_def signed_modulo_int_def zmod_int zdiv_int)+
  then show ?case
    using 1 digits_middle(2)[of "n mod 10"]
    by (subst convert_digits.simps, subst show_nat.simps) (auto simp: Let_def nat_diff_distrib div_eq_0_iff)
qed

lemma convert_show_int: "convert i = show_int i"
proof (cases "i < 0")
  case True
  then show ?thesis using convert_digits_neg[of "nat (- i)"] by (simp add: convert_def show_int_def)
next
  case False
  then show ?thesis using convert_digits_pos[of "nat i"] by (simp add: convert_def show_int_def)
qed


text \<open>Reading a hexadecimal text back.\<close>

definition read_hex :: "string \<Rightarrow> nat" where
  "read_hex s = foldl (\<lambda>n c. 16 * n + (if char_digit c < 10 then char_digit c else of_char c - 55)) 0 s"

lemma read_hex_snoc: "read_hex (s @ [c]) = 16 * read_hex s + (if char_digit c < 10 then char_digit c else of_char c - 55)"
  by (simp add: read_hex_def)

lemma digitsHex_value:
  "d < 16 \<Longrightarrow> (if char_digit (digitsHex ! d) < 10 then char_digit (digitsHex ! d) else of_char (digitsHex ! d) - 55) = d"
proof -
  have "\<forall>d < 16. (if char_digit (digitsHex ! d) < 10 then char_digit (digitsHex ! d)
      else of_char (digitsHex ! d) - 55) = d" by code_simp
  then show "d < 16 \<Longrightarrow> (if char_digit (digitsHex ! d) < 10 then char_digit (digitsHex ! d)
      else of_char (digitsHex ! d) - 55) = d" by blast
qed

lemma read_hex_digits: "read_hex (rev (hex_digits n)) = n"
proof (induction n rule: hex_digits.induct)
  case (1 n)
  then show ?case
    using digitsHex_value[of "n mod 16"]
    by (subst hex_digits.simps) (auto simp: Let_def read_hex_snoc read_hex_def[of "[]"])
qed

lemma length_hex_digits: "n < 16 ^ k \<Longrightarrow> 0 < k \<Longrightarrow> length (hex_digits n) \<le> k"
proof (induction k arbitrary: n)
  case (Suc k)
  show ?case
  proof (cases "n div 16 = 0")
    case True
    then show ?thesis by (subst hex_digits.simps) simp
  next
    case False
    with Suc.prems have "n div 16 < 16 ^ k" "0 < k"
      by (auto simp: div_less_iff_less_mult mult.commute intro: gr0I)
    from Suc.IH[OF this] False show ?thesis by (subst hex_digits.simps) (simp add: Let_def)
  qed
qed simp

lemma length_convertHex: "length (convertHex v) \<le> 16"
proof -
  have "unat v < 16 ^ 16" using unsigned_less[where ?'a = nat, of v] by simp
  then show ?thesis by (simp add: convertHex_def length_hex_digits)
qed

lemma length_show_int_64: "- (2 ^ 63) \<le> i \<Longrightarrow> i < 2 ^ 64 \<Longrightarrow> length (show_int i) \<le> 20"
  using length_show_nat[of "nat (- i)" 19] length_show_nat[of "nat i" 20]
  by (auto simp: show_int_def nat_less_iff)

section \<open>The stream as a line of text\<close>

text \<open>What an argument prints, how much room it asks for, and the arguments within the bounds of the code.\<close>

fun arg_text :: "log_arg \<Rightarrow> string" where
  "arg_text (Short v) = show_int (sint v)"
| "arg_text (UShort v) = show_int (uint v)"
| "arg_text (SInt v) = show_int (sint v)"
| "arg_text (UInt v) = show_int (uint v)"
| "arg_text (Long v) = show_int (sint v)"
| "arg_text (ULong v) = show_int (uint v)"
| "arg_text (LongLong v) = show_int (sint v)"
| "arg_text (ULongLong v) = show_int (uint v)"
| "arg_text (Pointer p) = ''0x'' @ convertHex p"
| "arg_text (Float shown) = shown"
| "arg_text (Double shown) = shown"
| "arg_text (LongDouble shown) = shown"
| "arg_text (Char c) = [c]"
| "arg_text (CString s) = (case s of None \<Rightarrow> ''(null)'' | Some s \<Rightarrow> s)"
| "arg_text (UCString s) = (case s of None \<Rightarrow> ''(null)'' | Some s \<Rightarrow> s)"
| "arg_text (Str s) = s"

fun is_text :: "log_arg \<Rightarrow> bool" where
  "is_text (Char c) = True"
| "is_text (CString s) = True"
| "is_text (UCString s) = True"
| "is_text (Str s) = True"
| "is_text _ = False"

definition arg_ok :: "log_arg \<Rightarrow> bool" where
  "arg_ok a \<longleftrightarrow> length (arg_text a) < (if is_text a then 2 ^ 31 else kMaxNumericSize)"

definition line_out :: "nat \<Rightarrow> log_arg \<Rightarrow> string \<Rightarrow> string" where
  "line_out room a line =
     (if length line + (if is_text a then length (arg_text a) + 1 else kMaxNumericSize) \<le> room
      then line @ arg_text a else line)"

text \<open>The conversions take 48 bytes or write nothing; the texts they print are shorter.\<close>

lemma poke_number:
  assumes wf: "fb_wf b" and len: "length s < kMaxNumericSize" and "t = s"
  shows "\<exists>b'. (if fb_avail b \<ge> int kMaxNumericSize
      then bindR (fb_poke (s @ [NUL]) b) (\<lambda>b. Inr (fb_add (length t) b)) else Inr b) = Inr b' \<and>
    fb_wf b' \<and> fb_capacity b' = fb_capacity b \<and>
    fb_content b' = (if length (fb_content b) + kMaxNumericSize \<le> fb_capacity b then fb_content b @ t else fb_content b)"
proof (cases "fb_avail b \<ge> int kMaxNumericSize")
  case True
  then have "fb_cur b + length (s @ [NUL]) \<le> length (fb_data b)" "length s \<le> length (s @ [NUL])"
    using len by (auto simp: fb_avail_def)
  from fb_poke_add[OF wf this] True fb_avail_content[OF wf] assms(3) show ?thesis
    by (auto simp: fb_add_def fb_capacity_def)
next
  case False
  with wf fb_avail_content[OF wf] show ?thesis by auto
qed

lemma sint_scast_short: "sint (scast (v :: 16 word) :: 32 word) = sint v"
  by (rule sint_up_scast) (simp add: is_up)

lemma uint_ucast_short: "uint (ucast (v :: 16 word) :: 32 word) = uint v"
  by (rule uint_up_ucast) (simp add: is_up)

lemma word_range_64:
  "- (2 ^ 63) \<le> sint (v :: 64 word) \<and> sint v < 2 ^ 64" "- (2 ^ 63) \<le> uint v \<and> uint v < 2 ^ 64"
  "- (2 ^ 63) \<le> sint (u :: 32 word) \<and> sint u < 2 ^ 64" "- (2 ^ 63) \<le> uint u \<and> uint u < 2 ^ 64"
  "- (2 ^ 63) \<le> sint (h :: 16 word) \<and> sint h < 2 ^ 64" "- (2 ^ 63) \<le> uint h \<and> uint h < 2 ^ 64"
  using sint_range_size[of v] sint_range_size[of u] sint_range_size[of h]
    uint_lt2p[of v] uint_lt2p[of u] uint_lt2p[of h] uint_ge_0[of v] uint_ge_0[of u] uint_ge_0[of h]
  by (auto simp: size_word_def intro: order_trans[OF _ uint_ge_0])

lemma length_show_word:
  "length (show_int (sint (v :: 64 word))) < kMaxNumericSize" "length (show_int (uint v)) < kMaxNumericSize"
  "length (show_int (sint (u :: 32 word))) < kMaxNumericSize" "length (show_int (uint u)) < kMaxNumericSize"
  "length (show_int (sint (h :: 16 word))) < kMaxNumericSize" "length (show_int (uint h)) < kMaxNumericSize"
  "length (''0x'' @ convertHex v) < kMaxNumericSize"
proof -
  have small: "length (show_int i) < kMaxNumericSize" if "- (2 ^ 63) \<le> i \<and> i < 2 ^ 64" for i
    using length_show_int_64[of i] that by (simp add: kMaxNumericSize_def)
  show "length (show_int (sint (v :: 64 word))) < kMaxNumericSize" "length (show_int (uint v)) < kMaxNumericSize"
    "length (show_int (sint (u :: 32 word))) < kMaxNumericSize" "length (show_int (uint u)) < kMaxNumericSize"
    "length (show_int (sint (h :: 16 word))) < kMaxNumericSize" "length (show_int (uint h)) < kMaxNumericSize"
    by (rule small; rule word_range_64)+
  show "length (''0x'' @ convertHex v) < kMaxNumericSize"
    using length_convertHex[of v] by (simp add: kMaxNumericSize_def)
qed

lemma arg_ok_number: "\<not> is_text a \<Longrightarrow> (\<forall>s. a \<noteq> Float s \<and> a \<noteq> Double s \<and> a \<noteq> LongDouble s) \<Longrightarrow> arg_ok a"
  using length_show_word by (cases a) (simp_all add: arg_ok_def)


lemma put_text:
  assumes "fb_wf b" and "length s < 2 ^ 31"
  shows "\<exists>b'. fb_append (s @ r) (length s) b = Inr b' \<and> fb_wf b' \<and> fb_capacity b' = fb_capacity b \<and>
    fb_content b' = (if length (fb_content b) + (length s + 1) \<le> fb_capacity b then fb_content b @ s else fb_content b)"
  using fb_append_facts[OF assms, of "s @ r"] fb_avail_content[OF assms(1)] by (auto simp: fb_capacity_def)

lemma ls_out_step:
  assumes "fb_wf b" and "arg_ok a"
  shows "\<exists>b'. ls_out a b = Inr b' \<and> fb_wf b' \<and> fb_capacity b' = fb_capacity b \<and>
    fb_content b' = line_out (fb_capacity b) a (fb_content b)"
proof (cases "is_text a")
  case False
  then obtain s where s: "arg_text a = s" "length s < kMaxNumericSize"
    using assms(2) by (simp add: arg_ok_def)
  note p = poke_number[OF assms(1) s(2) refl]
  show ?thesis
    using False s p
    by (cases a) (auto simp: formatInteger_def formatDouble_def formatPointer_def line_out_def convert_show_int
        sint_scast_short uint_ucast_short snprintf_fits)
next
  case True
  then obtain s where s: "arg_text a = s" "length s < 2 ^ 31"
    using assms(2) by (simp add: arg_ok_def)
  note p = put_text[OF assms(1) s(2)]
  have null: "6 = length ''(null)''" by simp
  show ?thesis
  proof (cases a)
    case (CString x)
    with s p[of "[NUL]"] show ?thesis by (cases x) (auto simp: line_out_def null simp del: length_Cons)
  next
    case (UCString x)
    with s p[of "[NUL]"] show ?thesis by (cases x) (auto simp: line_out_def null simp del: length_Cons)
  qed (use True s p[of "[NUL]"] p[of "[]"] in \<open>auto simp: line_out_def\<close>)
qed

lemma ls_outs_step:
  assumes "fb_wf b" and "\<forall>a \<in> set args. arg_ok a"
  shows "\<exists>b'. foldR ls_out args b = Inr b' \<and> fb_wf b' \<and> fb_capacity b' = fb_capacity b \<and>
    fb_content b' = fold (line_out (fb_capacity b)) args (fb_content b)"
  using assms
proof (induction args arbitrary: b)
  case (Cons a args)
  from ls_out_step[OF Cons.prems(1), of a] Cons.prems(2) obtain b1 where "ls_out a b = Inr b1" "fb_wf b1"
    "fb_capacity b1 = fb_capacity b" "fb_content b1 = line_out (fb_capacity b) a (fb_content b)" by auto
  with Cons.IH[of b1] Cons.prems(2) show ?case by auto
qed simp

text \<open>A line with room for a last number is all there.\<close>

lemma line_out_fits:
  "length line + length (arg_text a) + kMaxNumericSize \<le> room \<Longrightarrow> line_out room a line = line @ arg_text a"
  by (simp add: line_out_def kMaxNumericSize_def)

lemma lines_fit:
  "length line + length (concat (map arg_text args)) + kMaxNumericSize \<le> room \<Longrightarrow>
     fold (line_out room) args line = line @ concat (map arg_text args)"
proof (induction args arbitrary: line)
  case (Cons a args)
  then have "line_out room a line = line @ arg_text a" by (intro line_out_fits) simp
  with Cons show ?case by simp
qed simp

lemma length_line_out: "length line \<le> room \<Longrightarrow> arg_ok a \<Longrightarrow> length (line_out room a line) \<le> room"
  by (auto simp: line_out_def arg_ok_def)

section \<open>Properties of the stream\<close>



text \<open>C39: \<open>convert\<close> prints what \<open>%d\<close> prints, digit by digit with a truncating division, and \<open>convertHex\<close> a text
  whose value in base 16 is the number; neither fills its 48 bytes.\<close>

theorem convert_roundtrip:
  "convert i = show_int i \<and> (if i < 0 then - int (read_nat (tl (convert i))) else int (read_nat (convert i))) = i \<and>
   length (convert (sint (v :: 64 word))) \<le> 20 \<and> length (convert (uint v)) \<le> 20 \<and>
   read_hex (convertHex v) = unat v \<and> length (convertHex v) \<le> 16"
  using length_show_int_64 word_range_64(1,2)
  by (simp add: convert_show_int length_convertHex) (simp add: show_int_def convertHex_def read_hex_digits)

end
