(* ===== verification/Logger.thy ===== *)
theory Logger
  imports Log_Stream Time_Stamp
begin

text \<open>
  \<open>Logger\<close> (mymuduo/include/mymuduo/Logger.h, mymuduo/src/Logger.cc): a logger lives for one statement. Its
  constructor streams the time, the thread and the level, the statement streams the message, and its
  destructor streams the place and hands the line to the output function. The answers of the system
  to one statement are a \<open>log_env\<close>; what the output and flush functions do to their state \<open>'s\<close> is arbitrary.
\<close>

section \<open>Levels, places, and the state of a thread\<close>

datatype log_level = INFO | ERROR | FATAL | DEBUG

fun level_index :: "log_level \<Rightarrow> nat" where
  "level_index INFO = 0"
| "level_index ERROR = 1"
| "level_index FATAL = 2"
| "level_index DEBUG = 3"

definition LogLevelName :: "string list" where
  "LogLevelName = [''DEBUG '', ''INFO  '', ''WARN  '', ''ERROR '', ''FATAL '']"

record source_file =
  sf_data :: string
  sf_size :: int

text \<open>The index of the last occurrence.\<close>

definition strrchr :: "string \<Rightarrow> char \<Rightarrow> nat option" where
  "strrchr s c = (if c \<in> set s then Some (length s - 1 - length (takeWhile (\<lambda>x. x \<noteq> c) (rev s))) else None)"

text \<open>\<open>SourceFile\<close> of an array of \<open>N\<close> characters, the last of them the NUL, and of a pointer.\<close>

definition source_file_array :: "string \<Rightarrow> source_file" where
  "source_file_array arr =
     (let N = length arr + 1; data = arr; sz = int N - 1 in
      case strrchr data CHR ''/'' of
        None \<Rightarrow> \<lparr>sf_data = data, sf_size = sz\<rparr>
      | Some slash \<Rightarrow> \<lparr>sf_data = drop (slash + 1) arr, sf_size = sz - int (slash + 1)\<rparr>)"

definition source_file_pointer :: "string \<Rightarrow> source_file" where
  "source_file_pointer filename =
     (let data = (case strrchr filename CHR ''/'' of None \<Rightarrow> filename | Some slash \<Rightarrow> drop (slash + 1) filename)
      in \<lparr>sf_data = data, sf_size = int (length data)\<rparr>)"

record log_thread =
  t_time :: string
  t_lastSecond :: "64 word"

text \<open>What the system answers: \<open>time\<close> twice, \<open>gettid\<close>, \<open>localtime\<close>, \<open>strerror_r\<close>, and the place of the statement.\<close>

record log_env =
  env_file :: string
  env_line :: "32 word"
  env_func :: string
  env_tid :: int
  env_created :: "64 word"
  env_now :: "64 word"
  env_localtime :: "64 word \<Rightarrow> tm"
  env_strerror :: "32 word \<Rightarrow> string"

definition getErrnoMsg :: "log_env \<Rightarrow> 32 word \<Rightarrow> string" where
  "getErrnoMsg env savedErrno = env_strerror env savedErrno"

text \<open>The globals: the level, the output and the flush function.\<close>

record 's log_globals =
  g_logLevel :: log_level
  g_output :: "string \<Rightarrow> 's \<Rightarrow> 's outcome"
  g_flush :: "'s \<Rightarrow> 's outcome"

definition initLogLevel :: log_level where
  "initLogLevel = INFO"

definition logLevel :: "'s log_globals \<Rightarrow> log_level" where
  "logLevel g = g_logLevel g"

definition setLogLevel :: "log_level \<Rightarrow> 's log_globals \<Rightarrow> 's log_globals" where
  "setLogLevel level g = g\<lparr>g_logLevel := level\<rparr>"

definition setOutput :: "(string \<Rightarrow> 's \<Rightarrow> 's outcome) \<Rightarrow> 's log_globals \<Rightarrow> 's log_globals" where
  "setOutput out g = g\<lparr>g_output := out\<rparr>"

definition setFlush :: "('s \<Rightarrow> 's outcome) \<Rightarrow> 's log_globals \<Rightarrow> 's log_globals" where
  "setFlush flush g = g\<lparr>g_flush := flush\<rparr>"

text \<open>Standard output: what \<open>fwrite\<close> has taken, \<open>wrote s msg\<close> bytes of a message, and how much of it is flushed.\<close>

record console =
  out_text :: string
  out_flushed :: nat

definition defaultOutput :: "(console \<Rightarrow> string \<Rightarrow> nat) \<Rightarrow> string \<Rightarrow> console \<Rightarrow> console outcome" where
  "defaultOutput wrote msg s = Inr (s\<lparr>out_text := out_text s @ take (wrote s msg) msg\<rparr>)"

definition defaultFlush :: "console \<Rightarrow> console outcome" where
  "defaultFlush s = Inr (s\<lparr>out_flushed := length (out_text s)\<rparr>)"

section \<open>The logger\<close>

record logger =
  lg_time :: timestamp
  lg_stream :: log_stream
  lg_level :: log_level
  lg_line :: "32 word"
  lg_basename :: source_file

text \<open>\<open>stream << T(str, len)\<close> and \<open>stream << SourceFile\<close>.\<close>

definition ls_T :: "string \<Rightarrow> 32 word \<Rightarrow> log_stream \<Rightarrow> log_stream outcome" where
  "ls_T str len b = ls_append str len b"

definition ls_source_file :: "source_file \<Rightarrow> log_stream \<Rightarrow> log_stream outcome" where
  "ls_source_file v b = ls_append (sf_data v @ [NUL]) (of_int (sf_size v)) b"

definition clock_text :: "tm \<Rightarrow> string" where
  "clock_text tm_time =
     fmt_spaces 4 (tm_year tm_time + 1900) @ ''/'' @ fmt_zeros 2 (tm_mon tm_time + 1) @ ''/'' @
     fmt_zeros 2 (tm_mday tm_time) @ '' '' @ fmt_zeros 2 (tm_hour tm_time) @ '':'' @
     fmt_zeros 2 (tm_min tm_time) @ '':'' @ fmt_zeros 2 (tm_sec tm_time)"

definition formatTime :: "log_env \<Rightarrow> log_thread \<Rightarrow> log_stream \<Rightarrow> (log_thread \<times> log_stream) outcome" where
  "formatTime env thr b =
     (let now = sint (microSecondsSinceEpoch (timestamp_now (env_now env)));
          seconds = of_int (now sdiv kMicroSecondsPerSecond);
          microseconds = now smod kMicroSecondsPerSecond;
          tm_time = env_localtime env seconds;
          time_buf = blit (t_time thr) 0 (snprintf 64 (clock_text tm_time) @ [NUL]);
          buf = blit (replicate 32 NUL) 0 (snprintf 32 (fmt_zeros 6 microseconds @ '' '') @ [NUL])
      in bindR (ls_T time_buf 17 b) (\<lambda>b.
         bindR (ls_T buf 7 b) (\<lambda>b.
         Inr (\<lparr>t_time = time_buf, t_lastSecond = seconds\<rparr>, b))))"

text \<open>The constructor of \<open>Impl\<close>. \<open>T(std::to_string(tid))\<close> points into a string that lives to the end of
  the statement.\<close>

definition new_impl ::
  "log_env \<Rightarrow> log_level \<Rightarrow> 32 word \<Rightarrow> source_file \<Rightarrow> 32 word \<Rightarrow> log_thread \<Rightarrow> (log_thread \<times> logger) outcome" where
  "new_impl env level savedErrno file line thr =
     bindR (formatTime env thr new_log_stream) (\<lambda>(thr, b).
     bindR (ls_T (show_int (env_tid env) @ [NUL]) (of_nat (length (show_int (env_tid env)))) b) (\<lambda>b.
     bindR (ls_T (LogLevelName ! level_index level @ [NUL]) 6 b) (\<lambda>b.
     bindR (if savedErrno \<noteq> 0
            then foldR ls_out [CString (Some (getErrnoMsg env savedErrno)), CString (Some '' (errno=''), SInt savedErrno,
                   CString (Some '') '')] b
            else Inr b) (\<lambda>b.
     Inr (thr, \<lparr>lg_time = timestamp_now (env_created env), lg_stream = b, lg_level = level, lg_line = line,
       lg_basename = file\<rparr>)))))"

definition impl_finish :: "logger \<Rightarrow> logger outcome" where
  "impl_finish lg =
     bindR (ls_out (CString (Some '' - '')) (lg_stream lg)) (\<lambda>b.
     bindR (ls_source_file (lg_basename lg) b) (\<lambda>b.
     bindR (foldR ls_out [Char (CHR '':''), SInt (lg_line lg), Char (CHR 0x0A)] b) (\<lambda>b.
     Inr (lg\<lparr>lg_stream := b\<rparr>))))"

text \<open>The three constructors of \<open>Logger\<close>: file and line; with a level; with a level and a function.\<close>

definition new_logger :: "log_env \<Rightarrow> log_thread \<Rightarrow> (log_thread \<times> logger) outcome" where
  "new_logger env thr = new_impl env INFO 0 (source_file_array (env_file env)) (env_line env) thr"

definition new_logger_level :: "log_env \<Rightarrow> log_level \<Rightarrow> log_thread \<Rightarrow> (log_thread \<times> logger) outcome" where
  "new_logger_level env level thr = new_impl env level 0 (source_file_array (env_file env)) (env_line env) thr"

definition new_logger_func :: "log_env \<Rightarrow> log_level \<Rightarrow> log_thread \<Rightarrow> (log_thread \<times> logger) outcome" where
  "new_logger_func env level thr =
     bindR (new_impl env level 0 (source_file_array (env_file env)) (env_line env) thr) (\<lambda>(thr, lg).
     bindR (foldR ls_out [CString (Some (env_func env)), Char (CHR '' '')] (lg_stream lg)) (\<lambda>b.
     Inr (thr, lg\<lparr>lg_stream := b\<rparr>)))"

text \<open>The destructor; \<open>True\<close> when the process aborts afterwards.\<close>

definition delete_logger :: "'s log_globals \<Rightarrow> logger \<Rightarrow> 's \<Rightarrow> (bool \<times> 's) outcome" where
  "delete_logger g lg s =
     bindR (impl_finish lg) (\<lambda>lg.
     bindR (g_output g (fb_content (lg_stream lg)) s) (\<lambda>s.
     if lg_level lg = FATAL then bindR (g_flush g s) (\<lambda>s. Inr (True, s)) else Inr (False, s)))"

section \<open>The macros\<close>

text \<open>A whole statement: the logger of a constructor, what is done to its stream, and the destructor.\<close>

definition log_statement ::
  "'s log_globals \<Rightarrow> (log_thread \<Rightarrow> (log_thread \<times> logger) outcome) \<Rightarrow> (log_stream \<Rightarrow> log_stream outcome) \<Rightarrow>
   log_thread \<Rightarrow> 's \<Rightarrow> (bool \<times> log_thread \<times> 's) outcome" where
  "log_statement g new_one body thr s =
     bindR (new_one thr) (\<lambda>(thr, lg).
     bindR (body (lg_stream lg)) (\<lambda>b.
     bindR (delete_logger g (lg\<lparr>lg_stream := b\<rparr>) s) (\<lambda>(aborts, s). Inr (aborts, thr, s))))"

definition LOG_DEBUG :: "'s log_globals \<Rightarrow> log_env \<Rightarrow> log_arg list \<Rightarrow> log_thread \<Rightarrow> 's \<Rightarrow> (bool \<times> log_thread \<times> 's) outcome" where
  "LOG_DEBUG g env args thr s =
     (if level_index (logLevel g) \<le> level_index DEBUG
      then log_statement g (new_logger_func env DEBUG) (foldR ls_out args) thr s else Inr (False, thr, s))"

definition LOG_INFO :: "'s log_globals \<Rightarrow> log_env \<Rightarrow> log_arg list \<Rightarrow> log_thread \<Rightarrow> 's \<Rightarrow> (bool \<times> log_thread \<times> 's) outcome" where
  "LOG_INFO g env args thr s =
     (if level_index (logLevel g) \<le> level_index INFO
      then log_statement g (new_logger env) (foldR ls_out args) thr s else Inr (False, thr, s))"

definition LOG_ERROR :: "'s log_globals \<Rightarrow> log_env \<Rightarrow> log_arg list \<Rightarrow> log_thread \<Rightarrow> 's \<Rightarrow> (bool \<times> log_thread \<times> 's) outcome" where
  "LOG_ERROR g env args thr s = log_statement g (new_logger_level env ERROR) (foldR ls_out args) thr s"

definition LOG_FATAL :: "'s log_globals \<Rightarrow> log_env \<Rightarrow> log_arg list \<Rightarrow> log_thread \<Rightarrow> 's \<Rightarrow> (bool \<times> log_thread \<times> 's) outcome" where
  "LOG_FATAL g env args thr s = log_statement g (new_logger_level env FATAL) (foldR ls_out args) thr s"

text \<open>\<open>LOG_FMT_INFO\<close>, \<open>LOG_FMT_ERROR\<close> and \<open>LOG_FMT_FATAL\<close>: \<open>shown\<close> is the whole formatted message, of which
  \<open>snprintf\<close> keeps what fits and returns the length.\<close>

definition LOG_FMT ::
  "log_level \<Rightarrow> 's log_globals \<Rightarrow> log_env \<Rightarrow> string \<Rightarrow> log_thread \<Rightarrow> 's \<Rightarrow> (bool \<times> log_thread \<times> 's) outcome" where
  "LOG_FMT level g env shown thr s =
     (let buf = blit (replicate 1024 NUL) 0 (snprintf 1024 shown @ [NUL]); cnt = length shown in
      if cnt \<le> 1024 then log_statement g (new_logger_level env level) (ls_append buf (of_nat cnt)) thr s
      else Inr (False, thr, s))"

definition LOG_FMT_INFO :: "'s log_globals \<Rightarrow> log_env \<Rightarrow> string \<Rightarrow> log_thread \<Rightarrow> 's \<Rightarrow> (bool \<times> log_thread \<times> 's) outcome" where
  "LOG_FMT_INFO = LOG_FMT INFO"

definition LOG_FMT_ERROR :: "'s log_globals \<Rightarrow> log_env \<Rightarrow> string \<Rightarrow> log_thread \<Rightarrow> 's \<Rightarrow> (bool \<times> log_thread \<times> 's) outcome" where
  "LOG_FMT_ERROR = LOG_FMT ERROR"

definition LOG_FMT_FATAL :: "'s log_globals \<Rightarrow> log_env \<Rightarrow> string \<Rightarrow> log_thread \<Rightarrow> 's \<Rightarrow> (bool \<times> log_thread \<times> 's) outcome" where
  "LOG_FMT_FATAL = LOG_FMT FATAL"


section \<open>The text of a line\<close>

definition basename :: "string \<Rightarrow> string" where
  "basename file = rev (takeWhile (\<lambda>c. c \<noteq> CHR ''/'') (rev file))"

lemma strrchr_basename:
  "(case strrchr s CHR ''/'' of None \<Rightarrow> s | Some slash \<Rightarrow> drop (slash + 1) s) = basename s"
proof (cases "CHR ''/'' \<in> set s")
  case True
  then obtain xs ys where s: "s = xs @ CHR ''/'' # ys" and ys: "CHR ''/'' \<notin> set ys" by (meson split_list_last)
  have t: "takeWhile (\<lambda>c. c \<noteq> CHR ''/'') (rev s) = rev ys"
    unfolding s using ys by (simp, subst takeWhile_append2) auto
  have "strrchr s CHR ''/'' = Some (length xs)" using True by (simp add: strrchr_def t) (simp add: s)
  moreover have "basename s = ys" using t by (simp add: basename_def)
  ultimately show ?thesis by (simp add: s)
next
  case False
  then have "takeWhile (\<lambda>c. c \<noteq> CHR ''/'') (rev s) = rev s" by (auto simp only: takeWhile_eq_all_conv set_rev)
  then have "basename s = s" by (simp only: basename_def rev_rev_ident)
  with False show ?thesis by (simp add: strrchr_def)
qed

lemma strrchr_bound: "strrchr s c = Some i \<Longrightarrow> i < length s"
  by (cases s) (auto simp: strrchr_def split: if_splits)

text \<open>Both ways to make a \<open>SourceFile\<close> give the name behind the last slash.\<close>

lemma source_file_basename:
  "source_file_array file = \<lparr>sf_data = basename file, sf_size = int (length (basename file))\<rparr>"
  "source_file_pointer file = \<lparr>sf_data = basename file, sf_size = int (length (basename file))\<rparr>"
proof -
  show "source_file_array file = \<lparr>sf_data = basename file, sf_size = int (length (basename file))\<rparr>"
  proof (cases "strrchr file CHR ''/''")
    case None
    with strrchr_basename[of "file"] show ?thesis by (simp add: source_file_array_def)
  next
    case (Some slash)
    with strrchr_basename[of "file"] have base: "basename file = drop (slash + 1) file" by simp
    then have "int (length (basename file)) = int (length file) - int (slash + 1)"
      using strrchr_bound[OF Some] by simp
    with Some base show ?thesis by (simp add: source_file_array_def Let_def)
  qed
  show "source_file_pointer file = \<lparr>sf_data = basename file, sf_size = int (length (basename file))\<rparr>"
    using strrchr_basename[of "file"] by (simp add: source_file_pointer_def Let_def)
qed

text \<open>A stream that holds a text, and what appends to it while there is room for a last number.\<close>

definition holds :: "string \<Rightarrow> log_stream \<Rightarrow> bool" where
  "holds t b \<longleftrightarrow> fb_wf b \<and> fb_capacity b = kSmallBuffer \<and> fb_content b = t"

definition appends :: "string \<Rightarrow> (log_stream \<Rightarrow> log_stream outcome) \<Rightarrow> bool" where
  "appends msg body \<longleftrightarrow> (\<forall>t b. holds t b \<and> length t + length msg + kMaxNumericSize \<le> kSmallBuffer \<longrightarrow>
     (\<exists>b'. body b = Inr b' \<and> holds (t @ msg) b'))"

lemma appendsD:
  "appends msg body \<Longrightarrow> holds t b \<Longrightarrow> length t + length msg + kMaxNumericSize \<le> kSmallBuffer \<Longrightarrow>
     \<exists>b'. body b = Inr b' \<and> holds (t @ msg) b'"
  by (simp add: appends_def)

lemma holds_new: "holds [] new_log_stream"
  by (simp add: holds_def new_log_stream_def fb_capacity_def new_fixed_buffer_def fb_wf_def fb_content_def)

lemma appends_outs: "\<forall>a \<in> set args. arg_ok a \<Longrightarrow> appends (concat (map arg_text args)) (foldR ls_out args)"
  using ls_outs_step lines_fit by (fastforce simp: appends_def holds_def)

lemma appends_out: "arg_ok a \<Longrightarrow> appends (arg_text a) (ls_out a)"
  using ls_out_step line_out_fits by (fastforce simp: appends_def holds_def)

lemma unat_scast_small: "n < 2 ^ 31 \<Longrightarrow> unat (scast (of_nat n :: 32 word) :: 64 word) = n"
proof -
  assume n: "n < 2 ^ 31"
  then have "(scast (of_nat n :: 32 word) :: 64 word) = of_nat n" by (simp add: scast_eq sint_small)
  moreover have "unat (of_nat n :: 64 word) = n" using n by (simp add: unsigned_of_nat take_bit_nat_eq_self)
  ultimately show ?thesis by simp
qed

lemma appends_ls_append:
  assumes "n \<le> length str"
  shows "appends (take n str) (ls_append str (of_nat n))"
  unfolding appends_def
proof (intro allI impI, elim conjE)
  fix t b
  assume h: "holds t b" and fits: "length t + length (take n str) + kMaxNumericSize \<le> kSmallBuffer"
  then have n: "n < 2 ^ 31" using assms by (simp add: kSmallBuffer_def min_def split: if_splits)
  have "length (take n str) = n" using assms by simp
  with put_text[of b "take n str" "drop n str"] h n fits
  show "\<exists>b'. ls_append str (of_nat n) b = Inr b' \<and> holds (t @ take n str) b'"
    unfolding ls_append_def unat_scast_small[OF n] by (auto simp: holds_def kMaxNumericSize_def)
qed

lemma appends_T: "n \<le> length str \<Longrightarrow> appends (take n str) (ls_T str (of_nat n))"
  using appends_ls_append[of n str] by (simp add: ls_T_def[abs_def])

lemma appends_source_file: "appends (basename file) (ls_source_file (source_file_array file))"
  using appends_ls_append[of "length (basename file)" "basename file @ [NUL]"]
  by (simp add: appends_def ls_source_file_def source_file_basename)


text \<open>A calendar time whose year has four digits, and what \<open>T(t_time, 17)\<close> keeps of it: the seconds are
  cut off.\<close>

definition tm_ok :: "tm \<Rightarrow> bool" where
  "tm_ok t \<longleftrightarrow> 0 \<le> tm_year t + 1900 \<and> tm_year t + 1900 < 10 ^ 4 \<and> 0 \<le> tm_mon t \<and> tm_mon t < 12 \<and>
     0 \<le> tm_mday t \<and> tm_mday t < 32 \<and> 0 \<le> tm_hour t \<and> tm_hour t < 24 \<and> 0 \<le> tm_min t \<and> tm_min t < 60 \<and>
     0 \<le> tm_sec t \<and> tm_sec t \<le> 60"

definition date_text :: "tm \<Rightarrow> string" where
  "date_text t = fmt_spaces 4 (tm_year t + 1900) @ ''/'' @ fmt_zeros 2 (tm_mon t + 1) @ ''/'' @
     fmt_zeros 2 (tm_mday t) @ '' '' @ fmt_zeros 2 (tm_hour t) @ '':'' @ fmt_zeros 2 (tm_min t) @ '':''"

lemma two_digits: "0 \<le> i \<Longrightarrow> i < 100 \<Longrightarrow> length (fmt_zeros 2 i) = 2"
  using length_show_int[of i 2] by (simp add: length_fmt_zeros)

lemma length_date_text: "tm_ok t \<Longrightarrow> length (date_text t) = 17"
  using length_show_int[of "tm_year t + 1900" 4]
  by (simp add: tm_ok_def date_text_def two_digits length_fmt_spaces)

lemma clock_text_cut: "clock_text t = date_text t @ fmt_zeros 2 (tm_sec t)"
  by (simp add: clock_text_def date_text_def)

lemma take_blit_0: "n \<le> length src \<Longrightarrow> take n (blit dst 0 src) = take n src"
  by (simp add: blit_def)

definition env_micros :: "log_env \<Rightarrow> int" where
  "env_micros env = sint (env_now env) smod kMicroSecondsPerSecond"

definition env_tm :: "log_env \<Rightarrow> tm" where
  "env_tm env = env_localtime env (of_int (sint (env_now env) sdiv kMicroSecondsPerSecond))"

definition time_text :: "log_env \<Rightarrow> string" where
  "time_text env = date_text (env_tm env) @ fmt_zeros 6 (env_micros env) @ '' ''"

lemma length_micros: "0 \<le> sint (env_now env) \<Longrightarrow> length (fmt_zeros 6 (env_micros env)) = 6"
  using length_show_int[of "env_micros env" 6]
  by (simp add: env_micros_def kMicroSecondsPerSecond_def signed_modulo_int_def sgn_if length_fmt_zeros)

lemma formatTime_step:
  assumes tm: "tm_ok (env_tm env)" and now: "0 \<le> sint (env_now env)"
  shows "\<exists>thr' b. formatTime env thr new_log_stream = Inr (thr', b) \<and> holds (time_text env) b"
proof -
  let ?clock = "blit (t_time thr) 0 (snprintf 64 (clock_text (env_tm env)) @ [NUL])"
  let ?buf = "blit (replicate 32 NUL) 0 (snprintf 32 (fmt_zeros 6 (env_micros env) @ '' '') @ [NUL])"
  have sec: "length (fmt_zeros 2 (tm_sec (env_tm env))) = 2" using tm by (simp add: tm_ok_def two_digits)
  have lc: "snprintf 64 (clock_text (env_tm env)) = clock_text (env_tm env)"
    by (intro snprintf_fits) (simp add: clock_text_cut length_date_text[OF tm] sec)
  have lb: "snprintf 32 (fmt_zeros 6 (env_micros env) @ '' '') = fmt_zeros 6 (env_micros env) @ '' ''"
    by (intro snprintf_fits) (simp add: length_micros[OF now])
  have c: "take 17 ?clock = date_text (env_tm env)" "17 \<le> length ?clock"
    unfolding lc by (simp_all add: take_blit_0 clock_text_cut length_date_text[OF tm])
      (simp add: blit_def length_date_text[OF tm])
  have m: "take 7 ?buf = fmt_zeros 6 (env_micros env) @ '' ''" "7 \<le> length ?buf"
    unfolding lb by (simp_all add: take_blit_0 length_micros[OF now])
  from appendsD[OF appends_T[OF c(2)] holds_new] obtain b1 where b1: "ls_T ?clock 17 new_log_stream = Inr b1"
    "holds (date_text (env_tm env)) b1"
    unfolding c(1) by (auto simp: length_date_text[OF tm] kMaxNumericSize_def kSmallBuffer_def)
  from appendsD[OF appends_T[OF m(2)] b1(2)] obtain b2 where "ls_T ?buf 7 b1 = Inr b2" "holds (time_text env) b2"
    unfolding m(1) by (auto simp: length_date_text[OF tm] length_micros[OF now] kMaxNumericSize_def
        kSmallBuffer_def time_text_def)
  with b1(1) show ?thesis
    by (simp add: formatTime_def Let_def timestamp_now_def env_tm_def env_micros_def)
qed


definition line_header :: "log_env \<Rightarrow> log_level \<Rightarrow> string" where
  "line_header env level = time_text env @ show_int (env_tid env) @ LogLevelName ! level_index level"

definition trailer_text :: "log_env \<Rightarrow> string" where
  "trailer_text env = '' - '' @ basename (env_file env) @ '':'' @ show_int (sint (env_line env)) @ [CHR 0x0A]"

definition line_text :: "log_env \<Rightarrow> log_level \<Rightarrow> string \<Rightarrow> string" where
  "line_text env level msg = line_header env level @ msg @ trailer_text env"

definition fits_line :: "log_env \<Rightarrow> log_level \<Rightarrow> string \<Rightarrow> bool" where
  "fits_line env level msg \<longleftrightarrow> tm_ok (env_tm env) \<and> 0 \<le> sint (env_now env) \<and>
     length (line_text env level msg) + kMaxNumericSize \<le> kSmallBuffer"

lemma level_name: "length (LogLevelName ! level_index level) = 6"
  by (cases level) (simp_all add: LogLevelName_def)

lemma new_impl_step:
  assumes tm: "tm_ok (env_tm env)" and now: "0 \<le> sint (env_now env)"
    and fits: "length (line_header env level) + kMaxNumericSize \<le> kSmallBuffer"
  shows "\<exists>thr' lg. new_impl env level 0 f line thr = Inr (thr', lg) \<and> holds (line_header env level) (lg_stream lg) \<and>
    lg_level lg = level \<and> lg_line lg = line \<and> lg_basename lg = f"
proof -
  obtain thr1 b1 where b1: "formatTime env thr new_log_stream = Inr (thr1, b1)" "holds (time_text env) b1"
    using formatTime_step[OF tm now] by blast
  let ?tid = "show_int (env_tid env)" and ?name = "LogLevelName ! level_index level"
  have "length ?tid \<le> length (?tid @ [NUL])" by simp
  from appendsD[OF appends_T[OF this] b1(2)] fits obtain b2
    where b2: "ls_T (?tid @ [NUL]) (of_nat (length ?tid)) b1 = Inr b2" "holds (time_text env @ ?tid) b2"
    by (auto simp: line_header_def)
  have "6 \<le> length (?name @ [NUL])" "take 6 (?name @ [NUL]) = ?name" by (simp_all add: level_name)
  from appendsD[OF appends_T[OF this(1)] b2(2)] fits this(2) obtain b3
    where "ls_T (?name @ [NUL]) 6 b2 = Inr b3" "holds (line_header env level) b3"
    by (auto simp: line_header_def level_name)
  with b1(1) b2(1) show ?thesis by (simp add: new_impl_def)
qed

lemma impl_finish_step:
  assumes h: "holds t (lg_stream lg)" and base: "lg_basename lg = source_file_array (env_file env)"
    and line: "lg_line lg = env_line env" and fits: "length t + length (trailer_text env) + kMaxNumericSize \<le> kSmallBuffer"
  shows "\<exists>b. impl_finish lg = Inr (lg\<lparr>lg_stream := b\<rparr>) \<and> holds (t @ trailer_text env) b"
proof -
  let ?base = "basename (env_file env)"
  have ok: "arg_ok (CString (Some '' - ''))" "\<forall>a \<in> set [Char (CHR '':''), SInt (env_line env), Char (CHR 0x0A)]. arg_ok a"
    using arg_ok_number[of "SInt (env_line env)"] by (simp_all add: arg_ok_def)
  from appendsD[OF appends_out[OF ok(1)] h] fits obtain b1
    where b1: "ls_out (CString (Some '' - '')) (lg_stream lg) = Inr b1" "holds (t @ '' - '') b1"
    by (auto simp: trailer_text_def)
  from appendsD[OF appends_source_file b1(2), of "env_file env"] fits obtain b2
    where b2: "ls_source_file (lg_basename lg) b1 = Inr b2" "holds (t @ '' - '' @ ?base) b2"
    by (auto simp: trailer_text_def base)
  from appendsD[OF appends_outs[OF ok(2)] b2(2)] fits obtain b3
    where "foldR ls_out [Char (CHR '':''), SInt (lg_line lg), Char (CHR 0x0A)] b2 = Inr b3"
      "holds (t @ trailer_text env) b3"
    by (auto simp: trailer_text_def line)
  with b1(1) b2(1) show ?thesis by (intro exI[of _ b3]) (simp add: impl_finish_def)
qed

text \<open>A logger as one of the constructors leaves it.\<close>

definition starts :: "log_env \<Rightarrow> log_level \<Rightarrow> string \<Rightarrow> (log_thread \<Rightarrow> (log_thread \<times> logger) outcome) \<Rightarrow> log_thread \<Rightarrow> bool" where
  "starts env level pre new_one thr \<longleftrightarrow> (\<exists>thr' lg. new_one thr = Inr (thr', lg) \<and>
     holds (line_header env level @ pre) (lg_stream lg) \<and> lg_level lg = level \<and> lg_line lg = env_line env \<and>
     lg_basename lg = source_file_array (env_file env))"

lemma log_statement_step:
  assumes st: "starts env level pre new_one thr" and body: "appends msg body"
    and fits: "length (line_text env level (pre @ msg)) + kMaxNumericSize \<le> kSmallBuffer"
  shows "\<exists>thr'. log_statement g new_one body thr s =
    bindR (g_output g (line_text env level (pre @ msg)) s) (\<lambda>s.
      if level = FATAL then bindR (g_flush g s) (\<lambda>s. Inr (True, thr', s)) else Inr (False, thr', s))"
proof -
  from st obtain thr' lg where n: "new_one thr = Inr (thr', lg)" "holds (line_header env level @ pre) (lg_stream lg)"
    "lg_level lg = level" "lg_line lg = env_line env" "lg_basename lg = source_file_array (env_file env)"
    unfolding starts_def by blast
  from appendsD[OF body n(2)] fits obtain b where b: "body (lg_stream lg) = Inr b" "holds (line_header env level @ pre @ msg) b"
    by (auto simp: line_text_def)
  have "holds (line_header env level @ pre @ msg) (lg_stream (lg\<lparr>lg_stream := b\<rparr>))" using b(2) by simp
  from impl_finish_step[OF this, of env] n fits obtain b' where f: "impl_finish (lg\<lparr>lg_stream := b\<rparr>) = Inr (lg\<lparr>lg_stream := b'\<rparr>)"
    "holds (line_text env level (pre @ msg)) b'"
    by (auto simp: line_text_def add.assoc)
  have c: "fb_content b' = line_text env level (pre @ msg)" using f(2) by (simp add: holds_def)
  have "log_statement g new_one body thr s =
    bindR (g_output g (line_text env level (pre @ msg)) s) (\<lambda>s.
      if level = FATAL then bindR (g_flush g s) (\<lambda>s. Inr (True, thr', s)) else Inr (False, thr', s))"
    unfolding log_statement_def n(1) bindR_simps prod.case b(1) delete_logger_def f(1)
    by (cases "level = FATAL") (simp_all add: c n(3) bindR_assoc)
  then show ?thesis by blast
qed


lemma starts_level:
  assumes "tm_ok (env_tm env)" "0 \<le> sint (env_now env)" "length (line_header env level) + kMaxNumericSize \<le> kSmallBuffer"
  shows "starts env level [] (new_logger_level env level) thr"
  using new_impl_step[OF assms, of "source_file_array (env_file env)" "env_line env" thr]
  by (auto simp: starts_def new_logger_level_def)

lemma starts_info:
  assumes "tm_ok (env_tm env)" "0 \<le> sint (env_now env)" "length (line_header env INFO) + kMaxNumericSize \<le> kSmallBuffer"
  shows "starts env INFO [] (new_logger env) thr"
  using new_impl_step[OF assms, of "source_file_array (env_file env)" "env_line env" thr]
  by (auto simp: starts_def new_logger_def)

lemma starts_func:
  assumes tm: "tm_ok (env_tm env)" and now: "0 \<le> sint (env_now env)"
    and fits: "length (line_header env level) + length (env_func env @ '' '') + kMaxNumericSize \<le> kSmallBuffer"
  shows "starts env level (env_func env @ '' '') (new_logger_func env level) thr"
proof -
  have "length (line_header env level) + kMaxNumericSize \<le> kSmallBuffer" using fits by simp
  from new_impl_step[OF tm now this] obtain thr' lg
    where n: "new_impl env level 0 (source_file_array (env_file env)) (env_line env) thr = Inr (thr', lg)"
      "holds (line_header env level) (lg_stream lg)" "lg_level lg = level" "lg_line lg = env_line env"
      "lg_basename lg = source_file_array (env_file env)" by blast
  let ?args = "[CString (Some (env_func env)), Char (CHR '' '')]"
  have "\<forall>a \<in> set ?args. arg_ok a" using fits by (simp add: arg_ok_def kSmallBuffer_def)
  from appendsD[OF appends_outs[OF this] n(2)] fits obtain b
    where "foldR ls_out ?args (lg_stream lg) = Inr b" "holds (line_header env level @ env_func env @ '' '') b" by auto
  with n show ?thesis
    by (auto simp: starts_def new_logger_func_def simp del: foldR.simps)
qed

lemma line_length: "length (line_text env level msg) = length (line_header env level) + length msg + length (trailer_text env)"
  by (simp add: line_text_def)

lemma header_length: "length (line_header env level) = length (line_header env level')"
  by (simp add: line_header_def level_name)

section \<open>Properties of the logger\<close>

lemma log_statements_facts:
  assumes args: "\<forall>a \<in> set args. arg_ok a"
    and fits: "fits_line env DEBUG (env_func env @ '' '' @ concat (map arg_text args))"
  defines "msg \<equiv> concat (map arg_text args)"
  shows "\<exists>thr'. LOG_ERROR g env args thr s =
      bindR (g_output g (line_text env ERROR msg) s) (\<lambda>s. Inr (False, thr', s))"
    and "\<exists>thr'. LOG_FATAL g env args thr s =
      bindR (g_output g (line_text env FATAL msg) s) (\<lambda>s. bindR (g_flush g s) (\<lambda>s. Inr (True, thr', s)))"
    and "\<exists>thr'. LOG_DEBUG g env args thr s =
      bindR (g_output g (line_text env DEBUG (env_func env @ '' '' @ msg)) s) (\<lambda>s. Inr (False, thr', s))"
    and "\<exists>thr'. LOG_INFO g env args thr s =
      (if g_logLevel g = INFO then bindR (g_output g (line_text env INFO msg) s) (\<lambda>s. Inr (False, thr', s))
       else Inr (False, thr, s))"
proof -
  note body = appends_outs[OF args, folded msg_def]
  have tm: "tm_ok (env_tm env)" and now: "0 \<le> sint (env_now env)"
    and len: "length (line_header env level) + length (env_func env @ '' '' @ msg) + length (trailer_text env) +
      kMaxNumericSize \<le> kSmallBuffer" for level
    using fits header_length[of env level DEBUG] by (simp_all add: fits_line_def line_length msg_def)
  have h: "length (line_header env level) + kMaxNumericSize \<le> kSmallBuffer" for level using len[of level] by simp
  have l: "length (line_text env level ([] @ msg)) + kMaxNumericSize \<le> kSmallBuffer" for level
    using len[of level] by (simp add: line_length)
  from log_statement_step[OF starts_level[OF tm now h] body l, where thr = thr and g = g and s = s and level = ERROR]
  show "\<exists>thr'. LOG_ERROR g env args thr s =
      bindR (g_output g (line_text env ERROR msg) s) (\<lambda>s. Inr (False, thr', s))" by (simp add: LOG_ERROR_def)
  from log_statement_step[OF starts_level[OF tm now h] body l, where thr = thr and g = g and s = s and level = FATAL]
  show "\<exists>thr'. LOG_FATAL g env args thr s =
      bindR (g_output g (line_text env FATAL msg) s) (\<lambda>s. bindR (g_flush g s) (\<lambda>s. Inr (True, thr', s)))"
    by (simp add: LOG_FATAL_def)
  have f: "length (line_header env DEBUG) + length (env_func env @ '' '') + kMaxNumericSize \<le> kSmallBuffer"
    and d: "length (line_text env DEBUG ((env_func env @ '' '') @ msg)) + kMaxNumericSize \<le> kSmallBuffer"
    using len[of DEBUG] by (simp_all add: line_length)
  have "level_index (logLevel g) \<le> level_index DEBUG" by (cases "logLevel g") simp_all
  with log_statement_step[OF starts_func[OF tm now f] body d, where thr = thr and g = g and s = s]
  show "\<exists>thr'. LOG_DEBUG g env args thr s =
      bindR (g_output g (line_text env DEBUG (env_func env @ '' '' @ msg)) s) (\<lambda>s. Inr (False, thr', s))"
    by (simp add: LOG_DEBUG_def)
  have "level_index (logLevel g) \<le> level_index INFO \<longleftrightarrow> g_logLevel g = INFO"
    by (cases "g_logLevel g") (simp_all add: logLevel_def)
  with log_statement_step[OF starts_info[OF tm now h] body l, where thr = thr and g = g and s = s]
  show "\<exists>thr'. LOG_INFO g env args thr s =
      (if g_logLevel g = INFO then bindR (g_output g (line_text env INFO msg) s) (\<lambda>s. Inr (False, thr', s))
       else Inr (False, thr, s))"
    by (auto simp: LOG_INFO_def)
qed

text \<open>C24: A log statement hands one line to the output function: date, microseconds, thread, level, the function
  for \<open>LOG_DEBUG\<close>, the message, and the place. \<open>LOG_FATAL\<close> flushes after it and aborts. The level of the
  library suppresses \<open>LOG_INFO\<close> when it is not \<open>INFO\<close> and never \<open>LOG_DEBUG\<close>.\<close>

theorem log_statements_print:
  assumes "\<forall>a \<in> set args. arg_ok a"
    and "fits_line env DEBUG (env_func env @ '' '' @ concat (map arg_text args))"
  defines "msg \<equiv> concat (map arg_text args)"
  shows "\<exists>te tf td ti.
    LOG_ERROR g env args thr s =
      bindR (g_output g (line_text env ERROR msg) s) (\<lambda>s. Inr (False, te, s)) \<and>
    LOG_FATAL g env args thr s =
      bindR (g_output g (line_text env FATAL msg) s) (\<lambda>s. bindR (g_flush g s) (\<lambda>s. Inr (True, tf, s))) \<and>
    LOG_DEBUG g env args thr s =
      bindR (g_output g (line_text env DEBUG (env_func env @ '' '' @ msg)) s) (\<lambda>s. Inr (False, td, s)) \<and>
    LOG_INFO g env args thr s =
      (if g_logLevel g = INFO then bindR (g_output g (line_text env INFO msg) s) (\<lambda>s. Inr (False, ti, s))
       else Inr (False, thr, s))"
  using log_statements_facts[OF assms(1,2), of g thr s] unfolding msg_def by blast

text \<open>The line of a level carries the name of the level before it in \<open>LogLevelName\<close>, whose entries follow
  another enumeration: an error is printed as INFO, a fatal error as WARN, and debug output as ERROR.\<close>

lemma level_names_shifted:
  "map (\<lambda>l. LogLevelName ! level_index l) [INFO, ERROR, FATAL, DEBUG] = [''DEBUG '', ''INFO  '', ''WARN  '', ''ERROR '']"
  by (simp add: LogLevelName_def)

text \<open>The formatting macros hand over the whole message up to 1023 characters. At 1024 the last one is the
  NUL of the array; from 1025 on nothing is logged at all, and \<open>LOG_FMT_FATAL\<close> does not abort.\<close>

theorem log_fmt_lengths:
  assumes "fits_line env level (replicate 1024 (CHR ''x''))"
  shows "if 1024 < length shown then LOG_FMT level g env shown thr s = Inr (False, thr, s)
    else \<exists>thr'. LOG_FMT level g env shown thr s =
      bindR (g_output g (line_text env level (if length shown = 1024 then take 1023 shown @ [CHR 0x00] else shown)) s)
        (\<lambda>s. if level = FATAL then bindR (g_flush g s) (\<lambda>s. Inr (True, thr', s)) else Inr (False, thr', s))"
proof (cases "1024 < length shown")
  case True
  then show ?thesis by (simp add: LOG_FMT_def)
next
  case False
  let ?buf = "blit (replicate 1024 NUL) 0 (snprintf 1024 shown @ [NUL])" and ?n = "length shown"
  let ?msg = "if ?n = 1024 then take 1023 shown @ [CHR 0x00] else shown"
  have n: "?n \<le> length ?buf" and msg: "take ?n ?buf = ?msg"
    using False by (auto simp: blit_def snprintf_def NUL_def)
  have tm: "tm_ok (env_tm env)" and now: "0 \<le> sint (env_now env)"
    and l: "length (line_text env level ([] @ ?msg)) + kMaxNumericSize \<le> kSmallBuffer"
    using assms False by (auto simp: fits_line_def line_length)
  have h: "length (line_header env level) + kMaxNumericSize \<le> kSmallBuffer" using l by (simp add: line_length)
  from log_statement_step[OF starts_level[OF tm now h] appends_ls_append[OF n, unfolded msg] l,
      where thr = thr and g = g and s = s] False
  show ?thesis by (simp add: LOG_FMT_def Let_def)
qed


section \<open>A statement on a concrete thread\<close>

definition demo_log_env :: log_env where
  "demo_log_env = \<lparr>env_file = ''/home/a/Test.cc'', env_line = 12, env_func = ''main'', env_tid = 7, env_created = 5, env_now = 5,
     env_localtime = (\<lambda>_. \<lparr>tm_year = 124, tm_mon = 0, tm_mday = 2, tm_hour = 3, tm_min = 4, tm_sec = 5\<rparr>),
     env_strerror = (\<lambda>_. '''')\<rparr>"

definition demo_thread :: log_thread where
  "demo_thread = \<lparr>t_time = replicate 64 NUL, t_lastSecond = 0\<rparr>"

definition demo_globals :: "console log_globals" where
  "demo_globals = \<lparr>g_logLevel = initLogLevel, g_output = defaultOutput (\<lambda>_. length), g_flush = defaultFlush\<rparr>"

lemma demo_header: "line_header demo_log_env level = ''2024/01/02 03:04:000005 7'' @ LogLevelName ! level_index level"
proof -
  have tm: "env_tm demo_log_env = \<lparr>tm_year = 124, tm_mon = 0, tm_mday = 2, tm_hour = 3, tm_min = 4, tm_sec = 5\<rparr>"
    by (simp add: env_tm_def demo_log_env_def)
  have us: "env_micros demo_log_env = 5"
    by (simp add: env_micros_def demo_log_env_def kMicroSecondsPerSecond_def signed_modulo_int_def)
  have "date_text \<lparr>tm_year = 124, tm_mon = 0, tm_mday = 2, tm_hour = 3, tm_min = 4, tm_sec = 5\<rparr> @
      fmt_zeros 6 5 @ '' '' @ show_int 7 = ''2024/01/02 03:04:000005 7''" by code_simp
  then show ?thesis by (simp add: line_header_def time_text_def tm us) (simp add: demo_log_env_def)
qed

lemma demo_trailer: "trailer_text demo_log_env = '' - Test.cc:12'' @ [CHR 0x0A]"
proof -
  have "'' - '' @ basename ''/home/a/Test.cc'' @ '':'' @ show_int 12 @ [CHR 0x0A] = '' - Test.cc:12'' @ [CHR 0x0A]"
    by code_simp
  then show ?thesis by (simp add: trailer_text_def demo_log_env_def)
qed

lemma demo_fits: "length msg \<le> 2000 \<Longrightarrow> fits_line demo_log_env level msg"
  by (simp add: fits_line_def line_length demo_trailer demo_header level_name kMaxNumericSize_def kSmallBuffer_def)
    (simp add: env_tm_def demo_log_env_def tm_ok_def)

theorem log_statements_print_witness:
  "\<exists>thr'. LOG_FATAL demo_globals demo_log_env [Str ''no '', SInt 5] demo_thread \<lparr>out_text = [], out_flushed = 0\<rparr>
    = Inr (True, thr', \<lparr>out_text = ''2024/01/02 03:04:000005 7WARN  no 5 - Test.cc:12'' @ [CHR 0x0A], out_flushed = 49\<rparr>)"
proof -
  let ?args = "[Str ''no '', SInt 5]"
  have num: "show_int 5 = ''5''" by code_simp
  have args: "\<forall>a \<in> set ?args. arg_ok a" using arg_ok_number[of "SInt 5"] by (simp add: arg_ok_def)
  have "fits_line demo_log_env DEBUG (env_func demo_log_env @ '' '' @ concat (map arg_text ?args))"
    by (rule demo_fits) (simp add: num demo_log_env_def)
  from log_statements_print[OF args this, of demo_globals demo_thread
      "\<lparr>out_text = [], out_flushed = 0\<rparr>"]
  show ?thesis
    by (auto simp: line_text_def demo_header demo_trailer num LogLevelName_def demo_globals_def defaultOutput_def
        defaultFlush_def)
qed

theorem log_fmt_lengths_witness:
  "LOG_FMT_FATAL demo_globals demo_log_env (replicate 1025 (CHR ''y'')) demo_thread \<lparr>out_text = [], out_flushed = 0\<rparr>
     = Inr (False, demo_thread, \<lparr>out_text = [], out_flushed = 0\<rparr>) \<and>
   (\<exists>thr'. LOG_FMT_FATAL demo_globals demo_log_env ''out'' demo_thread \<lparr>out_text = [], out_flushed = 0\<rparr>
     = Inr (True, thr', \<lparr>out_text = ''2024/01/02 03:04:000005 7WARN  out - Test.cc:12'' @ [CHR 0x0A], out_flushed = 48\<rparr>))"
proof -
  have f: "fits_line demo_log_env FATAL (replicate 1024 (CHR ''x''))" by (rule demo_fits) simp
  note p = log_fmt_lengths[OF f, where g = demo_globals and thr = demo_thread
      and s = "\<lparr>out_text = [], out_flushed = 0\<rparr>"]
  from p[of "replicate 1025 (CHR ''y'')"] p[of "''out''"] show ?thesis
    by (auto simp: LOG_FMT_FATAL_def line_text_def demo_header demo_trailer LogLevelName_def demo_globals_def
        defaultOutput_def defaultFlush_def)
qed

end
