(* ===== verification/Log_File.thy ===== *)
theory Log_File
  imports Prelude
begin

text \<open>
  \<open>AppendFile\<close> and \<open>LogFile\<close> (mymuduo/include/mymuduo/FileUtil.h, LogFile.h, mymuduo/src/FileUtil.cc, LogFile.cc).
  The C library's answers to \<open>fwrite_unlocked\<close> and \<open>ferror\<close> are functions of the calls on the stream so far;
  what the file has got is read off these calls. The members of \<open>LogFile\<close> run under its mutex, as one
  step each. \<open>log_destination\<close> is what the asynchronous log relies on.
\<close>

section \<open>AppendFile\<close>

datatype file_event = Fopen string | Setbuffer nat | Fwrite string nat | ErrorMessage | Fflush | Fclose

record file_env =
  fwrite_answer :: "file_event list \<Rightarrow> string \<Rightarrow> nat"
  ferror_answer :: "file_event list \<Rightarrow> bool"

type_synonym append_file = "file_event list"

text \<open>\<open>fopened\<close> tells whether \<open>fopen\<close> gave a stream; \<open>setbuffer\<close> follows the pointer.\<close>

definition new_append_file :: "bool \<Rightarrow> string \<Rightarrow> append_file outcome" where
  "new_append_file fopened filename =
     (if fopened then Inr [Fopen filename, Setbuffer (64 * 1024)] else Inl NullDeref)"

definition delete_append_file :: "append_file \<Rightarrow> append_file" where
  "delete_append_file f = f @ [Fclose]"

text \<open>\<open>write\<close> gives the number of bytes taken, which is at most that asked for.\<close>

definition af_write :: "file_env \<Rightarrow> string \<Rightarrow> append_file \<Rightarrow> nat \<times> append_file" where
  "af_write env logline f =
     (let n = min (fwrite_answer env f logline) (length logline) in (n, f @ [Fwrite logline n]))"

text \<open>The loop of \<open>append\<close>, with \<open>n\<close> bytes of the line taken so far.\<close>

function af_rest :: "file_env \<Rightarrow> string \<Rightarrow> nat \<Rightarrow> append_file \<Rightarrow> append_file" where
  "af_rest env logline n f =
     (if length logline - n > 0
      then let (x, f) = af_write env (drop n logline) f in
        if x = 0 then (if ferror_answer env f then f @ [ErrorMessage] else f)
        else af_rest env logline (n + x) f
      else f)"
  by pat_completeness auto
termination
  by (relation "measure (\<lambda>(env, logline, n, f). length logline - n)") (auto simp: af_write_def Let_def)

declare af_rest.simps [simp del]

definition af_append :: "file_env \<Rightarrow> string \<Rightarrow> append_file \<Rightarrow> append_file" where
  "af_append env logline f = (let (n, f) = af_write env logline f in af_rest env logline n f)"

definition af_flush :: "append_file \<Rightarrow> append_file" where
  "af_flush f = f @ [Fflush]"

section \<open>LogFile\<close>

text \<open>\<open>count\<close> is reset before it can pass \<open>flushEveryN\<close>, so it stays an \<open>int\<close>.\<close>

record log_file =
  lf_basename :: string
  lf_flushEveryN :: int
  lf_count :: int
  lf_file :: append_file

definition new_log_file :: "bool \<Rightarrow> string \<Rightarrow> int \<Rightarrow> log_file outcome" where
  "new_log_file fopened basename flushEveryN =
     bindR (new_append_file fopened basename) (\<lambda>f.
     Inr \<lparr>lf_basename = basename, lf_flushEveryN = flushEveryN, lf_count = 0, lf_file = f\<rparr>)"

definition lf_flush :: "log_file \<Rightarrow> log_file" where
  "lf_flush lf = lf\<lparr>lf_file := af_flush (lf_file lf)\<rparr>"

definition lf_appendInLock :: "file_env \<Rightarrow> string \<Rightarrow> log_file \<Rightarrow> log_file" where
  "lf_appendInLock env logline lf =
     (let lf = lf\<lparr>lf_file := af_append env logline (lf_file lf)\<rparr>;
          lf = lf\<lparr>lf_count := lf_count lf + 1\<rparr>
      in if lf_count lf \<ge> lf_flushEveryN lf
         then lf\<lparr>lf_count := 0, lf_file := af_flush (lf_file lf)\<rparr> else lf)"

definition lf_append :: "file_env \<Rightarrow> string \<Rightarrow> log_file \<Rightarrow> log_file" where
  "lf_append env logline lf = lf_appendInLock env logline lf"

section \<open>What the file has got\<close>

fun event_text :: "file_event \<Rightarrow> string" where
  "event_text (Fwrite s n) = take n s"
| "event_text _ = []"

definition taken :: "append_file \<Rightarrow> string" where
  "taken f = concat (map event_text f)"

text \<open>What was taken before the last flush.\<close>

definition flushed :: "append_file \<Rightarrow> string" where
  "flushed f = taken (rev (dropWhile (\<lambda>e. e \<noteq> Fflush) (rev f)))"

lemma taken_snoc [simp]: "taken (f @ [e]) = taken f @ event_text e"
  by (simp add: taken_def)

lemma flushed_snoc [simp]: "flushed (f @ [e]) = (if e = Fflush then taken f else flushed f)"
  by (simp add: flushed_def)

text \<open>The C library takes at least one byte of each request.\<close>

definition progress :: "file_env \<Rightarrow> bool" where
  "progress env \<longleftrightarrow> (\<forall>f s. s \<noteq> [] \<longrightarrow> 0 < fwrite_answer env f s)"

lemma af_rest_facts:
  "n \<le> length line \<Longrightarrow> \<exists>k \<le> length line. n \<le> k \<and>
     taken (af_rest env line n f) = taken f @ take (k - n) (drop n line) \<and>
     flushed (af_rest env line n f) = flushed f \<and> (progress env \<longrightarrow> k = length line)"
proof (induction env line n f rule: af_rest.induct)
  case (1 env line n f)
  show ?case
  proof (cases "n < length line")
    case False
    then have "af_rest env line n f = f" by (subst af_rest.simps) simp
    with False 1(2) show ?thesis by auto
  next
    case True
    obtain x f1 where w: "af_write env (drop n line) f = (x, f1)" by (cases "af_write env (drop n line) f")
    then have x: "x \<le> length line - n" and f1: "f1 = f @ [Fwrite (drop n line) x]"
      and pos: "progress env \<Longrightarrow> 0 < x"
      using True by (auto simp: af_write_def Let_def progress_def)
    show ?thesis
    proof (cases "x = 0")
      case zero: True
      have "af_rest env line n f = (if ferror_answer env f1 then f1 @ [ErrorMessage] else f1)"
        using True by (subst af_rest.simps) (simp add: w zero)
      then have "taken (af_rest env line n f) = taken f1" "flushed (af_rest env line n f) = flushed f1" by simp_all
      then have "taken (af_rest env line n f) = taken f" "flushed (af_rest env line n f) = flushed f"
        by (simp_all add: f1 zero)
      with zero pos 1(2) show ?thesis by (intro exI[of _ n]) auto
    next
      case False
      have r: "af_rest env line n f = af_rest env line (n + x) f1"
        using True False by (subst af_rest.simps) (simp add: w)
      have "n + x \<le> length line" using True x by simp
      from 1(1)[OF _ w[symmetric] refl False this] True obtain k where k: "k \<le> length line" "n + x \<le> k"
        "taken (af_rest env line (n + x) f1) = taken f1 @ take (k - (n + x)) (drop (n + x) line)"
        "flushed (af_rest env line (n + x) f1) = flushed f1" "progress env \<longrightarrow> k = length line"
        by auto
      moreover have "take x (drop n line) @ take (k - (n + x)) (drop (n + x) line) = take (k - n) (drop n line)"
        using k(2) by (metis add.commute diff_diff_left drop_drop le_add_diff_inverse le_diff_conv2 add_leE take_add)
      ultimately show ?thesis
        using k unfolding r by (intro exI[of _ k]) (simp add: f1)
    qed
  qed
qed


lemma af_append_facts:
  "\<exists>k \<le> length line. taken (af_append env line f) = taken f @ take k line \<and>
     flushed (af_append env line f) = flushed f \<and> (progress env \<longrightarrow> k = length line)"
proof -
  let ?n = "min (fwrite_answer env f line) (length line)"
  have "af_append env line f = af_rest env line ?n (f @ [Fwrite line ?n])"
    by (simp add: af_append_def af_write_def Let_def)
  moreover obtain k where "k \<le> length line" "?n \<le> k"
    "taken (af_rest env line ?n (f @ [Fwrite line ?n])) = taken (f @ [Fwrite line ?n]) @ take (k - ?n) (drop ?n line)"
    "flushed (af_rest env line ?n (f @ [Fwrite line ?n])) = flushed (f @ [Fwrite line ?n])"
    "progress env \<longrightarrow> k = length line"
    using af_rest_facts[of ?n line env "f @ [Fwrite line ?n]"] by auto
  moreover from this(2) have "take ?n line @ take (k - ?n) (drop ?n line) = take k line"
    by (metis le_add_diff_inverse take_add)
  ultimately show ?thesis by (intro exI[of _ k]) simp
qed

section \<open>The contract of a log destination\<close>

text \<open>An append takes a prefix of the line, the whole line when the destination is reliable; a flush takes nothing.\<close>

locale log_destination =
  fixes text_of :: "'d \<Rightarrow> string"
    and append_line :: "string \<Rightarrow> 'd \<Rightarrow> 'd"
    and flush_all :: "'d \<Rightarrow> 'd"
    and reliable :: bool
  assumes append_takes: "\<exists>k \<le> length s. text_of (append_line s d) = text_of d @ take k s \<and> (reliable \<longrightarrow> k = length s)"
    and flush_takes: "text_of (flush_all d) = text_of d"
begin

lemma append_reliable: "reliable \<Longrightarrow> text_of (append_line s d) = text_of d @ s"
  using append_takes[of s d] by auto

lemma appends_reliable: "reliable \<Longrightarrow> text_of (fold append_line ss d) = text_of d @ concat ss"
  by (induction ss arbitrary: d) (simp_all add: append_reliable)

lemma append_flush_reliable: "reliable \<Longrightarrow> text_of (flush_all (fold append_line ss d)) = text_of d @ concat ss"
  by (simp add: flush_takes appends_reliable)

end

definition lf_taken :: "log_file \<Rightarrow> string" where
  "lf_taken lf = taken (lf_file lf)"

lemma taken_af_flush [simp]: "taken (af_flush f) = taken f" "flushed (af_flush f) = taken f"
  by (simp_all add: af_flush_def)

interpretation logfile: log_destination lf_taken "lf_append env" lf_flush "progress env" for env
proof unfold_locales
  show "\<exists>k \<le> length s. lf_taken (lf_append env s lf) = lf_taken lf @ take k s \<and> (progress env \<longrightarrow> k = length s)" for s lf
    using af_append_facts[of s env "lf_file lf"]
    by (auto simp: lf_taken_def lf_append_def lf_appendInLock_def Let_def)
  show "lf_taken (lf_flush lf) = lf_taken lf" for lf by (simp add: lf_taken_def lf_flush_def)
qed

section \<open>Properties of the log file\<close>

definition lf_inv :: "string list \<Rightarrow> log_file \<Rightarrow> bool" where
  "lf_inv done_lines lf \<longleftrightarrow>
     (let N = nat (lf_flushEveryN lf); m = length done_lines in
      lf_count lf = int (m mod N) \<and> taken (lf_file lf) = concat done_lines \<and>
      flushed (lf_file lf) = concat (take (m div N * N) done_lines))"

lemma lf_inv_append:
  assumes "progress env" and N: "0 < lf_flushEveryN lf" and inv: "lf_inv ls lf"
  shows "lf_inv (ls @ [l]) (lf_append env l lf) \<and> lf_flushEveryN (lf_append env l lf) = lf_flushEveryN lf"
proof -
  define N where "N = nat (lf_flushEveryN lf)"
  have pos: "0 < N" "lf_flushEveryN lf = int N" using N by (simp_all add: N_def)
  have t: "taken (af_append env l (lf_file lf)) = concat ls @ l" "flushed (af_append env l (lf_file lf)) = flushed (lf_file lf)"
    using af_append_facts[of l env "lf_file lf"] assms(1) inv by (auto simp: lf_inv_def Let_def)
  show ?thesis
  proof (cases "Suc (length ls mod N) = N")
    case True
    then have m: "Suc (length ls) mod N = 0" "Suc (length ls) div N * N = Suc (length ls)"
      using div_mult_mod_eq[of "Suc (length ls)" N] by (auto simp: mod_Suc)
    from True have "lf_count lf + 1 \<ge> lf_flushEveryN lf"
      using inv pos by (simp add: lf_inv_def N_def[symmetric] Let_def)
    then show ?thesis
      using m t pos by (simp add: lf_inv_def lf_append_def lf_appendInLock_def Let_def)
  next
    case False
    then have lt: "Suc (length ls mod N) < N" using mod_less_divisor[OF pos(1), of "length ls"] by linarith
    then have m: "Suc (length ls) mod N = Suc (length ls mod N)" "Suc (length ls) div N = length ls div N"
      using False by (simp_all add: mod_Suc div_Suc)
    have "length ls div N * N \<le> length ls" by (simp add: div_times_less_eq_dividend)
    moreover from lt have "\<not> lf_count lf + 1 \<ge> lf_flushEveryN lf"
      using inv pos by (simp add: lf_inv_def N_def[symmetric] Let_def)
    ultimately show ?thesis
      using m t pos inv by (simp add: lf_inv_def lf_append_def lf_appendInLock_def Let_def N_def[symmetric])
  qed
qed

lemma lf_inv_appends:
  assumes "progress env" and "0 < lf_flushEveryN lf" and "lf_inv done_lines lf"
  shows "lf_inv (done_lines @ ls) (fold (lf_append env) ls lf) \<and>
    lf_flushEveryN (fold (lf_append env) ls lf) = lf_flushEveryN lf"
  using assms(2,3)
proof (induction ls arbitrary: lf done_lines)
  case (Cons l ls)
  from lf_inv_append[OF assms(1) Cons.prems, of l] Cons.IH[of "lf_append env l lf" "done_lines @ [l]"] Cons.prems(1)
  show ?case by simp
qed simp

text \<open>C37: A log file takes every line whole and in order, and flushes after every \<open>flushEveryN\<close> lines: behind
  the flushed text there are always fewer than \<open>flushEveryN\<close> lines. Each append ends, whatever \<open>fwrite\<close>
  answers, having taken a prefix of the line.\<close>

theorem log_file_flushes:
  fixes ls :: "string list"
  assumes "progress env" and "0 < n" and "new_log_file True fname n = Inr lf"
  defines "lf' \<equiv> fold (lf_append env) ls lf"
  shows "taken (lf_file lf') = concat ls \<and> flushed (lf_file lf') = concat (take (length ls - length ls mod nat n) ls) \<and>
    lf_count lf' = int (length ls mod nat n) \<and> flushed (lf_file (lf_flush lf')) = concat ls \<and>
    (\<forall>env' l. \<exists>k \<le> length l. taken (lf_file (lf_append env' l lf')) = concat ls @ take k l)"
proof -
  have lf: "lf_inv [] lf" "lf_flushEveryN lf = n"
    using assms(3) by (auto simp: new_log_file_def new_append_file_def lf_inv_def Let_def taken_def flushed_def)
  have "lf_inv ls lf'" "lf_flushEveryN lf' = n"
    using lf_inv_appends[OF assms(1) _ lf(1), of ls] assms(2) lf(2) by (simp_all add: lf'_def)
  then have "taken (lf_file lf') = concat ls" "lf_count lf' = int (length ls mod nat n)"
    "flushed (lf_file lf') = concat (take (length ls - length ls mod nat n) ls)"
    by (simp_all add: lf_inv_def Let_def minus_mod_eq_div_mult)
  moreover have "\<exists>k \<le> length l. taken (lf_file (lf_append env' l lf')) = taken (lf_file lf') @ take k l" for env' l
    using logfile.append_takes[of l env' lf'] by (auto simp: lf_taken_def)
  ultimately show ?thesis by (simp add: lf_flush_def)
qed

theorem log_file_flushes_witness:
  "\<exists>lf. new_log_file True ''app.log'' 2 = Inr lf \<and>
     (let lf' = fold (lf_append \<lparr>fwrite_answer = (\<lambda>_ s. 1), ferror_answer = (\<lambda>_. False)\<rparr>) [''ab'', ''cd'', ''ef''] lf in
      taken (lf_file lf') = ''abcdef'' \<and> flushed (lf_file lf') = ''abcd'' \<and> lf_count lf' = 1)"
proof -
  let ?env = "\<lparr>fwrite_answer = (\<lambda>_ s. 1), ferror_answer = (\<lambda>_. False)\<rparr>"
  obtain lf where lf: "new_log_file True ''app.log'' 2 = Inr lf" by (simp add: new_log_file_def new_append_file_def)
  have "progress ?env" by (simp add: progress_def)
  note p = log_file_flushes[OF this _ lf, where ls = "[''ab'', ''cd'', ''ef'']"]
  have n: "length [''ab'', ''cd'', ''ef''] - length [''ab'', ''cd'', ''ef''] mod nat 2 = Suc (Suc 0)"
    "length [''ab'', ''cd'', ''ef''] mod nat 2 = 1" by code_simp+
  from p[unfolded n] lf show ?thesis by (simp add: Let_def del: fold.simps One_nat_def)
qed

end
