(* ===== verification/Async_Logging.thy ===== *)
theory Async_Logging
  imports Log_Stream Log_File "HOL-Library.Sublist"
begin

text \<open>
  \<open>AsyncLogging\<close> (mymuduo/include/mymuduo/AsyncLogging.h, mymuduo/src/AsyncLogging.cc): threads append to a
  front buffer, a back-end thread swaps the full buffers out and writes them. Each member of the front
  and each of the two parts of the back end's loop, the one under the mutex and the one outside, is one
  step; a run is any sequence of steps. The wait for the condition variable may end at any time, so it
  restricts no run. The template argument of the buffers, \<open>kLargeBuffer\<close> in the code, is the argument \<open>SIZE\<close>.
\<close>

section \<open>State\<close>

text \<open>Where the back end stands: before its loop test, between the mutex and the next test, or at its end.\<close>

datatype async_phase = NotStarted | Testing | Writing | Finished

text \<open>The last five fields are the locals of \<open>threadFunc\<close>. A \<open>unique_ptr\<close> that was moved from is \<open>None\<close>.\<close>

record async =
  al_basename :: string
  al_flushInterval :: int
  running :: bool
  currentBuffer :: "fixed_buffer option"
  nextBuffer :: "fixed_buffer option"
  al_buffers :: "fixed_buffer option list"
  al_phase :: async_phase
  log_output :: log_file
  newBuffer1 :: "fixed_buffer option"
  newBuffer2 :: "fixed_buffer option"
  buffersToWrite :: "fixed_buffer option list"

definition new_async :: "nat \<Rightarrow> string \<Rightarrow> int \<Rightarrow> async" where
  "new_async SIZE bname flushInterval =
     \<lparr>al_basename = bname, al_flushInterval = flushInterval, running = False,
      currentBuffer = Some (fb_bzero (new_fixed_buffer SIZE)), nextBuffer = Some (fb_bzero (new_fixed_buffer SIZE)),
      al_buffers = [], al_phase = NotStarted,
      log_output = \<lparr>lf_basename = [], lf_flushEveryN = 0, lf_count = 0, lf_file = []\<rparr>,
      newBuffer1 = None, newBuffer2 = None, buffersToWrite = []\<rparr>"

section \<open>The front end\<close>

definition async_append :: "nat \<Rightarrow> string \<Rightarrow> async \<Rightarrow> async outcome" where
  "async_append SIZE logline s =
     (case currentBuffer s of
        None \<Rightarrow> Inl NullDeref
      | Some b \<Rightarrow>
          if fb_avail b > int (length logline)
          then bindR (fb_append logline (length logline) b) (\<lambda>b. Inr (s\<lparr>currentBuffer := Some b\<rparr>))
          else
            let s = s\<lparr>al_buffers := al_buffers s @ [Some b]\<rparr>;
                cur = (case nextBuffer s of Some n \<Rightarrow> n | None \<Rightarrow> new_fixed_buffer SIZE);
                s = s\<lparr>nextBuffer := None\<rparr>
            in bindR (fb_append logline (length logline) cur) (\<lambda>b. Inr (s\<lparr>currentBuffer := Some b\<rparr>)))"

text \<open>\<open>stop\<close> up to its \<open>join\<close>, and the destructor.\<close>

definition async_stop :: "async \<Rightarrow> async" where
  "async_stop s = s\<lparr>running := False\<rparr>"

definition delete_async :: "async \<Rightarrow> async" where
  "delete_async s = (if running s then async_stop s else s)"

section \<open>The back end\<close>

text \<open>The thread's start: \<open>start()\<close> and the locals of \<open>threadFunc\<close>. \<open>LogFile output(basename_)\<close> flushes
  every 1024 lines.\<close>

definition async_start :: "nat \<Rightarrow> bool \<Rightarrow> async \<Rightarrow> async outcome" where
  "async_start SIZE fopened s =
     bindR (new_log_file fopened (al_basename s) 1024) (\<lambda>out.
     Inr (s\<lparr>running := True, al_phase := Testing, log_output := out,
       newBuffer1 := Some (fb_bzero (new_fixed_buffer SIZE)), newBuffer2 := Some (fb_bzero (new_fixed_buffer SIZE)),
       buffersToWrite := []\<rparr>))"

text \<open>What is done under the mutex.\<close>

definition async_swap :: "async \<Rightarrow> async" where
  "async_swap s =
     (let s = s\<lparr>al_buffers := al_buffers s @ [currentBuffer s]\<rparr>;
          s = s\<lparr>currentBuffer := newBuffer1 s, newBuffer1 := None\<rparr>;
          s = s\<lparr>buffersToWrite := al_buffers s, al_buffers := buffersToWrite s\<rparr>
      in if nextBuffer s = None then s\<lparr>nextBuffer := newBuffer2 s, newBuffer2 := None\<rparr> else s)"

definition write_buffer :: "file_env \<Rightarrow> fixed_buffer option \<Rightarrow> log_file \<Rightarrow> log_file outcome" where
  "write_buffer env b out =
     (case b of None \<Rightarrow> Inl NullDeref | Some b \<Rightarrow> Inr (lf_append env (take (fb_length b) (fb_data b)) out))"

text \<open>\<open>if (!newBuffer)\<close>: the last buffer is taken back and reset.\<close>

definition take_back ::
  "fixed_buffer option \<Rightarrow> fixed_buffer option list \<Rightarrow> (fixed_buffer option \<times> fixed_buffer option list) outcome" where
  "take_back newBuffer bs =
     (case newBuffer of
        Some b \<Rightarrow> Inr (Some b, bs)
      | None \<Rightarrow>
          if bs = [] then Inl EmptyVector
          else (case last bs of None \<Rightarrow> Inl NullDeref | Some b \<Rightarrow> Inr (Some (fb_reset b), butlast bs)))"

definition keep_first :: "fixed_buffer option list \<Rightarrow> fixed_buffer option list" where
  "keep_first bs = (if length bs > 25 then take 2 bs else bs)"

text \<open>What is done outside the mutex.\<close>

definition async_write :: "file_env \<Rightarrow> async \<Rightarrow> async outcome" where
  "async_write env s =
     (let bs = keep_first (buffersToWrite s) in
      bindR (foldR (write_buffer env) bs (log_output s)) (\<lambda>out.
      let bs = (if length bs > 2 then take 2 bs else bs) in
      bindR (take_back (newBuffer1 s) bs) (\<lambda>(nb1, bs).
      bindR (take_back (newBuffer2 s) bs) (\<lambda>(nb2, bs).
      Inr (s\<lparr>newBuffer1 := nb1, newBuffer2 := nb2, buffersToWrite := [], log_output := lf_flush out\<rparr>)))))"

text \<open>The next step of \<open>threadFunc\<close>.\<close>

definition async_backend :: "file_env \<Rightarrow> async \<Rightarrow> async outcome" where
  "async_backend env s =
     (case al_phase s of
        NotStarted \<Rightarrow> Inr s
      | Testing \<Rightarrow>
          if running s then Inr ((async_swap s)\<lparr>al_phase := Writing\<rparr>)
          else Inr (s\<lparr>log_output := lf_flush (log_output s), al_phase := Finished\<rparr>)
      | Writing \<Rightarrow> bindR (async_write env s) (\<lambda>s. Inr (s\<lparr>al_phase := Testing\<rparr>))
      | Finished \<Rightarrow> Inr s)"

section \<open>Runs\<close>

datatype async_event = Append string | Backend | Stop

fun async_do :: "nat \<Rightarrow> file_env \<Rightarrow> async_event \<Rightarrow> async \<Rightarrow> async outcome" where
  "async_do SIZE env (Append m) s = async_append SIZE m s"
| "async_do SIZE env Backend s = async_backend env s"
| "async_do SIZE env Stop s = Inr (async_stop s)"

fun event_messages :: "async_event \<Rightarrow> string list" where
  "event_messages (Append m) = [m]"
| "event_messages _ = []"

definition messages :: "async_event list \<Rightarrow> string list" where
  "messages es = concat (map event_messages es)"

section \<open>The invariant\<close>

text \<open>A buffer of the right size that holds a list of messages.\<close>

definition buffer_of :: "nat \<Rightarrow> fixed_buffer option \<Rightarrow> string list \<Rightarrow> bool" where
  "buffer_of SIZE p ms \<longleftrightarrow> (\<exists>b. p = Some b \<and> fb_wf b \<and> fb_capacity b = SIZE \<and> fb_content b = concat ms)"

text \<open>The buffers the back end has at hand: two at its test, and as many as it needs while it writes.\<close>

definition spares :: "nat \<Rightarrow> async \<Rightarrow> bool" where
  "spares SIZE s \<longleftrightarrow>
     (case al_phase s of
        Testing \<Rightarrow> buffer_of SIZE (newBuffer1 s) [] \<and> buffer_of SIZE (newBuffer2 s) [] \<and> buffersToWrite s = []
      | Writing \<Rightarrow> newBuffer1 s = None \<and> buffersToWrite s \<noteq> [] \<and>
          (newBuffer2 s = None \<and> 2 \<le> length (buffersToWrite s) \<or> buffer_of SIZE (newBuffer2 s) [])
      | Finished \<Rightarrow> True
      | NotStarted \<Rightarrow> False)"

text \<open>\<open>kept\<close> are the messages in the file and in the buffers, in this order.\<close>

definition async_inv :: "nat \<Rightarrow> string list \<Rightarrow> async \<Rightarrow> bool" where
  "async_inv SIZE kept s \<longleftrightarrow> spares SIZE s \<and>
     (nextBuffer s = None \<and> al_buffers s \<noteq> [] \<or> buffer_of SIZE (nextBuffer s) []) \<and>
     (\<exists>written hand queued cur. kept = written @ concat hand @ concat queued @ cur \<and>
        lf_taken (log_output s) = concat written \<and> list_all2 (buffer_of SIZE) (buffersToWrite s) hand \<and>
        list_all2 (buffer_of SIZE) (al_buffers s) queued \<and> buffer_of SIZE (currentBuffer s) cur)"

lemma buffer_of_new [simp]: "buffer_of SIZE (Some (new_fixed_buffer SIZE)) []"
  "buffer_of SIZE (Some (fb_bzero (new_fixed_buffer SIZE))) []"
  by (simp_all add: buffer_of_def fb_capacity_def fb_bzero_def fb_wf_def fb_content_def new_fixed_buffer_def)

lemma buffer_of_reset: "buffer_of SIZE (Some b) ms \<Longrightarrow> buffer_of SIZE (Some (fb_reset b)) []"
  by (simp add: buffer_of_def fb_capacity_def)

text \<open>An append to a buffer, by the contract of the sink.\<close>

lemma buffer_append:
  assumes "buffer_of SIZE (Some b) ms" and "length m < 2 ^ 31"
  shows "\<exists>b'. fb_append m (length m) b = Inr b' \<and>
    buffer_of SIZE (Some b') (ms @ (if int (length m) < fb_avail b then [m] else []))"
  using fb.put_ok[of b m] assms fb_avail_content[of b] by (auto simp: buffer_of_def fb_put_def)

lemma async_append_step:
  assumes inv: "async_inv SIZE kept s" and m: "length m < 2 ^ 31"
  shows "\<exists>s'. async_append SIZE m s = Inr s' \<and>
    async_inv SIZE (kept @ (if length m < SIZE then [m] else [])) s' \<and> al_phase s' = al_phase s \<and>
    buffersToWrite s' = buffersToWrite s \<and> log_output s' = log_output s \<and> running s' = running s"
proof -
  from inv obtain written hand queued cur where
    k: "kept = written @ concat hand @ concat queued @ cur" "lf_taken (log_output s) = concat written"
      "list_all2 (buffer_of SIZE) (buffersToWrite s) hand" "list_all2 (buffer_of SIZE) (al_buffers s) queued"
      "buffer_of SIZE (currentBuffer s) cur"
    and sp: "spares SIZE s" and nx: "nextBuffer s = None \<and> al_buffers s \<noteq> [] \<or> buffer_of SIZE (nextBuffer s) []"
    unfolding async_inv_def by blast
  from k(5) obtain b where b: "currentBuffer s = Some b" "buffer_of SIZE (Some b) cur" by (auto simp: buffer_of_def)
  show ?thesis
  proof (cases "int (length m) < fb_avail b")
    case True
    from buffer_append[OF b(2) m] True obtain b' where b': "fb_append m (length m) b = Inr b'"
      "buffer_of SIZE (Some b') (cur @ [m])" by auto
    have "fb_avail b \<le> int SIZE" using b(2) fb_avail_content[of b] by (auto simp: buffer_of_def)
    with True have "length m < SIZE" by linarith
    moreover have "async_inv SIZE (kept @ [m]) (s\<lparr>currentBuffer := Some b'\<rparr>)"
      using sp nx k b'(2) unfolding async_inv_def
      by (intro conjI exI[of _ written] exI[of _ hand] exI[of _ queued] exI[of _ "cur @ [m]"])
        (simp_all add: spares_def cong: async_phase.case_cong)
    ultimately show ?thesis using True b(1) b'(1) by (simp add: async_append_def)
  next
    case False
    define n where "n = (case nextBuffer s of Some n \<Rightarrow> n | None \<Rightarrow> new_fixed_buffer SIZE)"
    have n: "buffer_of SIZE (Some n) []" using nx by (auto simp: n_def buffer_of_def[of _ "nextBuffer s"] buffer_of_def[of _ "Some _"] split: option.splits)
        (simp_all add: fb_capacity_def new_fixed_buffer_def)
    then have "fb_avail n = int SIZE" using fb_avail_content[of n] by (auto simp: buffer_of_def)
    with buffer_append[OF n m] obtain b' where b': "fb_append m (length m) n = Inr b'"
      "buffer_of SIZE (Some b') (if length m < SIZE then [m] else [])" by auto
    let ?s = "s\<lparr>al_buffers := al_buffers s @ [Some b], nextBuffer := None, currentBuffer := Some b'\<rparr>"
    have "list_all2 (buffer_of SIZE) (al_buffers s @ [Some b]) (queued @ [cur])"
      using k(4) b(2) by (simp add: list_all2_appendI)
    then have "async_inv SIZE (kept @ (if length m < SIZE then [m] else [])) ?s"
      using sp k b'(2) unfolding async_inv_def
      by (intro conjI exI[of _ written] exI[of _ hand] exI[of _ "queued @ [cur]"]
          exI[of _ "if length m < SIZE then [m] else []"])
        (simp_all add: spares_def cong: async_phase.case_cong)
    then show ?thesis using False b(1) b'(1)
      by (simp add: async_append_def Let_def n_def)
  qed
qed


lemma write_buffers:
  "list_all2 (buffer_of SIZE) bs hs \<Longrightarrow>
     foldR (write_buffer env) bs out = Inr (fold (lf_append env) (map concat hs) out)"
proof (induction bs hs arbitrary: out rule: list_all2_induct)
  case (Cons b bs h hs)
  then have "write_buffer env b out = Inr (lf_append env (concat h) out)"
    by (auto simp: write_buffer_def buffer_of_def fb_content_def fb_length_def)
  with Cons.IH show ?case by simp
qed simp

lemma take_back_some: "buffer_of SIZE p [] \<Longrightarrow> take_back p bs = Inr (p, bs)"
  by (auto simp: take_back_def buffer_of_def)

lemma take_back_none:
  assumes "list_all2 (buffer_of SIZE) bs hs" and "bs \<noteq> []"
  shows "\<exists>b. take_back None bs = Inr (Some b, butlast bs) \<and> buffer_of SIZE (Some b) []"
proof -
  have "buffer_of SIZE (last bs) (last hs)"
    using assms by (metis last_conv_nth list_all2_conv_all_nth diff_less length_greater_0_conv zero_less_one list.size(3))
  then obtain b where "last bs = Some b" "buffer_of SIZE (Some b) (last hs)" by (auto simp: buffer_of_def)
  with assms(2) buffer_of_reset show ?thesis by (auto simp: take_back_def)
qed

lemma list_all2_butlast: "list_all2 P xs ys \<Longrightarrow> list_all2 P (butlast xs) (butlast ys)"
  unfolding butlast_conv_take using list_all2_lengthD[of P xs ys] by (simp add: list_all2_takeI)

lemma async_write_step:
  assumes sp: "spares SIZE s" and ph: "al_phase s = Writing" and hand: "list_all2 (buffer_of SIZE) (buffersToWrite s) hand"
  defines "hand' \<equiv> (if length hand > 25 then take 2 hand else hand)"
  shows "\<exists>p1 p2. async_write env s = Inr (s\<lparr>newBuffer1 := p1, newBuffer2 := p2, buffersToWrite := [],
      log_output := lf_flush (fold (lf_append env) (map concat hand') (log_output s))\<rparr>) \<and>
    buffer_of SIZE p1 [] \<and> buffer_of SIZE p2 []"
proof -
  let ?bs = "keep_first (buffersToWrite s)" and ?bs2 = "if length (keep_first (buffersToWrite s)) > 2
    then take 2 (keep_first (buffersToWrite s)) else keep_first (buffersToWrite s)"
  let ?hs2 = "if length hand' > 2 then take 2 hand' else hand'"
  have len: "length (buffersToWrite s) = length hand" using hand by (rule list_all2_lengthD)
  have w: "list_all2 (buffer_of SIZE) ?bs hand'"
    using hand len by (simp add: keep_first_def hand'_def list_all2_takeI)
  then have w2: "list_all2 (buffer_of SIZE) ?bs2 ?hs2" by (auto dest: list_all2_lengthD intro: list_all2_takeI)
  have l1: "0 < length (buffersToWrite s)" and l2: "newBuffer2 s = None \<Longrightarrow> 2 \<le> length (buffersToWrite s)"
    using sp ph by (auto simp: spares_def buffer_of_def)
  have m: "min 2 (length (buffersToWrite s)) \<le> length ?bs2" by (simp add: keep_first_def)
  have "0 < length ?bs2" using l1 m by linarith
  moreover have "0 < length (butlast ?bs2)" if "newBuffer2 s = None"
    using l2[OF that] m unfolding length_butlast by linarith
  ultimately have ne: "?bs2 \<noteq> []" "newBuffer2 s = None \<Longrightarrow> butlast ?bs2 \<noteq> []"
    by (simp_all only: length_greater_0_conv simp_thms)
  from take_back_none[OF w2 ne(1)] obtain b1 where b1: "take_back None ?bs2 = Inr (Some b1, butlast ?bs2)"
    "buffer_of SIZE (Some b1) []" by blast
  have w3: "list_all2 (buffer_of SIZE) (butlast ?bs2) (butlast ?hs2)"
    by (rule list_all2_butlast[OF w2])
  have "\<exists>p2 bs. take_back (newBuffer2 s) (butlast ?bs2) = Inr (p2, bs) \<and> buffer_of SIZE p2 []"
  proof (cases "newBuffer2 s = None")
    case True
    with take_back_none[OF w3 ne(2)] show ?thesis by (metis)
  next
    case False
    with sp ph take_back_some show ?thesis by (fastforce simp: spares_def)
  qed
  then obtain p2 bs where p2: "take_back (newBuffer2 s) (butlast ?bs2) = Inr (p2, bs)" "buffer_of SIZE p2 []" by blast
  have nb1: "newBuffer1 s = None" using sp ph by (simp add: spares_def)
  have "async_write env s = Inr (s\<lparr>newBuffer1 := Some b1, newBuffer2 := p2, buffersToWrite := [],
      log_output := lf_flush (fold (lf_append env) (map concat hand') (log_output s))\<rparr>)"
    unfolding async_write_def Let_def nb1 write_buffers[OF w] bindR_simps b1(1) prod.case p2(1) by simp
  with b1(2) p2(2) show ?thesis by blast
qed

lemma async_swap_step:
  assumes inv: "async_inv SIZE kept s" and ph: "al_phase s = Testing"
  shows "async_inv SIZE kept ((async_swap s)\<lparr>al_phase := Writing\<rparr>)"
    and "log_output (async_swap s) = log_output s" "running (async_swap s) = running s"
    and "length (buffersToWrite (async_swap s)) = length (al_buffers s) + 1"
    and "al_buffers (async_swap s) = []"
proof -
  from inv obtain written hand queued cur where
    k: "kept = written @ concat hand @ concat queued @ cur" "lf_taken (log_output s) = concat written"
      "list_all2 (buffer_of SIZE) (buffersToWrite s) hand" "list_all2 (buffer_of SIZE) (al_buffers s) queued"
      "buffer_of SIZE (currentBuffer s) cur"
    and sp: "spares SIZE s" and nx: "nextBuffer s = None \<and> al_buffers s \<noteq> [] \<or> buffer_of SIZE (nextBuffer s) []"
    unfolding async_inv_def by blast
  have t: "buffer_of SIZE (newBuffer1 s) []" "buffer_of SIZE (newBuffer2 s) []" "buffersToWrite s = []"
    using sp ph by (simp_all add: spares_def)
  let ?s = "(async_swap s)\<lparr>al_phase := Writing\<rparr>"
  have fields: "currentBuffer ?s = newBuffer1 s" "newBuffer1 ?s = None" "al_phase ?s = Writing"
    "buffersToWrite ?s = al_buffers s @ [currentBuffer s]" "al_buffers ?s = []" "log_output ?s = log_output s"
    "nextBuffer ?s = (if nextBuffer s = None then newBuffer2 s else nextBuffer s)"
    "newBuffer2 ?s = (if nextBuffer s = None then None else newBuffer2 s)"
    by (simp_all add: async_swap_def Let_def t)
  have "hand = []" using k(3) t(3) by simp
  have "list_all2 (buffer_of SIZE) (al_buffers s @ [currentBuffer s]) (queued @ [cur])"
    using k(4,5) by (simp add: list_all2_appendI)
  moreover have "spares SIZE ?s"
    using t nx by (cases "al_buffers s") (auto simp: spares_def fields)
  moreover have "buffer_of SIZE (nextBuffer ?s) []" using t nx by (auto simp: fields)
  ultimately show "async_inv SIZE kept ?s"
    using k t unfolding async_inv_def
    by (intro conjI exI[of _ written] exI[of _ "queued @ [cur]"] exI[of _ "[]"] exI[of _ "[] :: string list"])
      (simp_all add: fields \<open>hand = []\<close>)
  show "log_output (async_swap s) = log_output s" "running (async_swap s) = running s"
    "length (buffersToWrite (async_swap s)) = length (al_buffers s) + 1" "al_buffers (async_swap s) = []"
    by (simp_all add: async_swap_def Let_def t)
qed


lemma concat_map_concat: "concat (map concat xss) = concat (concat xss)"
  by (induction xss) simp_all

lemma async_backend_step:
  assumes inv: "async_inv SIZE kept s" and io: "progress env"
  shows "\<exists>s' kept'. async_backend env s = Inr s' \<and> async_inv SIZE kept' s' \<and> subseq kept' kept \<and>
    (length (buffersToWrite s) \<le> 25 \<longrightarrow> kept' = kept)"
proof (cases "al_phase s")
  case NotStarted
  with inv show ?thesis by (simp add: async_inv_def spares_def)
next
  case Testing
  have "async_inv SIZE kept (s\<lparr>log_output := lf_flush (log_output s), al_phase := Finished\<rparr>)"
    using inv by (simp add: async_inv_def spares_def logfile.flush_takes)
  with async_swap_step(1)[OF inv Testing] Testing show ?thesis by (auto simp: async_backend_def)
next
  case Writing
  from inv obtain written hand queued cur where
    k: "kept = written @ concat hand @ concat queued @ cur" "lf_taken (log_output s) = concat written"
      "list_all2 (buffer_of SIZE) (buffersToWrite s) hand" "list_all2 (buffer_of SIZE) (al_buffers s) queued"
      "buffer_of SIZE (currentBuffer s) cur"
    and sp: "spares SIZE s" and nx: "nextBuffer s = None \<and> al_buffers s \<noteq> [] \<or> buffer_of SIZE (nextBuffer s) []"
    unfolding async_inv_def by blast
  define hand' where "hand' = (if length hand > 25 then take 2 hand else hand)"
  let ?kept = "(written @ concat hand') @ concat queued @ cur"
  from async_write_step[OF sp Writing k(3), of env] obtain p1 p2 where
    w: "async_write env s = Inr (s\<lparr>newBuffer1 := p1, newBuffer2 := p2, buffersToWrite := [],
        log_output := lf_flush (fold (lf_append env) (map concat hand') (log_output s))\<rparr>)"
    and p: "buffer_of SIZE p1 []" "buffer_of SIZE p2 []" unfolding hand'_def by blast
  let ?s = "s\<lparr>newBuffer1 := p1, newBuffer2 := p2, buffersToWrite := [],
        log_output := lf_flush (fold (lf_append env) (map concat hand') (log_output s)), al_phase := Testing\<rparr>"
  have wr: "lf_taken (log_output ?s) = concat (written @ concat hand')"
    using logfile.append_flush_reliable[OF io, of "map concat hand'" "log_output s"] k(2)
    by (simp add: concat_map_concat)
  have "async_inv SIZE ?kept ?s"
    using nx k(4,5) p wr unfolding async_inv_def
    by (intro conjI exI[of _ "written @ concat hand'"] exI[of _ "[]"] exI[of _ queued] exI[of _ cur])
      (simp_all add: spares_def)
  moreover have "subseq (concat hand') (concat hand)"
  proof -
    have "concat hand = concat (take 2 hand) @ concat (drop 2 hand)" by (simp flip: concat_append)
    then have "subseq (concat (take 2 hand)) (concat hand)" by (intro prefix_imp_subseq prefixI)
    then show ?thesis by (simp add: hand'_def)
  qed
  then have "subseq ?kept kept" unfolding k(1) append_assoc by (intro list_emb_append_mono) auto
  moreover have "length (buffersToWrite s) \<le> 25 \<longrightarrow> ?kept = kept"
    using list_all2_lengthD[OF k(3)] by (simp add: k(1) hand'_def)
  ultimately show ?thesis using w Writing by (auto simp: async_backend_def)
next
  case Finished
  with inv show ?thesis by (auto simp: async_backend_def)
qed

definition calm :: "nat \<Rightarrow> file_env \<Rightarrow> async_event list \<Rightarrow> async \<Rightarrow> bool" where
  "calm SIZE env es s \<longleftrightarrow>
     (\<forall>n s'. foldR (async_do SIZE env) (take n es) s = Inr s' \<longrightarrow> length (buffersToWrite s') \<le> 25)"

lemma calm_Cons:
  assumes "calm SIZE env (e # es) s"
  shows "length (buffersToWrite s) \<le> 25" and "async_do SIZE env e s = Inr s1 \<Longrightarrow> calm SIZE env es s1"
proof -
  show "length (buffersToWrite s) \<le> 25" using assms[unfolded calm_def, THEN spec, of 0] by simp
  show "calm SIZE env es s1" if "async_do SIZE env e s = Inr s1"
    unfolding calm_def using assms[unfolded calm_def, THEN spec, of "Suc _"] that by simp
qed

lemma async_run:
  assumes "async_inv SIZE kept s" and "progress env" and "\<forall>m \<in> set (messages es). length m < 2 ^ 31"
  shows "\<exists>s' kept'. foldR (async_do SIZE env) es s = Inr s' \<and> async_inv SIZE kept' s' \<and>
    subseq kept' (kept @ filter (\<lambda>m. length m < SIZE) (messages es)) \<and>
    (calm SIZE env es s \<longrightarrow> kept' = kept @ filter (\<lambda>m. length m < SIZE) (messages es))"
  using assms(1,3)
proof (induction es arbitrary: s kept)
  case Nil
  then show ?case by (auto simp: messages_def)
next
  case (Cons e es)
  have step: "\<exists>s1 kept1. async_do SIZE env e s = Inr s1 \<and> async_inv SIZE kept1 s1 \<and>
      subseq kept1 (kept @ filter (\<lambda>m. length m < SIZE) (event_messages e)) \<and>
      (length (buffersToWrite s) \<le> 25 \<longrightarrow> kept1 = kept @ filter (\<lambda>m. length m < SIZE) (event_messages e))"
  proof (cases e)
    case (Append m)
    with Cons.prems(2) have "length m < 2 ^ 31" by (simp add: messages_def)
    from async_append_step[OF Cons.prems(1) this] Append show ?thesis
      by (auto intro!: exI[of _ "kept @ (if length m < SIZE then [m] else [])"])
  next
    case Backend
    with async_backend_step[OF Cons.prems(1) assms(2)] show ?thesis by simp
  next
    case Stop
    have "async_inv SIZE kept (async_stop s)"
      using Cons.prems(1) by (simp add: async_stop_def async_inv_def spares_def cong: async_phase.case_cong)
    with Stop show ?thesis by auto
  qed
  then obtain s1 kept1 where s1: "async_do SIZE env e s = Inr s1" "async_inv SIZE kept1 s1"
    "subseq kept1 (kept @ filter (\<lambda>m. length m < SIZE) (event_messages e))"
    "length (buffersToWrite s) \<le> 25 \<longrightarrow> kept1 = kept @ filter (\<lambda>m. length m < SIZE) (event_messages e)" by blast
  have "\<forall>m \<in> set (messages es). length m < 2 ^ 31" using Cons.prems(2) by (simp add: messages_def)
  from Cons.IH[OF s1(2) this] obtain s' kept' where s': "foldR (async_do SIZE env) es s1 = Inr s'" "async_inv SIZE kept' s'"
    "subseq kept' (kept1 @ filter (\<lambda>m. length m < SIZE) (messages es))"
    "calm SIZE env es s1 \<longrightarrow> kept' = kept1 @ filter (\<lambda>m. length m < SIZE) (messages es)" by blast
  have m: "messages (e # es) = event_messages e @ messages es" by (simp add: messages_def)
  have "subseq (kept1 @ filter (\<lambda>m. length m < SIZE) (messages es))
      (kept @ filter (\<lambda>m. length m < SIZE) (messages (e # es)))"
    using list_emb_append_mono[OF s1(3) subseq_order.refl[of "filter (\<lambda>m. length m < SIZE) (messages es)"]]
    by (simp add: m)
  with s'(3) have "subseq kept' (kept @ filter (\<lambda>m. length m < SIZE) (messages (e # es)))"
    by (rule subseq_order.trans)
  moreover have "calm SIZE env (e # es) s \<longrightarrow> kept' = kept @ filter (\<lambda>m. length m < SIZE) (messages (e # es))"
    using s'(4) s1(1,4) calm_Cons by (simp add: m)
  ultimately show ?case using s1(1) s'(1,2) by auto
qed


section \<open>Properties of the asynchronous log\<close>

definition buffer_text :: "fixed_buffer option \<Rightarrow> string" where
  "buffer_text p = (case p of None \<Rightarrow> [] | Some b \<Rightarrow> fb_content b)"

text \<open>What is still in memory: with the back end, queued, and in the current buffer.\<close>

definition in_memory :: "async \<Rightarrow> string" where
  "in_memory s = concat (map buffer_text (buffersToWrite s)) @ concat (map buffer_text (al_buffers s)) @
     buffer_text (currentBuffer s)"

lemma buffer_text_of: "buffer_of SIZE p ms \<Longrightarrow> buffer_text p = concat ms"
  by (auto simp: buffer_of_def buffer_text_def)

lemma buffer_texts: "list_all2 (buffer_of SIZE) bs hs \<Longrightarrow> concat (map buffer_text bs) = concat (concat hs)"
  by (induction bs hs rule: list_all2_induct) (simp_all add: buffer_text_of)

lemma async_inv_texts:
  assumes "async_inv SIZE kept s"
  shows "\<exists>written waiting. kept = written @ waiting \<and> lf_taken (log_output s) = concat written \<and> in_memory s = concat waiting"
proof -
  from assms obtain written hand queued cur where "kept = written @ concat hand @ concat queued @ cur"
    "lf_taken (log_output s) = concat written" "list_all2 (buffer_of SIZE) (buffersToWrite s) hand"
    "list_all2 (buffer_of SIZE) (al_buffers s) queued" "buffer_of SIZE (currentBuffer s) cur"
    unfolding async_inv_def by blast
  then show ?thesis
    by (intro exI[of _ written] exI[of _ "concat hand @ concat queued @ cur"])
      (simp add: in_memory_def buffer_texts buffer_text_of)
qed

lemma async_start_inv:
  assumes "async_start SIZE True (new_async SIZE bname interv) = Inr s"
  shows "async_inv SIZE [] s"
  using assms by (auto simp: async_start_def new_async_def new_log_file_def new_append_file_def async_inv_def
      spares_def lf_taken_def taken_def intro!: exI[of _ "[]"])

text \<open>C19: The order of the log. Whatever the interleaving of the threads that append, the back end and a stop,
  nothing fails (no pointer that was moved from is followed, no buffer is overrun, the back end never
  runs out of buffers), and the file followed by what is in memory is made of whole messages, in the
  order of their appends: of all messages shorter than a buffer when the back end never finds more
  than 25 buffers, and of some of them otherwise.\<close>

theorem async_log_order:
  assumes "async_start SIZE True (new_async SIZE bname interv) = Inr s" and "progress env"
    and "\<forall>m \<in> set (messages es). length m < 2 ^ 31"
  shows "\<exists>s' written waiting. foldR (async_do SIZE env) es s = Inr s' \<and>
    lf_taken (log_output s') = concat written \<and> in_memory s' = concat waiting \<and>
    subseq (written @ waiting) (filter (\<lambda>m. length m < SIZE) (messages es)) \<and>
    (calm SIZE env es s \<longrightarrow> written @ waiting = filter (\<lambda>m. length m < SIZE) (messages es))"
proof -
  from async_run[OF async_start_inv[OF assms(1)] assms(2,3)] obtain s' kept
    where r: "foldR (async_do SIZE env) es s = Inr s'" "async_inv SIZE kept s'"
      "subseq kept (filter (\<lambda>m. length m < SIZE) (messages es))"
      "calm SIZE env es s \<longrightarrow> kept = filter (\<lambda>m. length m < SIZE) (messages es)" by auto
  from async_inv_texts[OF r(2)] r show ?thesis by blast
qed

text \<open>C38: Two steps of the back end empty the memory into the file and flush it, as long as it runs and finds at
  most 25 buffers.\<close>

theorem async_log_drains:
  assumes "async_start SIZE True (new_async SIZE bname interv) = Inr s0" and "progress env"
    and "\<forall>m \<in> set (messages es). length m < 2 ^ 31" and "foldR (async_do SIZE env) es s0 = Inr s"
    and "al_phase s = Testing" and "running s" and "length (al_buffers s) < 25"
  shows "\<exists>s'. foldR (async_do SIZE env) [Backend, Backend] s = Inr s' \<and> al_phase s' = Testing \<and>
    lf_taken (log_output s') = lf_taken (log_output s) @ in_memory s \<and> in_memory s' = [] \<and>
    flushed (lf_file (log_output s')) = lf_taken (log_output s')"
proof -
  from async_run[OF async_start_inv[OF assms(1)] assms(2,3)] assms(4) obtain kept where inv: "async_inv SIZE kept s" by auto
  let ?s1 = "(async_swap s)\<lparr>al_phase := Writing\<rparr>"
  note sw = async_swap_step[OF inv assms(5)]
  have b1: "async_backend env s = Inr ?s1" by (simp add: async_backend_def assms(5,6))
  from sw(1) obtain hand cur where sp: "spares SIZE ?s1" and
    h: "list_all2 (buffer_of SIZE) (buffersToWrite ?s1) hand" "buffer_of SIZE (currentBuffer ?s1) cur"
    unfolding async_inv_def by blast
  have few: "length hand \<le> 25" using list_all2_lengthD[OF h(1)] sw(4) assms(7) by simp
  have t: "buffersToWrite s = []" "buffer_of SIZE (newBuffer1 s) []" using inv assms(5) by (simp_all add: async_inv_def spares_def)
  have fields: "buffersToWrite ?s1 = al_buffers s @ [currentBuffer s]" "currentBuffer ?s1 = newBuffer1 s" "al_buffers ?s1 = []"
    by (simp_all add: async_swap_def Let_def t)
  have mem: "in_memory s = concat (concat hand)"
    using buffer_texts[OF h(1)] by (simp add: in_memory_def t fields)
  from async_write_step[OF sp _ h(1), of env] few obtain p1 p2 where
    w: "async_write env ?s1 = Inr (?s1\<lparr>newBuffer1 := p1, newBuffer2 := p2, buffersToWrite := [],
        log_output := lf_flush (fold (lf_append env) (map concat hand) (log_output ?s1))\<rparr>)" by auto
  let ?s2 = "?s1\<lparr>newBuffer1 := p1, newBuffer2 := p2, buffersToWrite := [],
        log_output := lf_flush (fold (lf_append env) (map concat hand) (log_output ?s1)), al_phase := Testing\<rparr>"
  have "foldR (async_do SIZE env) [Backend, Backend] s = Inr ?s2"
    using b1 w by (simp add: async_backend_def)
  moreover have "lf_taken (log_output ?s2) = lf_taken (log_output s) @ in_memory s"
    using logfile.append_flush_reliable[OF assms(2), of "map concat hand" "log_output s"]
    by (simp add: sw(2) mem concat_map_concat)
  moreover have "in_memory ?s2 = []" using buffer_text_of[OF t(2)] fields by (simp add: in_memory_def)
  moreover have "flushed (lf_file (log_output ?s2)) = lf_taken (log_output ?s2)" by (simp add: lf_flush_def lf_taken_def)
  ultimately show ?thesis by (intro exI[of _ ?s2]) simp
qed


text \<open>After its end the back end writes nothing.\<close>

lemma finished_file:
  "al_phase s = Finished \<Longrightarrow> foldR (async_do SIZE env) es s = Inr s' \<Longrightarrow> log_output s' = log_output s"
proof (induction es arbitrary: s)
  case (Cons e es)
  then obtain s1 where s1: "async_do SIZE env e s = Inr s1" "foldR (async_do SIZE env) es s1 = Inr s'"
    by (auto simp: bindR_eq_Inr)
  have "al_phase s1 = Finished \<and> log_output s1 = log_output s"
    using s1(1) Cons.prems(1)
    by (cases e) (auto simp: async_append_def async_backend_def async_stop_def Let_def bindR_eq_Inr
        split: option.splits if_splits)
  with Cons.IH[OF _ s1(2)] show ?case by simp
qed simp

text \<open>The end of the log. The back end does not look at the queue once more when it has been stopped: a
  message appended while it writes, before a stop, never reaches the file.\<close>

theorem async_stop_discards:
  assumes start: "async_start SIZE True (new_async SIZE bname interv) = Inr s" and io: "progress env"
    and m: "length m < 2 ^ 31" "length m < SIZE"
  shows "\<exists>s'. foldR (async_do SIZE env) [Backend, Append m, Stop, Backend, Backend] s = Inr s' \<and>
    al_phase s' = Finished \<and> in_memory s' = m \<and>
    (\<forall>es s''. foldR (async_do SIZE env) es s' = Inr s'' \<longrightarrow> lf_taken (log_output s'') = [])"
proof -
  note inv = async_start_inv[OF start]
  have s: "al_phase s = Testing" "running s" "al_buffers s = []" "buffersToWrite s = []"
    using start by (auto simp: async_start_def new_async_def bindR_eq_Inr)
  have empty: "lf_taken (log_output s) = []" "buffer_text (currentBuffer s) = []"
    using async_inv_texts[OF inv] by (auto simp: in_memory_def)
  let ?s1 = "(async_swap s)\<lparr>al_phase := Writing\<rparr>"
  note sw = async_swap_step[OF inv s(1)]
  have s1: "buffersToWrite ?s1 = [currentBuffer s]" by (simp add: async_swap_def Let_def s)
  from async_append_step[OF sw(1) m(1)] m(2) obtain s2 where s2: "async_append SIZE m ?s1 = Inr s2"
    "async_inv SIZE [m] s2" "al_phase s2 = Writing" "buffersToWrite s2 = [currentBuffer s]"
    "log_output s2 = log_output s" by (auto simp: s1 sw(2))
  let ?s3 = "async_stop s2"
  have s3: "async_inv SIZE [m] ?s3" "al_phase ?s3 = Writing" "buffersToWrite ?s3 = [currentBuffer s]" "log_output ?s3 = log_output s"
    "\<not> running ?s3"
    using s2 by (simp_all add: async_stop_def async_inv_def spares_def)
  then obtain hand where sp: "spares SIZE ?s3" and h: "list_all2 (buffer_of SIZE) (buffersToWrite ?s3) hand"
    unfolding async_inv_def by blast
  have hand: "length hand = 1" "concat (concat hand) = []"
    using list_all2_lengthD[OF h] buffer_texts[OF h] by (simp_all add: s3(3) empty(2))
  from async_write_step[OF sp s3(2) h, of env] hand(1) obtain p1 p2 where
    w: "async_write env ?s3 = Inr (?s3\<lparr>newBuffer1 := p1, newBuffer2 := p2, buffersToWrite := [],
        log_output := lf_flush (fold (lf_append env) (map concat hand) (log_output ?s3))\<rparr>)" by auto
  let ?s4 = "?s3\<lparr>newBuffer1 := p1, newBuffer2 := p2, buffersToWrite := [],
        log_output := lf_flush (fold (lf_append env) (map concat hand) (log_output ?s3)), al_phase := Testing\<rparr>"
  let ?s5 = "?s4\<lparr>log_output := lf_flush (log_output ?s4), al_phase := Finished\<rparr>"
  have b3: "async_backend env ?s3 = Inr ?s4" using w s3(2) by (simp add: async_backend_def)
  have b4: "async_backend env ?s4 = Inr ?s5" using s3(5) by (simp add: async_backend_def)
  have none: "lf_taken (log_output ?s5) = []"
    using logfile.appends_reliable[OF io, of "map concat hand" "log_output s"] hand(2) empty(1)
    by (simp add: logfile.flush_takes s3(4) concat_map_concat)
  have run: "foldR (async_do SIZE env) [Backend, Append m, Stop, Backend, Backend] s = Inr ?s5"
    using s2(1) b3 b4 by (simp add: async_backend_def[of env s] s)
  from async_backend_step[OF s3(1) io] b3 s3(3) have "async_inv SIZE [m] ?s4" by auto
  from async_backend_step[OF this io] b4 have "async_inv SIZE [m] ?s5" by auto
  with run none obtain s5 where s5: "foldR (async_do SIZE env) [Backend, Append m, Stop, Backend, Backend] s = Inr s5"
    "lf_taken (log_output s5) = []" "async_inv SIZE [m] s5" "al_phase s5 = Finished" by simp
  from async_inv_texts[OF s5(3)] obtain wr wa where k: "[m] = wr @ wa" "lf_taken (log_output s5) = concat wr"
    "in_memory s5 = concat wa" by blast
  have "m = concat (wr @ wa)" unfolding k(1)[symmetric] by simp
  with k(2,3) s5(2) have "in_memory s5 = m" by simp
  with s5 finished_file[OF s5(4)] show ?thesis by (intro exI[of _ s5]) auto
qed

text \<open>Fewer than 25 appends never make 26 buffers.\<close>

lemma async_write_fields:
  "async_write env s = Inr s' \<Longrightarrow> al_buffers s' = al_buffers s \<and> buffersToWrite s' = []"
  unfolding async_write_def Let_def by (auto simp: bindR_eq_Inr)

lemma async_do_count:
  assumes "async_do SIZE env e s = Inr s'" and "length (al_buffers s) \<le> k" and "length (buffersToWrite s) \<le> k + 1"
    and "al_phase s = Testing \<longrightarrow> buffersToWrite s = []"
  defines "k' \<equiv> k + length (event_messages e)"
  shows "length (al_buffers s') \<le> k' \<and> length (buffersToWrite s') \<le> k' + 1 \<and>
    (al_phase s' = Testing \<longrightarrow> buffersToWrite s' = [])"
proof (cases e)
  case (Append m)
  with assms show ?thesis
    by (auto simp: async_append_def Let_def bindR_eq_Inr split: option.splits if_splits)
next
  case Backend
  show ?thesis
  proof (cases "al_phase s")
    case Testing
    with assms Backend show ?thesis
      by (cases "running s") (auto simp: async_backend_def async_swap_def Let_def)
  next
    case Writing
    with assms(1) Backend obtain s1 where "async_write env s = Inr s1" "s' = s1\<lparr>al_phase := Testing\<rparr>"
      by (auto simp: async_backend_def bindR_eq_Inr)
    with async_write_fields[OF this(1)] assms(2) show ?thesis by (simp add: k'_def)
  qed (use assms Backend in \<open>auto simp: async_backend_def\<close>)
next
  case Stop
  with assms show ?thesis by (auto simp: async_stop_def)
qed

lemma async_counts:
  "foldR (async_do SIZE env) es s = Inr s' \<Longrightarrow> length (al_buffers s) \<le> k \<Longrightarrow> length (buffersToWrite s) \<le> k + 1 \<Longrightarrow>
     al_phase s = Testing \<longrightarrow> buffersToWrite s = [] \<Longrightarrow> length (buffersToWrite s') \<le> k + length (messages es) + 1"
proof (induction es arbitrary: s k)
  case (Cons e es)
  then obtain s1 where s1: "async_do SIZE env e s = Inr s1" "foldR (async_do SIZE env) es s1 = Inr s'"
    by (auto simp: bindR_eq_Inr)
  from async_do_count[OF s1(1) Cons.prems(2-4)] Cons.IH[OF s1(2), of "k + length (event_messages e)"]
  show ?case by (simp add: messages_def)
qed (simp add: messages_def)

lemma few_messages_calm:
  assumes "async_start SIZE True (new_async SIZE bname interv) = Inr s" and "length (messages es) < 25"
  shows "calm SIZE env es s"
  unfolding calm_def
proof (intro allI impI)
  fix n s' assume r: "foldR (async_do SIZE env) (take n es) s = Inr s'"
  have s: "al_buffers s = []" "buffersToWrite s = []"
    using assms(1) by (auto simp: async_start_def new_async_def bindR_eq_Inr)
  have "messages es = messages (take n es) @ messages (drop n es)"
    by (simp add: messages_def flip: concat_append map_append)
  then have "length (messages (take n es)) < 25" using assms(2) by simp
  with async_counts[OF r, of 0] show "length (buffersToWrite s') \<le> 25" by (simp add: s)
qed


section \<open>A log with buffers of four bytes\<close>

definition demo_file_env :: file_env where
  "demo_file_env = \<lparr>fwrite_answer = (\<lambda>_. length), ferror_answer = (\<lambda>_. False)\<rparr>"

lemma demo_progress: "progress demo_file_env"
  by (simp add: progress_def demo_file_env_def)

lemma demo_start: "\<exists>s. async_start SIZE True (new_async SIZE ''app.log'' 2) = Inr s"
  by (simp add: async_start_def new_log_file_def new_append_file_def)

text \<open>The third message is as long as a buffer, and is lost.\<close>

theorem async_log_order_witness:
  "\<exists>s s' written waiting. async_start 4 True (new_async 4 ''app.log'' 2) = Inr s \<and>
     foldR (async_do 4 demo_file_env) [Append ''ab'', Append ''cd'', Backend, Append ''long'', Append ''e'', Backend, Backend] s = Inr s' \<and>
     lf_taken (log_output s') = concat written \<and> in_memory s' = concat waiting \<and> written @ waiting = [''ab'', ''cd'', ''e'']"
proof -
  let ?es = "[Append ''ab'', Append ''cd'', Backend, Append ''long'', Append ''e'', Backend, Backend]"
  obtain s where s: "async_start 4 True (new_async 4 ''app.log'' 2) = Inr s" using demo_start by blast
  have m: "messages ?es = [''ab'', ''cd'', ''long'', ''e'']" by (simp add: messages_def)
  have "calm 4 demo_file_env ?es s" by (rule few_messages_calm[OF s]) (simp add: m)
  moreover have "\<forall>x \<in> set (messages ?es). length x < 2 ^ 31" by (simp add: m)
  ultimately show ?thesis using async_log_order[OF s demo_progress, of ?es] s by (auto simp: m)
qed

theorem async_log_drains_witness:
  "\<exists>s s'. async_start 4 True (new_async 4 ''app.log'' 2) = Inr s \<and>
     foldR (async_do 4 demo_file_env) [Append ''ab'', Append ''cd''] s = Inr s' \<and>
     (\<exists>s''. foldR (async_do 4 demo_file_env) [Backend, Backend] s' = Inr s'' \<and> lf_taken (log_output s'') = ''abcd'' \<and>
        flushed (lf_file (log_output s'')) = ''abcd'')"
proof -
  let ?es = "[Append ''ab'', Append ''cd'']"
  obtain s where s: "async_start 4 True (new_async 4 ''app.log'' 2) = Inr s" using demo_start by blast
  have m: "messages ?es = [''ab'', ''cd'']" by (simp add: messages_def)
  have ok: "\<forall>x \<in> set (messages ?es). length x < 2 ^ 31" by (simp add: m)
  from async_run[OF async_start_inv[OF s] demo_progress ok] few_messages_calm[OF s, of ?es] obtain s'
    where s': "foldR (async_do 4 demo_file_env) ?es s = Inr s'" "async_inv 4 [''ab'', ''cd''] s'" by (auto simp: m)
  obtain s1 where s1: "async_append 4 ''ab'' s = Inr s1" "async_append 4 ''cd'' s1 = Inr s'"
    using s'(1) by (auto simp: bindR_eq_Inr)
  have st: "al_phase s = Testing" "running s" "al_buffers s = []" "lf_taken (log_output s) = []"
    using s by (auto simp: async_start_def new_async_def new_log_file_def new_append_file_def lf_taken_def taken_def)
  have inv: "async_inv 4 [] s" by (rule async_start_inv[OF s])
  from async_append_step[OF inv, of "''ab''"] s1(1) have i1: "async_inv 4 [''ab''] s1" "al_phase s1 = Testing" "running s1"
    "lf_taken (log_output s1) = []" using st by auto
  from async_append_step[OF i1(1), of "''cd''"] s1(2) i1 have i2: "al_phase s' = Testing" "running s'" "lf_taken (log_output s') = []"
    by auto
  have "length (al_buffers s') < 25"
    using async_do_count[of 4 demo_file_env "Append ''ab''" s s1 0] async_do_count[of 4 demo_file_env "Append ''cd''" s1 s' 1]
      s1 st inv by (simp add: async_inv_def spares_def)
  from async_log_drains[OF s demo_progress ok s'(1) i2(1,2) this] obtain s'' where
    d: "foldR (async_do 4 demo_file_env) [Backend, Backend] s' = Inr s''"
    "lf_taken (log_output s'') = lf_taken (log_output s') @ in_memory s'"
    "flushed (lf_file (log_output s'')) = lf_taken (log_output s'')" by blast
  obtain wr wa where k: "[''ab'', ''cd''] = wr @ wa" "lf_taken (log_output s') = concat wr" "in_memory s' = concat wa"
    using async_inv_texts[OF s'(2)] by blast
  have "lf_taken (log_output s') @ in_memory s' = concat (wr @ wa)" by (simp add: k(2,3))
  then have t: "lf_taken (log_output s'') = ''abcd''" unfolding d(2) k(1)[symmetric] by simp
  with d(3) have "flushed (lf_file (log_output s'')) = ''abcd''" by simp
  with t d(1) s'(1) s show ?thesis by blast
qed

theorem async_stop_discards_witness:
  "\<exists>s s'. async_start 4000000 True (new_async 4000000 ''app.log'' 2) = Inr s \<and>
     foldR (async_do 4000000 demo_file_env) [Backend, Append ''lost'', Stop, Backend, Backend] s = Inr s' \<and>
     al_phase s' = Finished \<and> lf_taken (log_output s') = []"
proof -
  obtain s where s: "async_start 4000000 True (new_async 4000000 ''app.log'' 2) = Inr s" using demo_start by blast
  have "length ''lost'' < 2 ^ 31" "length ''lost'' < 4000000" by simp_all
  from async_stop_discards[OF s demo_progress this] obtain s' where
    s': "foldR (async_do 4000000 demo_file_env) [Backend, Append ''lost'', Stop, Backend, Backend] s = Inr s'"
    "al_phase s' = Finished"
    "\<forall>es s''. foldR (async_do 4000000 demo_file_env) es s' = Inr s'' \<longrightarrow> lf_taken (log_output s'') = []" by blast
  from s'(3)[THEN spec, of "[]"] s' s show ?thesis by auto
qed

end
