(* ===== verification/Spec2Isabelle.thy ===== *)
theory Spec2Isabelle
  imports Http_Example Chat_Server Accept_Example Current_Thread Timer_Queue Logger Async_Logging
begin

text \<open>
  A verification library for the mymuduo network library and the HTTP server on it: event loops over
  epoll, connections, a multi-threaded TCP server, timers, logging, and HTTP parsing and serving.

  The program. An \<open>EventLoop\<close> polls the descriptors of its \<open>Channel\<close>s through a \<open>Poller\<close>, dispatches their
  events and then runs the functors that its own or another thread queued, woken by an eventfd. A
  \<open>TcpServer\<close> accepts connections in its base loop and deals them to the loops of a thread pool; a
  \<open>TcpConnection\<close> lives in one loop, reads into and writes from a \<open>Buffer\<close>, and calls the application.
  \<open>HttpServer\<close> is such an application: it parses requests out of the buffer and sends responses. A
  \<open>TimerQueue\<close> runs callbacks from a timerfd in a loop. The \<open>Logger\<close> formats a line in a \<open>LogStream\<close> and hands it
  to an output function; \<open>AsyncLogging\<close> is one that writes to a \<open>LogFile\<close> from a thread of its own.

  Theories and sources. Files are below mymuduo/ or http/, in include/ and src/.

  \<^item> \<open>Prelude\<close>: outcomes (a fault or a value), loops over lists, searching, C printing, copying.
  \<^item> \<open>Byte_Queue\<close>, \<open>NetBuffer\<close>: the contract of a byte queue, and \<open>Buffer\<close> (Buffer.h, Buffer.cc) with its vector
    and two indices; the buffer is a first-in first-out queue and keeps its indices in bounds.
  \<^item> \<open>Std_Containers\<close>: \<open>std::map\<close> and \<open>std::set\<close> with their contracts.
  \<^item> \<open>Time_Stamp\<close>, \<open>Inet_Address\<close>: Timestamp.h and InetAddress.h.
  \<^item> \<open>Http_Request\<close>, \<open>Http_Context\<close>, \<open>Http_Response\<close>: HttpRequest.h, HttpContext.h/.cc, HttpResponse.h/.cc. The
    parser is a loop that may not return (\<open>partial_function\<close>); it is proved to return exactly when it
    starts before the end of a request, to refine a line-by-line specification, to be incremental,
    and to invert the printing of requests.
  \<^item> \<open>Channel_Poller\<close>, \<open>Event_Loop\<close>: Channel.h/.cc, Poller.h, EpollPoller.h/.cc, DefaultPoller.cc, EventLoop.h/.cc.
    What the channels ask for is what the kernel watches; the loop and the threads that post to it
    are a step relation, with the order of functors and the absence of lost wakeups as invariants.
  \<^item> \<open>Current_Thread\<close>: CurrentThread.h/.cc, the cached id of a thread; elsewhere the id is an argument.
  \<^item> \<open>Tcp_Connection\<close>: TcpConnection.h/.cc and the socket calls; connections as objects of a world, the
    kernel's answers as functions of the log of calls; delivery, states, and the faulty error paths.
  \<^item> \<open>Thread_Pool\<close>: Thread, EventLoopThread and EventLoopThreadPool. \<open>Tcp_Server\<close>: Socket, Acceptor and TcpServer;
    the map of connections is an invariant of every run of the base loop.
  \<^item> \<open>Http_Server\<close>: HttpServer.h/.cc as an application of the server: how requests are answered.
  \<^item> \<open>Conn_Acts\<close>, \<open>Reactor\<close>, \<open>Reactor_Accept\<close>, \<open>Reactor_Safety\<close>, \<open>Reactor_Turn\<close>: the threads of a server together. A state is the
    server's world and, for each loop, where its thread is in \<open>loop()\<close> (EventLoop.cc); \<open>loop_turn\<close> is one step of one
    thread (the poll, one channel's events, the swap, one functor, the end of \<open>doPendingFunctors\<close>), and the turns
    interleave freely. The reference counts of the connections are read off the state: \<open>held\<close> is true as long as the
    server's map or a functor holds a \<open>TcpConnectionPtr\<close>, and the destructors run where the last functor goes. The
    invariant \<open>reactor_inv\<close> says which channels a loop may have, that whatever is registered is held, which functors may
    wait where, and that what has still to happen to a connection is on its way; every turn keeps it
    (\<open>Conn_Acts\<close>: what a connection's members may touch; \<open>Reactor_Accept\<close>: a new connection; \<open>Reactor_Safety\<close>: the handlers).
    \<open>Built_Server\<close>: from a constructed server to its running threads, for any application.
    \<open>Http_Reactor\<close>: the HTTP server built, started and run on these threads.
  \<^item> \<open>Http_Example\<close>, \<open>Chat_Server\<close>: the example programs http/test/HttpServer_test.cc and
    mymuduo/test/muduo_server.cpp, from \<open>main\<close> to the bytes on the socket: the three pages of the one, and the echo of
    the other. \<open>Conn_Frame\<close>: what sending leaves alone, which both rest on. \<open>Accept_Example\<close>: mymuduo/test/test01.cc, an
    acceptor on a loop of its own.
  \<^item> \<open>Timer_Queue\<close>: Timer.h/.cc, TimerId.h, TimerQueue.h/.cc. The set of timers stays well-formed in every run,
    and an alarm runs exactly the timers that are due.
  \<^item> \<open>Log_Stream\<close>: LogStream.h/.cc; the stream refines a line of bounded length. \<open>Logger\<close>: Logger.h/.cc; the
    line a statement prints. \<open>Log_File\<close>: FileUtil.h/.cc and LogFile.h/.cc; what reaches the file, and when it
    is flushed. \<open>Async_Logging\<close>: AsyncLogging.h/.cc; order and losses in every interleaving.

  Interfaces. Where a component relies on another through a contract, the contract is a locale
  interpreted on the model's own definitions: \<open>byte_queue\<close> (the buffer), \<open>key_map\<close> and \<open>ordered_set\<close> (the
  containers), \<open>loop_in\<close> and \<open>loop_client\<close> (a loop inside a larger state), \<open>server_setup\<close> (a server and its
  application), \<open>server_threads\<close> (the threads of a server and its application, over the kernels of the type \<open>fair_kernel\<close>),
  \<open>line_sink\<close> (a log buffer) and \<open>log_destination\<close> (a log file).

  Conventions. Answers of the system (epoll_wait, epoll_ctl, read, write, accept, fwrite, the clock,
  new addresses) are arguments: functions of what was called so far, or given to each step.
  Callbacks of the user are arguments too. A failed assertion, an abort, an access out of bounds, a null
  pointer, an empty function and a call that never returns are values of type \<open>fault\<close>. Integers are words
  where their width matters. There is no fuel: every loop but the parser's terminates structurally
  or by a measure, and the endless loop of a thread is a function of the answers it gets.

  The turns of the threads are atomic. What one thread does to another's objects between two turns is only to push a
  functor under the mutex and to wake the loop, so a turn commutes with the others' in all but the order of those
  pushes, which the interleaving covers; the split of \<open>queueInLoop\<close> and \<open>quit\<close> into their two parts is in \<open>Event_Loop\<close>. An
  application is assumed to act, in a callback, on the connection it is given. Between the turns any other thread may call
  \<open>send(Buffer*)\<close> or \<open>shutdown\<close> on a living connection, or quit a loop (\<open>reaches\<close>); the functors of these calls bind a raw
  \<open>this\<close>, and a turn that runs one faults when its connection is dead. The test of \<open>state_\<close> and the queueing of the
  functor are one step there: in the code another thread may come between them, and then the functor may outlive its connection.
  \<open>send(const std::string &)\<close> from another thread, which binds the address of the caller's string, is in \<open>Tcp_Connection\<close> only.

  Not modelled. References to connections that the application keeps, \<open>noncopyable\<close>, the
  test program testmuduo (it uses the original muduo), what
  the examples print, and the file that CMake generates. \<open>LOG_WARN\<close> and \<open>LOG_FMT_DEBUG\<close> do not compile
  when they are used or enabled; \<open>rollFile\<close> is never defined. Log output of the library itself is left
  out of the other components, except that a FATAL line aborts.
\<close>

section \<open>Logging into the asynchronous log\<close>

text \<open>A program that has set the front end of an \<open>AsyncLogging\<close> as the output of its loggers: its statements,
  interleaved with the steps of the back end and a stop.\<close>

datatype log_action = Statement log_env "log_arg list" | Other async_event

definition async_globals :: "async log_globals \<Rightarrow> async log_globals" where
  "async_globals g = setOutput (async_append kLargeBuffer) g"

fun log_do :: "async log_globals \<Rightarrow> file_env \<Rightarrow> log_action \<Rightarrow> log_thread \<times> async \<Rightarrow> (log_thread \<times> async) outcome" where
  "log_do g fenv (Statement env args) (thr, s) =
     bindR (LOG_ERROR (async_globals g) env args thr s) (\<lambda>(aborts, thr, s). Inr (thr, s))"
| "log_do g fenv (Other e) (thr, s) = bindR (async_do kLargeBuffer fenv e s) (\<lambda>s. Inr (thr, s))"

fun action_event :: "log_action \<Rightarrow> async_event" where
  "action_event (Statement env args) = Append (line_text env ERROR (concat (map arg_text args)))"
| "action_event (Other e) = e"

fun action_ok :: "log_action \<Rightarrow> bool" where
  "action_ok (Statement env args) \<longleftrightarrow> (\<forall>a \<in> set args. arg_ok a) \<and>
     fits_line env DEBUG (env_func env @ '' '' @ concat (map arg_text args))"
| "action_ok (Other e) \<longleftrightarrow> event_messages e = []"

lemma action_line: "action_ok (Statement env args) \<Longrightarrow> length (line_text env ERROR (concat (map arg_text args))) < kSmallBuffer"
  using header_length[of env ERROR DEBUG] by (simp add: fits_line_def line_length kMaxNumericSize_def kSmallBuffer_def)

lemma log_do_event:
  assumes "action_ok a"
  shows "\<exists>thr'. log_do g fenv a (thr, s) = bindR (async_do kLargeBuffer fenv (action_event a) s) (\<lambda>s. Inr (thr', s))"
proof (cases a)
  case (Statement env args)
  with log_statements_facts(1)[of args env "async_globals g" thr s] assms obtain thr' where
    "LOG_ERROR (async_globals g) env args thr s =
      bindR (async_append kLargeBuffer (line_text env ERROR (concat (map arg_text args))) s) (\<lambda>s. Inr (False, thr', s))"
    by (auto simp: async_globals_def setOutput_def)
  with Statement show ?thesis by (intro exI[of _ thr']) (simp add: bindR_assoc)
next
  case (Other e)
  then show ?thesis by auto
qed

lemma log_run_events:
  assumes "\<forall>a \<in> set acts. action_ok a" and "foldR (async_do kLargeBuffer fenv) (map action_event acts) s = Inr s'"
  shows "\<exists>thr'. foldR (log_do g fenv) acts (thr, s) = Inr (thr', s')"
  using assms
proof (induction acts arbitrary: thr s)
  case (Cons a acts)
  from Cons.prems(2) obtain s1 where s1: "async_do kLargeBuffer fenv (action_event a) s = Inr s1"
    "foldR (async_do kLargeBuffer fenv) (map action_event acts) s1 = Inr s'" by (auto simp: bindR_eq_Inr)
  from log_do_event[of a g fenv thr s] Cons.prems(1) s1(1) obtain thr1 where "log_do g fenv a (thr, s) = Inr (thr1, s1)"
    by auto
  with Cons.IH[OF _ s1(2), of thr1] Cons.prems(1) show ?case by simp
qed simp

text \<open>The lines of the statements.\<close>

definition log_lines :: "log_action list \<Rightarrow> string list" where
  "log_lines acts = messages (map action_event acts)"

lemma log_lines_short:
  assumes "\<forall>a \<in> set acts. action_ok a" and "m \<in> set (log_lines acts)"
  shows "length m < kSmallBuffer"
proof -
  from assms(2) obtain a where a: "a \<in> set acts" "m \<in> set (event_messages (action_event a))"
    by (auto simp: log_lines_def messages_def)
  with assms(1) action_line show ?thesis by (cases a) auto
qed

text \<open>C20: From the statement to the file. A program logs through \<open>LOG_ERROR\<close> into an \<open>AsyncLogging\<close>. Whatever the
  interleaving of its statements with the back end, every statement returns, and the file followed by
  the memory of the log is made of the lines of the statements in program order, each whole; none is
  missing while the back end never finds more than 25 buffers.\<close>

theorem logged_lines_in_order:
  assumes "async_start kLargeBuffer True (new_async kLargeBuffer bname interv) = Inr s" and "progress fenv"
    and "\<forall>a \<in> set acts. action_ok a"
  shows "\<exists>thr' s' written waiting. foldR (log_do g fenv) acts (thr, s) = Inr (thr', s') \<and>
    lf_taken (log_output s') = concat written \<and> in_memory s' = concat waiting \<and>
    subseq (written @ waiting) (log_lines acts) \<and>
    (calm kLargeBuffer fenv (map action_event acts) s \<longrightarrow> written @ waiting = log_lines acts)"
proof -
  let ?es = "map action_event acts"
  have short: "length m < kSmallBuffer" if "m \<in> set (messages ?es)" for m
    using log_lines_short[OF assms(3)] that by (simp add: log_lines_def)
  then have "\<forall>m \<in> set (messages ?es). length m < 2 ^ 31" by (fastforce simp: kSmallBuffer_def)
  from async_run[OF async_start_inv[OF assms(1)] assms(2) this] obtain s' kept where
    r: "foldR (async_do kLargeBuffer fenv) ?es s = Inr s'" "async_inv kLargeBuffer kept s'"
    "subseq kept (filter (\<lambda>m. length m < kLargeBuffer) (messages ?es))"
    "calm kLargeBuffer fenv ?es s \<longrightarrow> kept = filter (\<lambda>m. length m < kLargeBuffer) (messages ?es)" by auto
  have "filter (\<lambda>m. length m < kLargeBuffer) (messages ?es) = log_lines acts"
    using short by (fastforce simp: log_lines_def filter_id_conv kSmallBuffer_def kLargeBuffer_def)
  with r async_inv_texts[OF r(2)] log_run_events[OF assms(3) r(1), of g thr] show ?thesis by (metis (no_types, lifting))
qed

theorem logged_lines_in_order_witness:
  "\<exists>s thr' s' written waiting. async_start kLargeBuffer True (new_async kLargeBuffer ''app.log'' 2) = Inr s \<and>
     foldR (log_do \<lparr>g_logLevel = INFO, g_output = (\<lambda>m s. Inr s), g_flush = Inr\<rparr> demo_file_env)
       [Statement demo_log_env [Str ''one''], Other Backend, Statement demo_log_env [Str ''two''], Other Backend] (demo_thread, s)
       = Inr (thr', s') \<and>
     lf_taken (log_output s') = concat written \<and> in_memory s' = concat waiting \<and>
     written @ waiting = [line_text demo_log_env ERROR ''one'', line_text demo_log_env ERROR ''two'']"
proof -
  let ?acts = "[Statement demo_log_env [Str ''one''], Other Backend, Statement demo_log_env [Str ''two''], Other Backend]"
  obtain s where s: "async_start kLargeBuffer True (new_async kLargeBuffer ''app.log'' 2) = Inr s" using demo_start by blast
  have l: "log_lines ?acts = [line_text demo_log_env ERROR ''one'', line_text demo_log_env ERROR ''two'']"
    by (simp add: log_lines_def messages_def)
  have c: "calm kLargeBuffer demo_file_env (map action_event ?acts) s"
    by (rule few_messages_calm[OF s]) (simp add: messages_def)
  have "\<forall>a \<in> set ?acts. action_ok a"
    using demo_fits[of "env_func demo_log_env @ '' '' @ ''one''"] demo_fits[of "env_func demo_log_env @ '' '' @ ''two''"]
    by (simp add: arg_ok_def demo_log_env_def)
  from logged_lines_in_order[OF s demo_progress this, where thr = demo_thread and
      g = "\<lparr>g_logLevel = INFO, g_output = (\<lambda>m s. Inr s), g_flush = Inr\<rparr>"] c
  show ?thesis unfolding l using s by blast
qed

end
